(* ===== verification/Prelude.thy ===== *)
theory Prelude
  imports "HOL-Library.Word"
begin

text \<open>
  The vocabulary the components share: the widths of the program's machine types, the byte
  strings that travel over its channels, results that are either an exception or a value, and
  the few generic facts on lists and words that several components use.
\<close>

type_synonym byte = "8 word"
type_synonym bytes = "byte list"
type_synonym u16 = "16 word"
type_synonym u32 = "32 word"
type_synonym u64 = "64 word"
type_synonym size_t = "64 word"

text \<open>
  \<open>wire\<close> collects the equations of byte encodings, \<open>inv_defs\<close> the definitions of component
  invariants, \<open>result_simps\<close> what turns a successful result into its parts.
\<close>

named_theorems wire "equations of byte encodings"
named_theorems inv_defs "definitions of component invariants"
named_theorems result_simps "inversion of successful results"

section \<open>Results\<close>

text \<open>A C++ call either throws (the left summand) or returns.\<close>

definition bind_result :: "'e + 'a \<Rightarrow> ('a \<Rightarrow> 'e + 'b) \<Rightarrow> 'e + 'b" where
  "bind_result r f = (case r of Inl e \<Rightarrow> Inl e | Inr a \<Rightarrow> f a)"

lemma bind_result_Inl [simp]: "bind_result (Inl e) f = Inl e"
  by (simp add: bind_result_def)

lemma bind_result_Inr [simp]: "bind_result (Inr a) f = f a"
  by (simp add: bind_result_def)

lemma bind_result_eq_Inr [result_simps]:
  "bind_result r f = Inr b \<longleftrightarrow> (\<exists>a. r = Inr a \<and> f a = Inr b)"
  by (cases r) auto

lemma bind_result_eq_Inl [result_simps]:
  "bind_result r f = Inl e \<longleftrightarrow> r = Inl e \<or> (\<exists>a. r = Inr a \<and> f a = Inl e)"
  by (cases r) auto

section \<open>Lists\<close>

lemma nth_swap_two:
  "i < length xs \<Longrightarrow> j < length xs \<Longrightarrow> k < length xs \<Longrightarrow>
   xs[i := xs ! j, j := xs ! i] ! k = (if k = j then xs ! i else if k = i then xs ! j else xs ! k)"
  by (auto simp: nth_list_update)

lemma fold_append_singletons: "fold (\<lambda>m c. c @ [m]) ms c = c @ ms"
  by (induction ms arbitrary: c) auto

lemma take_eq_self: "length xs \<le> n \<Longrightarrow> take n xs = xs"
  by simp

lemma distinct_map_fst_filter: "distinct (map f xs) \<Longrightarrow> distinct (map f (filter P xs))"
  by (induction xs) auto

section \<open>Words\<close>

lemma unat_of_nat_small: "n < 2 ^ LENGTH('a) \<Longrightarrow> unat (word_of_nat n :: 'a::len word) = n"
  by (simp add: unat_of_nat)

lemma unat_byte_less [simp]: "unat (b :: byte) < 256"
  using unsigned_less [of b] by simp

lemma unat_of_nat_byte: "unat (word_of_nat n :: byte) = n mod 256"
  by (simp add: unat_of_nat)

lemma word_of_nat_unat_add: "word_of_nat (unat w + n) = w + word_of_nat n"
  by simp

lemma word_add_of_nat_inj:
  fixes a :: "'a::len word"
  assumes "i < 2 ^ LENGTH('a)" and "j < 2 ^ LENGTH('a)"
  shows "a + word_of_nat i = a + word_of_nat j \<longleftrightarrow> i = j"
  using assms by (metis add_left_cancel unat_of_nat_small)


text \<open>A counter that has not reached its last value counts up without wrapping.\<close>

lemma unat_succ:
  fixes n :: "'a::len word"
  assumes "n \<noteq> - 1"
  shows "unat (n + 1) = Suc (unat n)"
proof -
  have "n + 1 \<noteq> 0" using assms by (simp add: eq_neg_iff_add_eq_0)
  have succ: "n + 1 = word_of_nat (Suc (unat n))" by simp
  have "Suc (unat n) \<noteq> 2 ^ LENGTH('a)"
  proof
    assume "Suc (unat n) = 2 ^ LENGTH('a)"
    then have "n + 1 = word_of_nat (2 ^ LENGTH('a))" unfolding succ by (rule arg_cong)
    also have "\<dots> = (0 :: 'a word)" by (simp only: of_nat_power of_nat_numeral word_exp_length_eq_0)
    finally show False using \<open>n + 1 \<noteq> 0\<close> by simp
  qed
  then have "Suc (unat n) < 2 ^ LENGTH('a)" by (intro le_neq_trans Suc_leI unsigned_less)
  then show ?thesis unfolding succ by (rule unat_of_nat_small)
qed

end
