(* ===== verification/Exceptions.thy ===== *)
theory Exceptions
  imports Prelude
begin

text \<open>
  The exceptions of \<^verbatim>\<open>coipc/exceptions.h\<close>, with the standard ones the library throws beside
  them, and which of them a handler for a given class catches.
\<close>

datatype exn =
    Cancelled_exception
  | Initialization_failed string
  | Protocol_not_supported string
  | Connection_refused string
  | Server_exe_not_found string
  | Insufficient_buffer_error size_t size_t
  | Std_invalid_argument string
  | Std_logic_error string
  | Std_runtime_error string
  | Std_bad_alloc

datatype exn_class =
    C_exception | C_logic_error | C_invalid_argument | C_runtime_error | C_bad_alloc
  | C_cancelled_exception | C_initialization_failed | C_protocol_not_supported
  | C_connection_refused | C_server_exe_not_found | C_insufficient_buffer_error

text \<open>The class a thrown object has, and the chain of its base classes, itself first.\<close>

fun class_of :: "exn \<Rightarrow> exn_class" where
  "class_of Cancelled_exception = C_cancelled_exception"
| "class_of (Initialization_failed _) = C_initialization_failed"
| "class_of (Protocol_not_supported _) = C_protocol_not_supported"
| "class_of (Connection_refused _) = C_connection_refused"
| "class_of (Server_exe_not_found _) = C_server_exe_not_found"
| "class_of (Insufficient_buffer_error _ _) = C_insufficient_buffer_error"
| "class_of (Std_invalid_argument _) = C_invalid_argument"
| "class_of (Std_logic_error _) = C_logic_error"
| "class_of (Std_runtime_error _) = C_runtime_error"
| "class_of Std_bad_alloc = C_bad_alloc"

fun bases :: "exn_class \<Rightarrow> exn_class list" where
  "bases C_exception = [C_exception]"
| "bases C_logic_error = [C_logic_error, C_exception]"
| "bases C_invalid_argument = [C_invalid_argument, C_logic_error, C_exception]"
| "bases C_runtime_error = [C_runtime_error, C_exception]"
| "bases C_bad_alloc = [C_bad_alloc, C_exception]"
| "bases C_cancelled_exception = [C_cancelled_exception, C_exception]"
| "bases C_initialization_failed = [C_initialization_failed, C_runtime_error, C_exception]"
| "bases C_protocol_not_supported =
     [C_protocol_not_supported, C_invalid_argument, C_logic_error, C_exception]"
| "bases C_connection_refused = [C_connection_refused, C_runtime_error, C_exception]"
| "bases C_server_exe_not_found =
     [C_server_exe_not_found, C_connection_refused, C_runtime_error, C_exception]"
| "bases C_insufficient_buffer_error =
     [C_insufficient_buffer_error, C_runtime_error, C_exception]"

definition catches :: "exn_class \<Rightarrow> exn \<Rightarrow> bool" where
  "catches c e \<longleftrightarrow> c \<in> set (bases (class_of e))"

lemma catches_exception: "catches C_exception e"
  by (cases e) (simp_all add: catches_def)

text \<open>Every handler that catches a base class catches the derived ones: chains are suffixes.\<close>

lemma bases_closed: "d \<in> set (bases c) \<Longrightarrow> set (bases d) \<subseteq> set (bases c)"
  by (cases c; auto)

text \<open>
  What a call may come to where the language does not define its effect: that, or an exception.
\<close>

datatype fault = Undefined_behaviour | Thrown exn

definition lift_exn :: "exn + 'a \<Rightarrow> fault + 'a" where
  "lift_exn r = (case r of Inl x \<Rightarrow> Inl (Thrown x) | Inr a \<Rightarrow> Inr a)"

end
