(* ===== verification/Byte_Representation.thy ===== *)
theory Byte_Representation
  imports Prelude
begin

text \<open>
  \<^verbatim>\<open>byte_representation<T>\<close> of \<^verbatim>\<open>src/helpers.h\<close>: a union of a scalar and the array of its bytes.
  The union is the byte array; reading and storing the scalar go through the byte order of
  the host, which is a parameter. \<open>reorder\<close> is the code's loop of swaps.
\<close>

datatype endian = Little_endian | Big_endian

text \<open>The base-256 digits of a number, least significant first, and the number of such digits.\<close>

fun le_bytes :: "nat \<Rightarrow> nat \<Rightarrow> bytes" where
  "le_bytes 0 x = []"
| "le_bytes (Suc n) x = word_of_nat x # le_bytes n (x div 256)"

fun le_value :: "bytes \<Rightarrow> nat" where
  "le_value [] = 0"
| "le_value (b # bs) = unat b + 256 * le_value bs"

text \<open>Writing and reading the member \<^verbatim>\<open>value\<close> of a union of \<open>n\<close> bytes.\<close>

definition store_value :: "endian \<Rightarrow> nat \<Rightarrow> nat \<Rightarrow> bytes" where
  "store_value e n x = (case e of Little_endian \<Rightarrow> le_bytes n x | Big_endian \<Rightarrow> rev (le_bytes n x))"

definition load_value :: "endian \<Rightarrow> bytes \<Rightarrow> nat" where
  "load_value e bs = (case e of Little_endian \<Rightarrow> le_value bs | Big_endian \<Rightarrow> le_value (rev bs))"

text \<open>\<^verbatim>\<open>for (auto i = 0u; i < sizeof(T) / 2; ++i) swap(bytes[i], bytes[sizeof(T) - 1 - i])\<close>\<close>

function swap_loop :: "nat \<Rightarrow> 'a list \<Rightarrow> 'a list" where
  "swap_loop i bs =
     (if i < length bs div 2
      then swap_loop (Suc i)
             (bs[i := bs ! (length bs - 1 - i), length bs - 1 - i := bs ! i])
      else bs)"
  by pat_completeness auto
termination
  by (relation "measure (\<lambda>(i, bs). length bs div 2 - i)") auto

declare swap_loop.simps [simp del]

text \<open>The probe: \<^verbatim>\<open>order.value = 0xFF; if (order.bytes[0])\<close>, with \<^verbatim>\<open>sizeof(unsigned) = 4\<close>.\<close>

definition reorder :: "endian \<Rightarrow> bytes \<Rightarrow> bytes" where
  "reorder e bs = (if store_value e 4 255 ! 0 \<noteq> 0 then swap_loop 0 bs else bs)"

text \<open>The big-endian digits: what the bytes on the network are meant to be.\<close>

definition network_bytes :: "nat \<Rightarrow> nat \<Rightarrow> bytes" where
  "network_bytes n x = rev (le_bytes n x)"

section \<open>Digits\<close>

lemma le_bytes_numeral [simp]:
  "le_bytes (numeral k) x = word_of_nat x # le_bytes (pred_numeral k) (x div 256)"
  by (simp only: numeral_eq_Suc [of k] le_bytes.simps)

lemma length_le_bytes [simp]: "length (le_bytes n x) = n"
  by (induction n arbitrary: x) auto

lemma length_store_value [simp]: "length (store_value e n x) = n"
  by (cases e) (simp_all add: store_value_def)

lemma le_value_le_bytes [wire]: "le_value (le_bytes n x) = x mod 256 ^ n"
proof (induction n arbitrary: x)
  case (Suc n)
  have "x mod 256 ^ Suc n = 256 * (x div 256 mod 256 ^ n) + x mod 256"
    by (simp add: mod_mult2_eq)
  with Suc show ?case by (simp add: unat_of_nat_byte)
qed simp

lemma le_bytes_le_value [wire]: "le_bytes (length bs) (le_value bs) = bs"
proof (induction bs)
  case (Cons b bs)
  have "(word_of_nat 256 :: byte) = 0" by simp
  then have "word_of_nat (unat b + 256 * le_value bs) = b"
    by (simp only: of_nat_add of_nat_mult mult_zero_left) simp
  moreover have "(unat b + 256 * le_value bs) div 256 = le_value bs"
    using unat_byte_less [of b] by simp
  ultimately show ?case using Cons by simp
qed simp

lemma le_value_less: "le_value bs < 256 ^ length bs"
proof (induction bs)
  case (Cons b bs)
  have "unat b + 256 * le_value bs < 256 * Suc (le_value bs)"
    using unat_byte_less [of b] by simp
  also have "\<dots> \<le> 256 * 256 ^ length bs"
    using Cons by (intro mult_le_mono2) simp
  finally show ?case by simp
qed simp

lemma load_store_value [wire]: "load_value e (store_value e n x) = x mod 256 ^ n"
  by (cases e) (simp_all add: load_value_def store_value_def wire)

lemma store_load_value [wire]: "store_value e (length bs) (load_value e bs) = bs"
proof (cases e)
  case Big_endian
  have "le_bytes (length (rev bs)) (le_value (rev bs)) = rev bs" by (rule le_bytes_le_value)
  with Big_endian show ?thesis by (simp add: load_value_def store_value_def)
qed (simp add: load_value_def store_value_def wire)

lemma load_value_less: "load_value e bs < 256 ^ length bs"
  using le_value_less [of bs] le_value_less [of "rev bs"]
  by (cases e) (simp_all add: load_value_def)

section \<open>The loop of swaps reverses\<close>

lemma length_swap_loop [simp]: "length (swap_loop i bs) = length bs"
  by (induction i bs rule: swap_loop.induct) (simp add: swap_loop.simps)

text \<open>At round \<open>i\<close> the outer \<open>i\<close> elements of either end are in place.\<close>

lemma swap_loop_nth:
  "k < length bs \<Longrightarrow> i \<le> length bs \<Longrightarrow> swap_loop i bs ! k =
     (if i \<le> k \<and> k < length bs - i then bs ! (length bs - 1 - k) else bs ! k)"
proof (induction i bs rule: swap_loop.induct)
  case (1 i bs)
  let ?n = "length bs"
  let ?s = "bs[i := bs ! (?n - 1 - i), ?n - 1 - i := bs ! i]"
  show ?case
  proof (cases "i < ?n div 2")
    case True
    then have "swap_loop i bs ! k = swap_loop (Suc i) ?s ! k"
      by (simp add: swap_loop.simps [of i bs])
    also have "\<dots> = (if Suc i \<le> k \<and> k < ?n - Suc i then ?s ! (?n - 1 - k) else ?s ! k)"
      using 1 True by simp
    also have "\<dots> = (if i \<le> k \<and> k < ?n - i then bs ! (?n - 1 - k) else bs ! k)"
      using True "1.prems" by (auto simp: nth_list_update)
    finally show ?thesis .
  next
    case False
    then have "k = ?n - 1 - k" if "i \<le> k" "k < ?n - i" using that by arith
    with False show ?thesis by (auto simp: swap_loop.simps [of i bs])
  qed
qed

lemma swap_loop_rev: "swap_loop 0 bs = rev bs"
  by (rule nth_equalityI) (simp_all add: swap_loop_nth rev_nth)

lemma reorder_eq:
  "reorder e bs = (case e of Little_endian \<Rightarrow> rev bs | Big_endian \<Rightarrow> bs)"
  by (cases e) (simp_all add: reorder_def store_value_def swap_loop_rev)

lemma length_reorder [simp]: "length (reorder e bs) = length bs"
  by (cases e) (simp_all add: reorder_eq)

lemma reorder_store_value [wire]: "reorder e (store_value e n x) = network_bytes n x"
  by (cases e) (simp_all add: reorder_eq store_value_def network_bytes_def)

lemma length_network_bytes [simp]: "length (network_bytes n x) = n"
  by (simp add: network_bytes_def)

lemma load_reorder_network [wire]: "load_value e (reorder e (network_bytes n x)) = x mod 256 ^ n"
  by (cases e) (simp_all add: reorder_eq load_value_def network_bytes_def wire)

end
