(* ===== verification/Ranges.thy ===== *)
theory Ranges
  imports Prelude
begin

text \<open>
  \<^verbatim>\<open>coipc/range.h\<close>: a pointer and a length. Pointers and lengths are 64-bit words, so that
  \<open>range_end\<close>, \<open>range_suffix\<close> and the comparisons of \<open>range_inside\<close> wrap where the code's
  would; the elements are bytes (the two instances the library names, \<^verbatim>\<open>const_byte_range\<close> and
  \<^verbatim>\<open>byte_range\<close>). The memory a range points into is a function from addresses to bytes, and
  \<open>range_bytes\<close> is the byte string a range denotes in it.
\<close>

type_synonym memory = "size_t \<Rightarrow> byte"

record byte_range =
  range_data :: size_t
  range_length :: size_t

definition range_ctor :: "size_t \<Rightarrow> size_t \<Rightarrow> byte_range" where
  "range_ctor start len = \<lparr>range_data = start, range_length = len\<rparr>"

definition range_begin :: "byte_range \<Rightarrow> size_t" where
  "range_begin r = range_data r"

definition range_end :: "byte_range \<Rightarrow> size_t" where
  "range_end r = range_data r + range_length r"

definition range_convert :: "byte_range \<Rightarrow> byte_range" where
  "range_convert u = range_ctor (range_begin u) (range_length u)"

definition range_inside :: "byte_range \<Rightarrow> size_t \<Rightarrow> bool" where
  "range_inside r p \<longleftrightarrow> range_begin r \<le> p \<and> p < range_end r"

definition range_prefix :: "byte_range \<Rightarrow> size_t \<Rightarrow> byte_range" where
  "range_prefix r len = range_ctor (range_data r) len"

definition range_suffix :: "byte_range \<Rightarrow> size_t \<Rightarrow> byte_range" where
  "range_suffix r start = range_ctor (range_data r + start) (range_length r - start)"

text \<open>\<^verbatim>\<open>make_range\<close> takes a vector's storage and size.\<close>

record byte_vector =
  vec_data :: size_t
  vec_size :: size_t

definition make_range :: "byte_vector \<Rightarrow> byte_range" where
  "make_range v = range_ctor (vec_data v) (vec_size v)"

section \<open>What a range denotes\<close>

definition bytes_at :: "memory \<Rightarrow> size_t \<Rightarrow> nat \<Rightarrow> bytes" where
  "bytes_at m p n = map (\<lambda>i. m (p + word_of_nat i)) [0..<n]"

definition range_bytes :: "memory \<Rightarrow> byte_range \<Rightarrow> bytes" where
  "range_bytes m r = bytes_at m (range_data r) (unat (range_length r))"

text \<open>The range of an object: it does not run over the end of the address space.\<close>

definition range_valid :: "byte_range \<Rightarrow> bool" where
  "range_valid r \<longleftrightarrow> unat (range_data r) + unat (range_length r) < 2 ^ 64"

lemmas range_defs = range_ctor_def range_begin_def range_end_def range_convert_def
  range_inside_def range_prefix_def range_suffix_def make_range_def

lemma length_bytes_at [simp]: "length (bytes_at m p n) = n"
  by (simp add: bytes_at_def)

lemma nth_bytes_at [simp]: "i < n \<Longrightarrow> bytes_at m p n ! i = m (p + word_of_nat i)"
  by (simp add: bytes_at_def)

lemma take_bytes_at: "k \<le> n \<Longrightarrow> take k (bytes_at m p n) = bytes_at m p k"
  by (simp add: bytes_at_def take_map)

lemma drop_bytes_at: "k \<le> n \<Longrightarrow> drop k (bytes_at m p n) = bytes_at m (p + word_of_nat k) (n - k)"
  by (rule nth_equalityI) (simp_all add: add.assoc)

lemma bytes_at_cong:
  "(\<And>i. i < n \<Longrightarrow> m (p + word_of_nat i) = m' (p' + word_of_nat i)) \<Longrightarrow>
   bytes_at m p n = bytes_at m' p' n"
  by (simp add: bytes_at_def)

lemma length_range_bytes [simp]: "length (range_bytes m r) = unat (range_length r)"
  by (simp add: range_bytes_def)

lemma range_bytes_prefix:
  "n \<le> range_length r \<Longrightarrow> range_bytes m (range_prefix r n) = take (unat n) (range_bytes m r)"
  by (simp add: range_bytes_def range_defs take_bytes_at word_le_nat_alt)

lemma range_bytes_suffix:
  "n \<le> range_length r \<Longrightarrow> range_bytes m (range_suffix r n) = drop (unat n) (range_bytes m r)"
  by (simp add: range_bytes_def range_defs drop_bytes_at word_le_nat_alt unat_sub)

lemma range_inside_iff:
  assumes "range_valid r"
  shows "range_inside r p \<longleftrightarrow>
    (\<exists>i < unat (range_length r). p = range_data r + word_of_nat i)"
proof -
  have e: "unat (range_data r + range_length r) = unat (range_data r) + unat (range_length r)"
    using assms by (simp add: range_valid_def unat_word_ariths)
  show ?thesis
  proof
    assume "range_inside r p"
    then have "unat (range_data r) \<le> unat p"
      and "unat p < unat (range_data r) + unat (range_length r)"
      by (simp_all add: range_defs word_le_nat_alt word_less_nat_alt e)
    then have "unat p - unat (range_data r) < unat (range_length r)
        \<and> p = range_data r + word_of_nat (unat p - unat (range_data r))"
      by (simp add: of_nat_diff)
    then show "\<exists>i < unat (range_length r). p = range_data r + word_of_nat i" by blast
  next
    assume "\<exists>i < unat (range_length r). p = range_data r + word_of_nat i"
    then obtain i where i: "i < unat (range_length r)" "p = range_data r + word_of_nat i"
      by blast
    have "unat (range_length r) < 2 ^ 64" using unsigned_less [of "range_length r"] by simp
    with i have "unat (word_of_nat i :: size_t) = i" by (simp add: unat_of_nat_small)
    with i assms have "unat p = unat (range_data r) + i"
      by (simp add: range_valid_def unat_word_ariths)
    with i show "range_inside r p"
      by (simp add: range_defs word_le_nat_alt word_less_nat_alt e)
  qed
qed

section \<open>Splitting\<close>

text \<open>
  Splitting a range: for a position inside of it, the prefix and the suffix denote the first
  and the remaining bytes, and the range contains exactly the addresses of its bytes.
\<close>

lemma range_split:
  assumes "range_valid r" and "n \<le> range_length r"
  shows "range_bytes m (range_prefix r n) @ range_bytes m (range_suffix r n) = range_bytes m r \<and>
    range_length (range_suffix r n) = range_length r - n \<and>
    (range_inside r p \<longleftrightarrow> (\<exists>i < unat (range_length r). p = range_data r + word_of_nat i))"
  using range_inside_iff [OF assms(1), of p]
  by (simp add: range_bytes_prefix [OF assms(2)] range_bytes_suffix [OF assms(2)])
     (simp add: range_suffix_def range_ctor_def)

end
