(* ===== verification/Buffers.thy ===== *)
theory Buffers
  imports Ranges Exceptions
begin

text \<open>
  \<^verbatim>\<open>coipc/strmd/stream.h\<close> and \<^verbatim>\<open>src/strmd/stream.cpp\<close>: the reader and the writer the
  serialization library works through. The reader copies between addresses of one memory,
  byte by byte, as its loop does; \<open>read_spec\<close> and \<open>skip_spec\<close> are what it promises on the
  byte string that is left.
\<close>

record buffer_reader =
  br_ptr :: size_t
  br_remaining :: size_t

definition buffer_reader_ctor :: "byte_range \<Rightarrow> buffer_reader" where
  "buffer_reader_ctor payload =
     \<lparr>br_ptr = range_begin payload, br_remaining = range_length payload\<rparr>"

definition reader_raise :: "buffer_reader \<Rightarrow> size_t \<Rightarrow> exn" where
  "reader_raise r sz = Insufficient_buffer_error sz (br_remaining r)"

text \<open>\<^verbatim>\<open>for (auto n = sz; n--; ) *dest++ = *src++;\<close>\<close>

fun copy_loop :: "nat \<Rightarrow> memory \<Rightarrow> size_t \<Rightarrow> size_t \<Rightarrow> memory \<times> size_t" where
  "copy_loop 0 m dest src = (m, src)"
| "copy_loop (Suc n) m dest src = copy_loop n (m(dest := m src)) (dest + 1) (src + 1)"

definition reader_read ::
    "memory \<Rightarrow> buffer_reader \<Rightarrow> size_t \<Rightarrow> size_t \<Rightarrow> exn + memory \<times> buffer_reader" where
  "reader_read m r data sz =
     (if sz > br_remaining r then Inl (reader_raise r sz)
      else let (m', src) = copy_loop (unat sz) m data (br_ptr r)
           in Inr (m', r\<lparr>br_ptr := src, br_remaining := br_remaining r - sz\<rparr>))"

definition reader_skip :: "buffer_reader \<Rightarrow> size_t \<Rightarrow> exn + buffer_reader" where
  "reader_skip r sz =
     (if sz > br_remaining r then Inl (reader_raise r sz)
      else Inr (r\<lparr>br_ptr := br_ptr r + sz, br_remaining := br_remaining r - sz\<rparr>))"

text \<open>The writer: its constructor clears the vector it wraps, \<open>writer_write\<close> appends.\<close>

definition buffer_writer_ctor :: "bytes \<Rightarrow> bytes" where
  "buffer_writer_ctor buffer = []"

definition writer_write :: "memory \<Rightarrow> bytes \<Rightarrow> size_t \<Rightarrow> size_t \<Rightarrow> bytes" where
  "writer_write m buffer data sz =
     (if sz = 1 then buffer @ [m data] else buffer @ bytes_at m data (unat sz))"

section \<open>The promise\<close>

definition reader_bytes :: "memory \<Rightarrow> buffer_reader \<Rightarrow> bytes" where
  "reader_bytes m r = bytes_at m (br_ptr r) (unat (br_remaining r))"

definition read_spec :: "nat \<Rightarrow> bytes \<Rightarrow> exn + bytes \<times> bytes" where
  "read_spec n bs =
     (if n > length bs then Inl (Insufficient_buffer_error (word_of_nat n) (word_of_nat (length bs)))
      else Inr (take n bs, drop n bs))"

definition skip_spec :: "nat \<Rightarrow> bytes \<Rightarrow> exn + bytes" where
  "skip_spec n bs = bind_result (read_spec n bs) (\<lambda>(_, rest). Inr rest)"

text \<open>The destination of a read does not overlap what the reader still holds.\<close>

definition disjoint_dest :: "buffer_reader \<Rightarrow> size_t \<Rightarrow> nat \<Rightarrow> bool" where
  "disjoint_dest r data n \<longleftrightarrow>
     (\<forall>i < n. \<forall>j < unat (br_remaining r). data + word_of_nat i \<noteq> br_ptr r + word_of_nat j)"

text \<open>A destination that lies behind the reader's bytes is disjoint.\<close>

lemma disjoint_dest_behind:
  assumes "unat (br_ptr r) + unat (br_remaining r) \<le> unat data" and "unat data + n \<le> 2 ^ 64"
  shows "disjoint_dest r data n"
proof -
  have off: "unat (p + word_of_nat i) = unat p + i" if "unat p + i < 2 ^ 64" for p :: size_t and i
    using that by (simp add: unat_word_ariths unat_of_nat)
  have "data + word_of_nat i \<noteq> br_ptr r + word_of_nat j"
    if i: "i < n" and j: "j < unat (br_remaining r)" for i j
  proof
    assume eq: "data + word_of_nat i = br_ptr r + word_of_nat j"
    have "unat data < 2 ^ 64" using unsigned_less [of data] by simp
    then have "unat (br_ptr r + word_of_nat j) = unat (br_ptr r) + j"
      using j assms(1) by (intro off) simp
    moreover have "unat (data + word_of_nat i) = unat data + i"
      using i assms(2) by (intro off) simp
    ultimately show False using eq j assms(1) by simp
  qed
  then show ?thesis by (simp add: disjoint_dest_def)
qed

lemma length_reader_bytes [simp]: "length (reader_bytes m r) = unat (br_remaining r)"
  by (simp add: reader_bytes_def)

lemma copy_loop_src: "snd (copy_loop n m dest src) = src + word_of_nat n"
  by (induction n arbitrary: m dest src) simp_all

text \<open>
  What the loop leaves in memory: the source bytes at the destination, everything else as it
  was, provided that no destination byte is a source byte still to be read.
\<close>

lemma copy_loop_mem:
  assumes "n < 2 ^ 64"
    and "\<forall>i < n. \<forall>j < n. dest + word_of_nat i \<noteq> src + word_of_nat j"
  shows "fst (copy_loop n m dest src) a =
    (if \<exists>i < n. a = dest + word_of_nat i
     then m (src + (a - dest)) else m a)"
  using assms
proof (induction n arbitrary: m dest src)
  case (Suc n)
  let ?m = "m(dest := m src)"
  have shift: "x + 1 + word_of_nat i = x + word_of_nat (Suc i)" for x :: size_t and i
    by simp
  have sep: "\<forall>i < n. \<forall>j < n. dest + 1 + word_of_nat i \<noteq> src + 1 + word_of_nat j"
    unfolding shift using Suc.prems(2) by blast
  have ex: "(\<exists>i < Suc n. a = dest + word_of_nat i) \<longleftrightarrow>
      a = dest \<or> (\<exists>i < n. a = dest + 1 + word_of_nat i)"
    unfolding shift Ex_less_Suc2 by simp
  have dest: "\<not> (\<exists>i < n. dest = dest + 1 + word_of_nat i)"
  proof
    assume "\<exists>i < n. dest = dest + 1 + word_of_nat i"
    then obtain i where i: "i < n" "dest + word_of_nat 0 = dest + word_of_nat (Suc i)"
      unfolding shift by auto
    have "(0::nat) = Suc i"
      by (rule word_add_of_nat_inj [THEN iffD1, OF _ _ i(2)]) (use i(1) Suc.prems(1) in simp_all)
    then show False by simp
  qed
  have src: "m' (src + 1 + (a - (dest + 1))) = m' (src + (a - dest))" for m' :: memory
    by (simp add: algebra_simps)
  have other: "src + (a - dest) \<noteq> dest" if "\<exists>i < n. a = dest + 1 + word_of_nat i"
  proof -
    from that obtain i where i: "i < n" "a = dest + word_of_nat (Suc i)" unfolding shift by blast
    then have "src + (a - dest) = src + word_of_nat (Suc i)" by simp
    moreover have "dest + word_of_nat 0 \<noteq> src + word_of_nat (Suc i)"
      using Suc.prems(2) i(1) by blast
    ultimately show ?thesis by simp
  qed
  have "fst (copy_loop (Suc n) m dest src) a = fst (copy_loop n ?m (dest + 1) (src + 1)) a"
    by simp
  also have "\<dots> = (if \<exists>i < n. a = dest + 1 + word_of_nat i
      then ?m (src + 1 + (a - (dest + 1))) else ?m a)"
    using Suc.prems(1) sep by (intro Suc.IH) simp_all
  also have "\<dots> = (if \<exists>i < Suc n. a = dest + word_of_nat i then m (src + (a - dest)) else m a)"
    unfolding ex src using dest other by auto
  finally show ?case .
qed simp

lemma unat_size_less: "unat (sz :: size_t) < 2 ^ 64"
  using unsigned_less [of sz] by simp

lemma copy_loop_disjoint:
  assumes "sz \<le> br_remaining r" and "disjoint_dest r data (unat sz)"
  shows "fst (copy_loop (unat sz) m data (br_ptr r)) a =
    (if \<exists>i < unat sz. a = data + word_of_nat i then m (br_ptr r + (a - data)) else m a)"
proof (rule copy_loop_mem [OF unat_size_less])
  have "unat sz \<le> unat (br_remaining r)" using assms(1) by (simp add: word_le_nat_alt)
  then show "\<forall>i < unat sz. \<forall>j < unat sz. data + word_of_nat i \<noteq> br_ptr r + word_of_nat j"
    using assms(2) by (auto simp: disjoint_dest_def)
qed

lemma reader_read_Inr:
  assumes le: "sz \<le> br_remaining r" and disj: "disjoint_dest r data (unat sz)"
  obtains m' r' where "reader_read m r data sz = Inr (m', r')"
    and "bytes_at m' data (unat sz) = take (unat sz) (reader_bytes m r)"
    and "reader_bytes m' r' = drop (unat sz) (reader_bytes m r)"
    and "\<And>a. \<not> (\<exists>i < unat sz. a = data + word_of_nat i) \<Longrightarrow> m' a = m a"
proof -
  let ?n = "unat sz"
  let ?k = "unat (br_remaining r)"
  let ?m' = "fst (copy_loop ?n m data (br_ptr r))"
  let ?r' = "r\<lparr>br_ptr := br_ptr r + sz, br_remaining := br_remaining r - sz\<rparr>"
  note mem = copy_loop_disjoint [OF le disj]
  have nk: "?n \<le> ?k" using le by (simp add: word_le_nat_alt)
  have "reader_read m r data sz = Inr (?m', ?r')"
    using le copy_loop_src [of ?n m data "br_ptr r"]
    by (simp add: reader_read_def split_beta not_less Let_def)
  moreover have "bytes_at ?m' data ?n = take ?n (reader_bytes m r)"
    unfolding reader_bytes_def take_bytes_at [OF nk]
    by (rule bytes_at_cong) (auto simp: mem)
  moreover have "reader_bytes ?m' ?r' = drop ?n (reader_bytes m r)"
  proof -
    have "reader_bytes ?m' ?r' = bytes_at ?m' (br_ptr r + word_of_nat ?n) (?k - ?n)"
      by (simp add: reader_bytes_def unat_sub le)
    also have "\<dots> = bytes_at m (br_ptr r + word_of_nat ?n) (?k - ?n)"
    proof (rule bytes_at_cong)
      fix i assume "i < ?k - ?n"
      then have "?n + i < ?k" by simp
      then have "\<not> (\<exists>j < ?n. br_ptr r + word_of_nat (?n + i) = data + word_of_nat j)"
        using disj unfolding disjoint_dest_def by metis
      then have no: "\<not> (\<exists>j < ?n. br_ptr r + word_of_nat ?n + word_of_nat i = data + word_of_nat j)"
        by (simp only: of_nat_add add.assoc not_False_eq_True)
      show "?m' (br_ptr r + word_of_nat ?n + word_of_nat i)
          = m (br_ptr r + word_of_nat ?n + word_of_nat i)"
        by (simp only: mem no if_False)
    qed
    also have "\<dots> = drop ?n (reader_bytes m r)"
      unfolding reader_bytes_def by (rule drop_bytes_at [OF nk, symmetric])
    finally show ?thesis .
  qed
  ultimately show thesis
    by (rule that) (simp only: mem if_False)
qed

lemma reader_read_Inl:
  "sz > br_remaining r \<Longrightarrow>
   reader_read m r data sz = Inl (Insufficient_buffer_error sz (br_remaining r))"
  by (simp add: reader_read_def reader_raise_def)

lemma writer_write_append: "writer_write m buffer data sz = buffer @ bytes_at m data (unat sz)"
  by (simp add: writer_write_def bytes_at_def)

lemma reader_skip_spec:
  "map_sum id (reader_bytes m) (reader_skip r sz) = skip_spec (unat sz) (reader_bytes m r)"
proof (cases "sz > br_remaining r")
  case True
  then show ?thesis
    by (simp add: reader_skip_def reader_raise_def skip_spec_def read_spec_def word_less_nat_alt)
next
  case False
  then have le: "sz \<le> br_remaining r" by simp
  then show ?thesis
    by (simp add: reader_skip_def skip_spec_def read_spec_def reader_bytes_def word_le_nat_alt
        not_less drop_bytes_at unat_sub)
qed

section \<open>Skipping and writing\<close>

text \<open>
  Skipping is reading without the bytes, and it fails in the same cases.
\<close>

lemma buffer_skip_refines_read:
  "map_sum id (reader_bytes m) (reader_skip r sz) =
     bind_result (read_spec (unat sz) (reader_bytes m r)) (\<lambda>(_, rest). Inr rest)"
  using reader_skip_spec [of m r sz] by (simp add: skip_spec_def)

text \<open>
  What is written to a buffer is read from it: after any number of writes the buffer holds the
  bytes written, in order, and a reader of a range over its storage reads the first of them and
  is left with the others.
\<close>

lemma written_bytes_are_read:
  assumes "bytes_at m p (unat n) = fold (\<lambda>(d, k) b. writer_write w b d k) ((data0, k0) # writes) (buffer_writer_ctor old)"
    and "k0 \<le> n" and "disjoint_dest \<lparr>br_ptr = p, br_remaining = n\<rparr> dest (unat k0)"
  shows "\<exists>m' r'. reader_read m (buffer_reader_ctor (range_ctor p n)) dest k0 = Inr (m', r') \<and>
    bytes_at m' dest (unat k0) = bytes_at w data0 (unat k0) \<and>
    reader_bytes m' r' = concat (map (\<lambda>(d, k). bytes_at w d (unat k)) writes)"
proof -
  have "fold (\<lambda>(d, k) b. writer_write w b d k) ws b = b @ concat (map (\<lambda>(d, k). bytes_at w d (unat k)) ws)"
    for ws b
    by (induction ws arbitrary: b) (auto simp: writer_write_append)
  with assms(1) have held: "bytes_at m p (unat n) =
      bytes_at w data0 (unat k0) @ concat (map (\<lambda>(d, k). bytes_at w d (unat k)) writes)"
    by (simp add: writer_write_append buffer_writer_ctor_def)
  have reader: "buffer_reader_ctor (range_ctor p n) = \<lparr>br_ptr = p, br_remaining = n\<rparr>"
    by (simp add: buffer_reader_ctor_def range_ctor_def range_begin_def)
  have "k0 \<le> br_remaining \<lparr>br_ptr = p, br_remaining = n\<rparr>" using assms(2) by simp
  then obtain m' r' where "reader_read m \<lparr>br_ptr = p, br_remaining = n\<rparr> dest k0 = Inr (m', r')"
      "bytes_at m' dest (unat k0) = take (unat k0) (bytes_at m p (unat n))"
      "reader_bytes m' r' = drop (unat k0) (bytes_at m p (unat n))"
    by (rule reader_read_Inr [OF _ assms(3), of m]) (simp add: reader_bytes_def)
  then show ?thesis unfolding reader held by (intro exI [of _ m'] exI [of _ r']) simp
qed

end
