(* ===== verification/Framing.thy ===== *)
theory Framing
  imports Byte_Representation Exceptions
begin

text \<open>
  Messages on a byte stream: the channel interface of \<^verbatim>\<open>coipc/endpoint.h\<close>, the receiving loop
  \<^verbatim>\<open>read_messages\<close> of \<^verbatim>\<open>src/helpers.h\<close> and the \<^verbatim>\<open>message\<close> methods of the five transports that
  send to such a loop. The streams are C \<^verbatim>\<open>FILE\<close>s, modelled here, and sockets, whose \<^verbatim>\<open>send\<close> and
  \<^verbatim>\<open>recv\<close> are parameters; what the code relies on of either is the locales \<open>byte_sink\<close> and
  \<open>byte_source\<close>, and what a receiver relies on of a sender is \<open>message_sender\<close>.
\<close>

section \<open>Channels\<close>

text \<open>
  A channel is an object with two methods; \<open>'c\<close> is the state of the object behind it.
  \<^verbatim>\<open>disconnect\<close> does not throw, \<^verbatim>\<open>message\<close> may.
\<close>

record 'c channel =
  ch_disconnect :: "'c \<Rightarrow> 'c"
  ch_message :: "'c \<Rightarrow> bytes \<Rightarrow> exn + 'c"

text \<open>Messages handed over one by one until one of them throws.\<close>

fun deliver_all :: "'c channel \<Rightarrow> 'c \<Rightarrow> bytes list \<Rightarrow> exn option \<times> 'c" where
  "deliver_all ch c [] = (None, c)"
| "deliver_all ch c (m # ms) =
     (case ch_message ch c m of Inl x \<Rightarrow> (Some x, c) | Inr c' \<Rightarrow> deliver_all ch c' ms)"

text \<open>How a delivery of messages ends, with the disconnection that follows it if nothing was thrown.\<close>

fun then_disconnect :: "'c channel \<Rightarrow> exn option \<times> 'c \<Rightarrow> exn option \<times> 'c" where
  "then_disconnect ch (None, c) = (None, ch_disconnect ch c)"
| "then_disconnect ch (Some x, c) = (Some x, c)"

text \<open>The channel that records what it is told, as the mocks of the tests do.\<close>

datatype channel_event = Message bytes | Disconnect

definition recorder :: "channel_event list channel" where
  "recorder = \<lparr>ch_disconnect = (\<lambda>c. c @ [Disconnect]), ch_message = (\<lambda>c m. Inr (c @ [Message m]))\<rparr>"

lemma recorder_simps [simp]:
  "ch_message recorder c m = Inr (c @ [Message m])"
  "ch_disconnect recorder c = c @ [Disconnect]"
  by (simp_all add: recorder_def)

section \<open>Streams\<close>

text \<open>An output \<^verbatim>\<open>FILE\<close>: what \<^verbatim>\<open>fwrite\<close> buffers, \<^verbatim>\<open>fflush\<close> hands to the operating system.\<close>

record out_file =
  of_buffered :: bytes
  of_flushed :: bytes

definition fwrite :: "out_file \<Rightarrow> bytes \<Rightarrow> out_file" where
  "fwrite f bs = f\<lparr>of_buffered := of_buffered f @ bs\<rparr>"

definition fflush :: "out_file \<Rightarrow> out_file" where
  "fflush f = f\<lparr>of_buffered := [], of_flushed := of_flushed f @ of_buffered f\<rparr>"

definition file_sent :: "out_file \<Rightarrow> bytes" where
  "file_sent f = of_flushed f @ of_buffered f"

text \<open>
  An input \<^verbatim>\<open>FILE\<close> is the bytes that come before its end; \<^verbatim>\<open>fread\<close> waits for all it was asked
  for, and returns less only at the end of the stream.
\<close>

definition fread :: "bytes \<Rightarrow> nat \<Rightarrow> exn + bytes \<times> bytes" where
  "fread f n = Inr (take n f, drop n f)"

section \<open>The receiving loop\<close>

text \<open>\<^verbatim>\<open>vector::resize\<close> keeps what fits and appends zeros; a read overwrites the front.\<close>

definition resize :: "bytes \<Rightarrow> nat \<Rightarrow> bytes" where
  "resize buffer n = take n buffer @ replicate (n - length buffer) 0"

definition overwrite :: "bytes \<Rightarrow> bytes \<Rightarrow> bytes" where
  "overwrite buffer data = data @ drop (length data) buffer"

definition header_value :: "endian \<Rightarrow> bool \<Rightarrow> bytes \<Rightarrow> nat" where
  "header_value e swap hdr = load_value e (if swap then reorder e hdr else hdr)"

text \<open>
  The loop of \<^verbatim>\<open>read_messages\<close>: its state is that of the stream, that of the channel and the
  buffer. It ends when a read of the size does not return 4 bytes, or with an exception of the
  stream or of the channel; \<open>None\<close> is a loop that does not end. The count returned by the read
  of the payload is not looked at.
\<close>

partial_function (option) read_messages_loop ::
  "endian \<Rightarrow> bool \<Rightarrow> ('s \<Rightarrow> nat \<Rightarrow> exn + bytes \<times> 's) \<Rightarrow> 'c channel \<Rightarrow>
   's \<Rightarrow> 'c \<Rightarrow> bytes \<Rightarrow> (exn option \<times> 's \<times> 'c) option" where
  "read_messages_loop e swap read_function inbound s c buffer =
     (case read_function s 4 of
        Inl x \<Rightarrow> Some (Some x, s, c)
      | Inr (hdr, s1) \<Rightarrow>
          if length hdr \<noteq> 4 then Some (None, s1, c)
          else (case read_function s1 (header_value e swap hdr) of
              Inl x \<Rightarrow> Some (Some x, s1, c)
            | Inr (data, s2) \<Rightarrow>
                (case ch_message inbound c
                        (overwrite (resize buffer (header_value e swap hdr)) data) of
                   Inl x \<Rightarrow> Some (Some x, s2, c)
                 | Inr c1 \<Rightarrow> read_messages_loop e swap read_function inbound s2 c1
                     (overwrite (resize buffer (header_value e swap hdr)) data))))"

definition read_messages ::
  "endian \<Rightarrow> bool \<Rightarrow> ('s \<Rightarrow> nat \<Rightarrow> exn + bytes \<times> 's) \<Rightarrow> 'c channel \<Rightarrow>
   's \<Rightarrow> 'c \<Rightarrow> (exn option \<times> 's \<times> 'c) option" where
  "read_messages e swap read_function inbound s c =
     read_messages_loop e swap read_function inbound s c []"

section \<open>The sending sides\<close>

text \<open>\<^verbatim>\<open>static_cast<unsigned int>\<close>\<close>

definition cast_uint :: "nat \<Rightarrow> nat" where
  "cast_uint n = n mod 2 ^ 32"

text \<open>The pipe of a spawned server, and that of the client which spawned it.\<close>

definition pipe_channel_message :: "endian \<Rightarrow> out_file \<Rightarrow> bytes \<Rightarrow> out_file" where
  "pipe_channel_message e f payload =
     fflush (fwrite (fwrite f (store_value e 4 (cast_uint (length payload)))) payload)"

definition spawn_client_message :: "endian \<Rightarrow> out_file \<Rightarrow> bytes \<Rightarrow> out_file" where
  "spawn_client_message e f payload =
     fflush (fwrite (fwrite f (store_value e 4 (cast_uint (length payload)))) payload)"

text \<open>The stream endpoint writes \<^verbatim>\<open>length\<close> bytes, the number it has put into the header.\<close>

definition stream_message :: "endian \<Rightarrow> out_file \<Rightarrow> bytes \<Rightarrow> out_file" where
  "stream_message e f payload =
     fflush (fwrite (fwrite f (store_value e 4 (cast_uint (length payload))))
       (take (cast_uint (length payload)) payload))"

text \<open>\<^verbatim>\<open>send_scalar\<close> for a \<^verbatim>\<open>T\<close> of \<open>n\<close> bytes, and the two ends of a socket connection.\<close>

definition send_scalar ::
    "endian \<Rightarrow> ('w \<Rightarrow> bytes \<Rightarrow> int \<times> 'w) \<Rightarrow> 'w \<Rightarrow> nat \<Rightarrow> nat \<Rightarrow> int \<times> 'w" where
  "send_scalar e send w n v = send w (reorder e (store_value e n v))"

definition socket_handler_message ::
    "endian \<Rightarrow> ('w \<Rightarrow> bytes \<Rightarrow> int \<times> 'w) \<Rightarrow> 'w \<Rightarrow> bytes \<Rightarrow> 'w" where
  "socket_handler_message e send w payload =
     (let sz = cast_uint (length payload);
          w1 = snd (send_scalar e send w 4 sz)
      in snd (send w1 (take sz payload)))"

definition socket_client_message ::
    "endian \<Rightarrow> ('w \<Rightarrow> bytes \<Rightarrow> int \<times> 'w) \<Rightarrow> 'w \<Rightarrow> bytes \<Rightarrow> 'w" where
  "socket_client_message e send w payload =
     (let sz = cast_uint (length payload);
          w1 = snd (send w (reorder e (store_value e 4 sz)))
      in snd (send w1 (take sz payload)))"

section \<open>The format\<close>

definition frame_header :: "endian \<Rightarrow> bool \<Rightarrow> nat \<Rightarrow> bytes" where
  "frame_header e swap n = (if swap then network_bytes 4 n else store_value e 4 n)"

definition frame :: "endian \<Rightarrow> bool \<Rightarrow> bytes \<Rightarrow> bytes" where
  "frame e swap m = frame_header e swap (length m) @ m"

text \<open>The messages a receiver takes from a byte string, given what its buffer holds.\<close>

function split_frames :: "(bytes \<Rightarrow> nat) \<Rightarrow> bytes \<Rightarrow> bytes \<Rightarrow> bytes list" where
  "split_frames hv buffer bs =
     (if length bs < 4 then []
      else overwrite (resize buffer (hv (take 4 bs))) (take (hv (take 4 bs)) (drop 4 bs))
           # split_frames hv
               (overwrite (resize buffer (hv (take 4 bs))) (take (hv (take 4 bs)) (drop 4 bs)))
               (drop (hv (take 4 bs)) (drop 4 bs)))"
  by pat_completeness auto
termination
  by (relation "measure (\<lambda>(_, _, bs). length bs)") auto

declare split_frames.simps [simp del]

lemma length_resize [simp]: "length (resize buffer n) = n"
  by (simp add: resize_def)

lemma overwrite_whole [simp]: "length data = length buffer \<Longrightarrow> overwrite buffer data = data"
  by (simp add: overwrite_def)

lemma length_overwrite [simp]:
  "length data \<le> length buffer \<Longrightarrow> length (overwrite buffer data) = length buffer"
  by (simp add: overwrite_def)

lemma length_frame_header [simp]: "length (frame_header e swap n) = 4"
  by (simp add: frame_header_def)

lemma header_value_frame_header:
  "n < 2 ^ 32 \<Longrightarrow> header_value e swap (frame_header e swap n) = n"
  by (simp add: header_value_def frame_header_def wire)

lemma frame_header_swap: "frame_header e True n = frame_header e' True n"
  by (simp add: frame_header_def)

lemma split_frames_short: "length bs < 4 \<Longrightarrow> split_frames hv buffer bs = []"
  by (simp add: split_frames.simps)

lemma split_frames_header:
  assumes "length hdr = 4"
  shows "split_frames hv buffer (hdr @ bs) =
    (let m = overwrite (resize buffer (hv hdr)) (take (hv hdr) bs)
     in m # split_frames hv m (drop (hv hdr) bs))"
  using assms by (simp add: split_frames.simps [of hv buffer "hdr @ bs"] Let_def)

lemma split_frames_frame:
  assumes "length m < 2 ^ 32"
  shows "split_frames (header_value e swap) buffer (frame e swap m @ bs)
    = m # split_frames (header_value e swap) m bs"
proof -
  have "split_frames (header_value e swap) buffer (frame_header e swap (length m) @ m @ bs)
    = m # split_frames (header_value e swap) m bs"
    using assms by (subst split_frames_header) (simp_all add: header_value_frame_header)
  then show ?thesis by (simp add: frame_def)
qed

text \<open>A receiver takes from a sequence of frames the messages framed, and goes on after them.\<close>

lemma split_frames_frames:
  "\<forall>m \<in> set ms. length m < 2 ^ 32 \<Longrightarrow>
   split_frames (header_value e swap) buffer (concat (map (frame e swap) ms) @ bs)
     = ms @ split_frames (header_value e swap) (last (buffer # ms)) bs"
  by (induction ms arbitrary: buffer) (simp_all add: split_frames_frame)

lemma deliver_all_recorder: "deliver_all recorder c ms = (None, c @ map Message ms)"
  by (induction ms arbitrary: c) simp_all

lemma deliver_all_append:
  "deliver_all ch c (ms @ ns) =
    (case deliver_all ch c ms of (Some x, c') \<Rightarrow> (Some x, c') | (None, c') \<Rightarrow> deliver_all ch c' ns)"
  by (induction ms arbitrary: c) (auto split: sum.splits)

section \<open>What the loop relies on, and what it does\<close>

text \<open>
  A source of bytes: a read returns what it was asked for, or all there is before the end. This
  is what \<^verbatim>\<open>fread\<close> promises, and \<^verbatim>\<open>recv\<close> with \<^verbatim>\<open>MSG_WAITALL\<close> on a connection that is shut down in
  an orderly way.
\<close>

locale byte_source =
  fixes get :: "'s \<Rightarrow> nat \<Rightarrow> exn + bytes \<times> 's"
    and avail :: "'s \<Rightarrow> bytes"
  assumes get_returns: "\<exists>s'. get s n = Inr (take n (avail s), s') \<and> avail s' = drop n (avail s)"
begin

lemma loop_end:
  assumes "length (avail s) < 4"
  shows "\<exists>s'. read_messages_loop e swap get ch s c buffer = Some (None, s', c) \<and> avail s' = []"
proof -
  obtain s' where "get s 4 = Inr (take 4 (avail s), s')" and "avail s' = drop 4 (avail s)"
    using get_returns by blast
  with assms show ?thesis by (subst read_messages_loop.simps) simp
qed

lemma loop_turn:
  fixes s e swap buffer
  defines "n \<equiv> header_value e swap (take 4 (avail s))"
  defines "m \<equiv> overwrite (resize buffer n) (take n (drop 4 (avail s)))"
  assumes "\<not> length (avail s) < 4"
  shows "\<exists>s'. avail s' = drop n (drop 4 (avail s)) \<and>
    read_messages_loop e swap get ch s c buffer =
      (case ch_message ch c m of
         Inl x \<Rightarrow> Some (Some x, s', c)
       | Inr c' \<Rightarrow> read_messages_loop e swap get ch s' c' m)"
proof -
  obtain s1 where s1: "get s 4 = Inr (take 4 (avail s), s1)" "avail s1 = drop 4 (avail s)"
    using get_returns by blast
  obtain s2 where s2: "get s1 n = Inr (take n (avail s1), s2)" "avail s2 = drop n (avail s1)"
    using get_returns by blast
  have len: "length (take 4 (avail s)) = 4" using assms(3) by simp
  have "read_messages_loop e swap get ch s c buffer =
      (case ch_message ch c m of
         Inl x \<Rightarrow> Some (Some x, s2, c)
       | Inr c' \<Rightarrow> read_messages_loop e swap get ch s2 c' m)"
    unfolding m_def n_def
    by (subst read_messages_loop.simps) (use s1 s2 len in \<open>simp add: n_def\<close>)
  with s1 s2 show ?thesis by auto
qed

text \<open>The loop ends on every stream, having delivered what \<open>split_frames\<close> takes from it.\<close>

lemma loop_delivers:
  "\<exists>s'. read_messages_loop e swap get ch s c buffer =
     (case deliver_all ch c (split_frames (header_value e swap) buffer (avail s)) of
        (x, c') \<Rightarrow> Some (x, s', c'))"
proof (induction "length (avail s)" arbitrary: s c buffer rule: less_induct)
  case less
  show ?case
  proof (cases "length (avail s) < 4")
    case True
    with loop_end [of s e swap ch c buffer] show ?thesis
      by (auto simp: split_frames_short)
  next
    case False
    define n where "n = header_value e swap (take 4 (avail s))"
    define m where "m = overwrite (resize buffer n) (take n (drop 4 (avail s)))"
    from loop_turn [OF False, where e = e and swap = swap and buffer = buffer and ch = ch and c = c]
    obtain s' where
      s': "avail s' = drop n (drop 4 (avail s))" and
      turn: "read_messages_loop e swap get ch s c buffer =
        (case ch_message ch c m of
           Inl x \<Rightarrow> Some (Some x, s', c)
         | Inr c' \<Rightarrow> read_messages_loop e swap get ch s' c' m)"
      unfolding m_def n_def by blast
    have split: "split_frames (header_value e swap) buffer (avail s)
        = m # split_frames (header_value e swap) m (avail s')"
      using False by (subst split_frames.simps) (simp add: m_def n_def s')
    have "length (avail s') < length (avail s)" using False by (simp add: s')
    then have "\<exists>s''. read_messages_loop e swap get ch s' c' m =
        (case deliver_all ch c' (split_frames (header_value e swap) m (avail s')) of
           (x, c'') \<Rightarrow> Some (x, s'', c''))" for c'
      by (rule less)
    then show ?thesis
      unfolding turn split by (cases "ch_message ch c m") (simp_all add: split_beta)
  qed
qed

lemma read_messages_delivers:
  "\<exists>s'. read_messages e swap get ch s c =
     (case deliver_all ch c (split_frames (header_value e swap) [] (avail s)) of
        (x, c') \<Rightarrow> Some (x, s', c'))"
  unfolding read_messages_def by (rule loop_delivers)

lemma read_messages_frames:
  assumes "avail s = concat (map (frame e swap) ms) @ tail"
    and "length tail < 4" and "\<forall>m \<in> set ms. length m < 2 ^ 32"
  shows "\<exists>s'. read_messages e swap get ch s c =
    (case deliver_all ch c ms of (x, c') \<Rightarrow> Some (x, s', c'))"
  using read_messages_delivers [of e swap ch s c] assms
  by (simp add: split_frames_frames split_frames_short)

text \<open>
  A stream that ends inside a payload: the loop delivers a last message of the announced
  length whose end is what the buffer held before, that is bytes of the message before it.
\<close>

lemma read_messages_truncated:
  assumes "avail s = concat (map (frame e swap) ms) @ frame_header e swap n @ part"
    and "length part < n" and "n < 2 ^ 32" and "\<forall>m \<in> set ms. length m < 2 ^ 32"
  shows "\<exists>s'. read_messages e swap get ch s c =
    (case deliver_all ch c (ms @ [overwrite (resize (last ([] # ms)) n) part]) of
       (x, c') \<Rightarrow> Some (x, s', c'))"
  using read_messages_delivers [of e swap ch s c] assms
  by (simp add: split_frames_frames split_frames_header split_frames_short Let_def
      header_value_frame_header)

end

text \<open>A sink of bytes: what is put is appended to what has been sent.\<close>

locale byte_sink =
  fixes put :: "'w \<Rightarrow> bytes \<Rightarrow> 'w"
    and sent :: "'w \<Rightarrow> bytes"
  assumes sent_put: "sent (put w bs) = sent w @ bs"
begin

lemma sent_fold: "sent (fold (\<lambda>bs w. put w bs) bss w) = sent w @ concat bss"
  by (induction bss arbitrary: w) (simp_all add: sent_put)

end

interpretation file_source: byte_source fread id
  by unfold_locales (simp add: fread_def)

interpretation file_sink: byte_sink fwrite file_sent
  by unfold_locales (simp add: fwrite_def file_sent_def)

section \<open>What the sending sides put on their streams\<close>

lemma cast_uint_small [simp]: "n < 2 ^ 32 \<Longrightarrow> cast_uint n = n"
  by (simp add: cast_uint_def)

lemma cast_uint_less: "cast_uint n < 2 ^ 32"
  by (simp add: cast_uint_def)

lemma cast_uint_le: "cast_uint n \<le> n"
  by (simp add: cast_uint_def)

lemma file_sent_fflush [simp]: "file_sent (fflush f) = file_sent f"
  by (simp add: fflush_def file_sent_def)

lemma of_buffered_fflush [simp]: "of_buffered (fflush f) = []"
  by (simp add: fflush_def)

lemma file_sent_flushed: "of_buffered f = [] \<Longrightarrow> of_flushed f = file_sent f"
  by (simp add: file_sent_def)

lemma pipe_channel_message_sent:
  "of_flushed (pipe_channel_message e f payload) =
     file_sent f @ frame_header e False (cast_uint (length payload)) @ payload"
  by (subst file_sent_flushed)
     (simp_all add: pipe_channel_message_def file_sink.sent_put frame_header_def)

lemma spawn_client_message_sent:
  "of_flushed (spawn_client_message e f payload) =
     file_sent f @ frame_header e False (cast_uint (length payload)) @ payload"
  by (subst file_sent_flushed)
     (simp_all add: spawn_client_message_def file_sink.sent_put frame_header_def)

lemma stream_message_sent:
  "of_flushed (stream_message e f payload) =
     file_sent f @ frame e False (take (cast_uint (length payload)) payload)"
  by (subst file_sent_flushed)
     (simp_all add: stream_message_def file_sink.sent_put frame_header_def frame_def cast_uint_le
       min_absorb2)

lemma socket_handler_message_sent:
  assumes "byte_sink (\<lambda>w bs. snd (send w bs)) sent"
  shows "sent (socket_handler_message e send w payload) =
    sent w @ frame e' True (take (cast_uint (length payload)) payload)"
  by (simp add: socket_handler_message_def send_scalar_def byte_sink.sent_put [OF assms]
      frame_def frame_header_def wire cast_uint_le min_absorb2 Let_def)

lemma socket_client_message_sent:
  assumes "byte_sink (\<lambda>w bs. snd (send w bs)) sent"
  shows "sent (socket_client_message e send w payload) =
    sent w @ frame e' True (take (cast_uint (length payload)) payload)"
  by (simp add: socket_client_message_def byte_sink.sent_put [OF assms]
      frame_def frame_header_def wire cast_uint_le min_absorb2 Let_def)

section \<open>Sequences of messages\<close>

lemma buffered_messages [simp]:
  "of_buffered (pipe_channel_message e f m) = []"
  "of_buffered (spawn_client_message e f m) = []"
  "of_buffered (stream_message e f m) = []"
  by (simp_all add: pipe_channel_message_def spawn_client_message_def stream_message_def)

text \<open>
  What a receiver relies on of a \<^verbatim>\<open>message\<close> method: on a stream that is settled, it leaves a settled
  stream, from which one more frame can be read. For a \<^verbatim>\<open>FILE\<close> that is to be flushed.
\<close>

locale message_sender =
  fixes message :: "'w \<Rightarrow> bytes \<Rightarrow> 'w"
    and readable :: "'w \<Rightarrow> bytes"
    and settled :: "'w \<Rightarrow> bool"
    and e :: endian
    and swap :: bool
  assumes sends_frame: "settled w \<Longrightarrow> length m < 2 ^ 32 \<Longrightarrow>
    settled (message w m) \<and> readable (message w m) = readable w @ frame e swap m"
begin

lemma sends_frames:
  assumes "settled w" and "\<forall>m \<in> set ms. length m < 2 ^ 32"
  shows "readable (fold (\<lambda>m w. message w m) ms w) = readable w @ concat (map (frame e swap) ms)"
  using assms by (induction ms arbitrary: w) (simp_all add: sends_frame)

text \<open>Whoever reads it with the same convention is told the messages.\<close>

lemma receiver_delivers:
  assumes "byte_source get avail" and "avail s = readable (fold (\<lambda>m w. message w m) ms w)"
    and "readable w = []" and "settled w" and "\<forall>m \<in> set ms. length m < 2 ^ 32"
  shows "\<exists>s'. read_messages e swap get ch s c = (case deliver_all ch c ms of (x, c') \<Rightarrow> Some (x, s', c'))"
  using byte_source.read_messages_frames [OF assms(1), of s e swap ms "[]" ch c] assms(2,3,5)
    sends_frames [OF assms(4,5)] by simp

end

interpretation pipe_out: message_sender "pipe_channel_message e" of_flushed "\<lambda>f. of_buffered f = []" e False
  for e
  by unfold_locales (simp add: pipe_channel_message_sent file_sent_def frame_def)

interpretation pipe_in: message_sender "spawn_client_message e" of_flushed "\<lambda>f. of_buffered f = []" e False
  for e
  by unfold_locales (simp add: spawn_client_message_sent file_sent_def frame_def)

interpretation stream_out: message_sender "stream_message e" of_flushed "\<lambda>f. of_buffered f = []" e False
  for e
  by unfold_locales (simp add: stream_message_sent file_sent_def)

text \<open>On a socket the byte order is that of the network, so that the reader may be any host.\<close>

lemma socket_senders:
  assumes "byte_sink (\<lambda>w bs. snd (send w bs)) sent"
  shows "message_sender (socket_handler_message e send) sent (\<lambda>_. True) e' True"
    and "message_sender (socket_client_message e send) sent (\<lambda>_. True) e' True"
  by (unfold_locales; simp add: socket_handler_message_sent [OF assms, of _ _ _ e']
      socket_client_message_sent [OF assms, of _ _ _ e'])+

text \<open>
  The senders agree: the three that write to a \<^verbatim>\<open>FILE\<close> leave the same bytes as long as the length
  fits the header, the two that write to a socket send the same at any length.
\<close>

lemma senders_same_bytes:
  "length m < 2 ^ 32 \<Longrightarrow>
     pipe_channel_message e f m = spawn_client_message e f m \<and> pipe_channel_message e f m = stream_message e f m"
  "socket_handler_message e send w m = socket_client_message e send w m"
  by (simp_all add: pipe_channel_message_def spawn_client_message_def stream_message_def
      socket_handler_message_def socket_client_message_def send_scalar_def Let_def)

end
