(* ===== verification/C_Strings.thy ===== *)
theory C_Strings
  imports Prelude
begin

text \<open>
  What the program uses of the C and C++ string library: the end of a C string, searching a
  character, \<^verbatim>\<open>printf\<close> of decimal and zero-padded hexadecimal numbers, \<^verbatim>\<open>atoi\<close>, and the
  hexadecimal conversions of \<^verbatim>\<open>sscanf\<close>.
\<close>

definition c_str :: "string \<Rightarrow> string" where
  "c_str s = takeWhile (\<lambda>c. of_char c \<noteq> (0::nat)) s"

fun find_char :: "char \<Rightarrow> string \<Rightarrow> nat option" where
  "find_char c [] = None"
| "find_char c (d # s) = (if d = c then Some 0 else map_option Suc (find_char c s))"

definition is_space :: "char \<Rightarrow> bool" where
  "is_space c \<longleftrightarrow> of_char c \<in> {9, 10, 11, 12, 13, 32 :: nat}"

section \<open>Digits and printing\<close>

definition digit_char :: "nat \<Rightarrow> char" where
  "digit_char d = char_of (if d < 10 then 48 + d else 87 + d)"

definition dec_val :: "char \<Rightarrow> nat option" where
  "dec_val c = (let k = of_char c in if 48 \<le> k \<and> k \<le> 57 then Some (k - 48) else None)"

definition hex_val :: "char \<Rightarrow> nat option" where
  "hex_val c = (let k = of_char c in
     if 48 \<le> k \<and> k \<le> 57 then Some (k - 48)
     else if 97 \<le> k \<and> k \<le> 102 then Some (k - 87)
     else if 65 \<le> k \<and> k \<le> 70 then Some (k - 55)
     else None)"

text \<open>\<^verbatim>\<open>%d\<close> of a value that is not negative, \<^verbatim>\<open>%x\<close>, and \<^verbatim>\<open>%0wx\<close>.\<close>

fun print_dec :: "nat \<Rightarrow> string" where
  "print_dec n = (if n < 10 then [digit_char n] else print_dec (n div 10) @ [digit_char (n mod 10)])"

fun print_hex :: "nat \<Rightarrow> string" where
  "print_hex n = (if n < 16 then [digit_char n] else print_hex (n div 16) @ [digit_char (n mod 16)])"

declare print_dec.simps [simp del] print_hex.simps [simp del]

definition print_hex_pad :: "nat \<Rightarrow> nat \<Rightarrow> string" where
  "print_hex_pad w n = replicate (w - length (print_hex n)) (digit_char 0) @ print_hex n"

text \<open>\<^verbatim>\<open>snprintf\<close> stores at most \<open>n - 1\<close> characters and the terminating zero.\<close>

definition snprintf :: "nat \<Rightarrow> string \<Rightarrow> string" where
  "snprintf n s = take (n - 1) s"

section \<open>Reading numbers\<close>

fun dec_digits :: "int \<Rightarrow> string \<Rightarrow> int" where
  "dec_digits acc [] = acc"
| "dec_digits acc (c # s) =
     (case dec_val c of Some d \<Rightarrow> dec_digits (10 * acc + int d) s | None \<Rightarrow> acc)"

text \<open>
  \<^verbatim>\<open>atoi\<close>: white space, a sign, digits up to the first other character; no digits give 0. The
  value is not bounded here; the C function is undefined where it does not fit an \<^verbatim>\<open>int\<close>.
\<close>

definition atoi :: "string \<Rightarrow> int" where
  "atoi s = (case dropWhile is_space s of
       [] \<Rightarrow> 0
     | c # r \<Rightarrow> if c = CHR ''-'' then - dec_digits 0 r
               else if c = CHR ''+'' then dec_digits 0 r
               else dec_digits 0 (c # r))"

text \<open>At most \<open>w\<close> hexadecimal digits.\<close>

fun hex_digits :: "nat \<Rightarrow> nat \<Rightarrow> string \<Rightarrow> nat \<times> string" where
  "hex_digits 0 acc s = (acc, s)"
| "hex_digits (Suc w) acc [] = (acc, [])"
| "hex_digits (Suc w) acc (c # s) =
     (case hex_val c of Some d \<Rightarrow> hex_digits w (16 * acc + d) s | None \<Rightarrow> (acc, c # s))"

text \<open>
  The \<^verbatim>\<open>%wX\<close> conversion of \<^verbatim>\<open>sscanf\<close>: white space is skipped; within the width come an optional
  sign, an optional \<^verbatim>\<open>0x\<close> and at least one digit. \<open>None\<close> is a matching failure.
\<close>

definition scan_sign :: "nat \<Rightarrow> string \<Rightarrow> bool \<times> nat \<times> string" where
  "scan_sign w s = (case s of
       [] \<Rightarrow> (False, w, s)
     | c # r \<Rightarrow> if 0 < w \<and> c = CHR ''-'' then (True, w - 1, r)
               else if 0 < w \<and> c = CHR ''+'' then (False, w - 1, r)
               else (False, w, s))"

definition scan_prefix :: "nat \<Rightarrow> string \<Rightarrow> nat \<times> string" where
  "scan_prefix w s =
     (if 2 \<le> w \<and> (take 2 s = ''0x'' \<or> take 2 s = ''0X'') then (w - 2, drop 2 s) else (w, s))"

definition scan_hex :: "nat \<Rightarrow> string \<Rightarrow> (int \<times> string) option" where
  "scan_hex w s =
     (let (neg, w1, s1) = scan_sign w (dropWhile is_space s);
          (w2, s2) = scan_prefix w1 s1
      in case s2 of
           [] \<Rightarrow> None
         | c # _ \<Rightarrow>
             if 0 < w2 \<and> hex_val c \<noteq> None
             then (let (v, r) = hex_digits w2 0 s2 in Some (if neg then - int v else int v, r))
             else None)"

section \<open>Facts\<close>

lemma find_char_append: "c \<notin> set xs \<Longrightarrow> find_char c (xs @ c # ys) = Some (length xs)"
  by (induction xs) auto

lemma find_char_None: "find_char c s = None \<longleftrightarrow> c \<notin> set s"
  by (induction s) auto

lemma find_char_Some:
  "find_char c s = Some i \<Longrightarrow> s = take i s @ c # drop (Suc i) s \<and> c \<notin> set (take i s)"
  by (induction s arbitrary: i) (auto split: if_splits)

lemma dec_val_digit_char [simp]: "d < 10 \<Longrightarrow> dec_val (digit_char d) = Some d"
  by (simp add: dec_val_def digit_char_def)

lemma hex_val_digit_char [simp]: "d < 16 \<Longrightarrow> hex_val (digit_char d) = Some d"
  by (simp add: hex_val_def digit_char_def)

lemma dec_val_hex_val: "dec_val c = Some d \<Longrightarrow> hex_val c = Some d"
  by (auto simp: dec_val_def hex_val_def Let_def split: if_splits)

lemma hex_val_not_special:
  assumes "hex_val c = Some d"
  shows "\<not> is_space c" "c \<noteq> CHR ''-''" "c \<noteq> CHR ''+''" "c \<noteq> CHR ''x''" "c \<noteq> CHR ''X''"
    "c \<noteq> CHR '':''" "c \<noteq> CHR ''|''" "c \<noteq> CHR ''.''" "of_char c \<noteq> (0 :: nat)"
  using assms by (auto simp: hex_val_def is_space_def Let_def split: if_splits)

subsection \<open>Decimal\<close>

lemma print_dec_nonempty [simp]: "print_dec n \<noteq> []"
  by (subst print_dec.simps) simp

lemma print_dec_digits: "c \<in> set (print_dec n) \<Longrightarrow> \<exists>d. dec_val c = Some d"
proof (induction n rule: print_dec.induct)
  case (1 n)
  show ?case
  proof (cases "n < 10")
    case False
    with "1.prems" have "c \<in> set (print_dec (n div 10)) \<or> c = digit_char (n mod 10)"
      by (subst (asm) print_dec.simps) auto
    with "1.IH" [OF False] show ?thesis by auto
  qed (use "1.prems" in \<open>subst (asm) print_dec.simps, simp\<close>)
qed

lemma print_dec_hex: "c \<in> set (print_dec n) \<Longrightarrow> \<exists>d. hex_val c = Some d"
  using print_dec_digits dec_val_hex_val by blast

lemma print_dec_not_special:
  assumes "c \<in> set (print_dec n)"
  shows "c \<noteq> CHR '':''" "c \<noteq> CHR ''|''" "c \<noteq> CHR ''.''" "of_char c \<noteq> (0 :: nat)"
  using print_dec_hex [OF assms] hex_val_not_special(6-9) by blast+

lemma dec_digits_append:
  "(\<forall>c \<in> set s. \<exists>d. dec_val c = Some d) \<Longrightarrow>
   dec_digits acc (s @ t) = dec_digits (dec_digits acc s) t"
  by (induction s arbitrary: acc) auto

lemma dec_digits_print_dec: "dec_digits 0 (print_dec n) = int n"
proof (induction n rule: print_dec.induct)
  case (1 n)
  show ?case
  proof (cases "n < 10")
    case False
    then have "dec_digits 0 (print_dec n) =
        dec_digits (dec_digits 0 (print_dec (n div 10))) [digit_char (n mod 10)]"
      by (subst print_dec.simps) (simp add: dec_digits_append print_dec_digits)
    also have "\<dots> = 10 * int (n div 10) + int (n mod 10)" using False "1.IH" by simp
    also have "\<dots> = int n" by presburger
    finally show ?thesis .
  qed (subst print_dec.simps, simp)
qed

lemma atoi_print_dec: "atoi (print_dec n) = int n"
proof -
  obtain c r where cr: "print_dec n = c # r" by (cases "print_dec n") simp_all
  then have "\<exists>d. hex_val c = Some d" by (simp add: print_dec_hex [of c n])
  with cr have "atoi (print_dec n) = dec_digits 0 (print_dec n)"
    by (auto simp: atoi_def dest: hex_val_not_special)
  then show ?thesis by (simp add: dec_digits_print_dec)
qed

lemma length_print_dec: "n < 10 ^ k \<Longrightarrow> 0 < k \<Longrightarrow> length (print_dec n) \<le> k"
proof (induction k arbitrary: n)
  case (Suc k)
  show ?case
  proof (cases "n < 10")
    case False
    then have "0 < k" using Suc.prems by (cases k) auto
    moreover have "n div 10 < 10 ^ k" using Suc.prems by (simp add: less_mult_imp_div_less mult.commute)
    ultimately have "length (print_dec (n div 10)) \<le> k" by (intro Suc.IH)
    with False show ?thesis by (subst print_dec.simps) simp
  qed (subst print_dec.simps, simp)
qed simp

subsection \<open>Hexadecimal\<close>

fun hex_fixed :: "nat \<Rightarrow> nat \<Rightarrow> string" where
  "hex_fixed 0 n = []"
| "hex_fixed (Suc w) n = hex_fixed w (n div 16) @ [digit_char (n mod 16)]"

lemma length_hex_fixed [simp]: "length (hex_fixed w n) = w"
  by (induction w arbitrary: n) auto

lemma hex_fixed_0: "hex_fixed w 0 = replicate w (digit_char 0)"
  by (induction w) (simp_all add: replicate_append_same)

lemma print_hex_pad_fixed: "n < 16 ^ w \<Longrightarrow> 0 < w \<Longrightarrow> print_hex_pad w n = hex_fixed w n"
proof (induction w arbitrary: n)
  case (Suc w)
  show ?case
  proof (cases "n < 16")
    case True
    then have "print_hex n = [digit_char n]" by (subst print_hex.simps) simp
    with True show ?thesis by (simp add: print_hex_pad_def hex_fixed_0)
  next
    case False
    then have "0 < w" using Suc.prems by (cases w) auto
    moreover have "n div 16 < 16 ^ w"
      using Suc.prems by (simp add: less_mult_imp_div_less mult.commute)
    ultimately have "print_hex_pad w (n div 16) = hex_fixed w (n div 16)" by (intro Suc.IH)
    moreover have "print_hex n = print_hex (n div 16) @ [digit_char (n mod 16)]"
      using False by (subst print_hex.simps) simp
    ultimately show ?thesis by (simp add: print_hex_pad_def)
  qed
qed simp

lemma hex_fixed_digits: "c \<in> set (hex_fixed w n) \<Longrightarrow> \<exists>d. hex_val c = Some d"
  by (induction w arbitrary: n) auto

lemma hex_digits_append:
  "(\<forall>c \<in> set s. \<exists>d. hex_val c = Some d) \<Longrightarrow> length s \<le> w \<Longrightarrow>
   hex_digits w acc (s @ t) = hex_digits (w - length s) (fst (hex_digits (length s) acc s)) t"
proof (induction s arbitrary: w acc)
  case (Cons c s)
  then obtain d where "hex_val c = Some d" by auto
  with Cons show ?case by (cases w) auto
qed simp

lemma hex_digits_fixed:
  "fst (hex_digits w acc (hex_fixed w n)) = 16 ^ w * acc + n mod 16 ^ w"
proof (induction w arbitrary: n)
  case (Suc w)
  have "hex_digits (Suc w) acc (hex_fixed w (n div 16) @ [digit_char (n mod 16)])
      = hex_digits 1 (fst (hex_digits w acc (hex_fixed w (n div 16)))) [digit_char (n mod 16)]"
    by (subst hex_digits_append) (simp_all add: hex_fixed_digits)
  moreover have "n mod 16 ^ Suc w = 16 * (n div 16 mod 16 ^ w) + n mod 16"
    by (simp add: mod_mult2_eq)
  ultimately show ?case using Suc by simp
qed simp

lemma scan_hex_start:
  assumes "0 < w" and "\<forall>c \<in> set (take 2 s). \<exists>d. hex_val c = Some d" and "s \<noteq> []"
  shows "scan_hex w s = (let (v, r) = hex_digits w 0 s in Some (int v, r))"
proof -
  obtain c r where s: "s = c # r" using assms(3) by (cases s) auto
  then have c: "\<exists>d. hex_val c = Some d" using assms(2) by simp
  have "scan_prefix w s = (w, s)"
  proof (cases r)
    case (Cons b r')
    then have "\<exists>d. hex_val b = Some d" using assms(2) s by simp
    then show ?thesis using s Cons by (auto simp: scan_prefix_def dest: hex_val_not_special)
  qed (simp add: scan_prefix_def s)
  moreover obtain d where "hex_val c = Some d" using c by blast
  note special = hex_val_not_special [OF this]
  have "dropWhile is_space s = s" and "scan_sign w s = (False, w, s)"
    using special by (auto simp: scan_sign_def s)
  ultimately show ?thesis using assms(1) c by (auto simp: scan_hex_def s Let_def split_beta)
qed

text \<open>
  Two digits or more, as many as the width allows: what comes after the number has no influence.
\<close>

lemma scan_hex_fixed:
  assumes "2 \<le> w" and "n < 16 ^ w"
  shows "scan_hex w (hex_fixed w n @ rest) = Some (int n, rest)"
proof -
  have "take 2 (hex_fixed w n @ rest) = take 2 (hex_fixed w n)" using assms(1) by simp
  then have "\<forall>c \<in> set (take 2 (hex_fixed w n @ rest)). \<exists>d. hex_val c = Some d"
    by (metis hex_fixed_digits in_set_takeD)
  moreover have "hex_fixed w n @ rest \<noteq> []"
    using assms(1) length_hex_fixed [of w n] by (cases "hex_fixed w n") auto
  ultimately have "scan_hex w (hex_fixed w n @ rest)
      = (let (v, r) = hex_digits w 0 (hex_fixed w n @ rest) in Some (int v, r))"
    using assms(1) by (intro scan_hex_start) auto
  also have "hex_digits w 0 (hex_fixed w n @ rest) = (n, rest)"
    by (subst hex_digits_append) (use assms(2) in \<open>simp_all add: hex_fixed_digits hex_digits_fixed\<close>)
  finally show ?thesis by simp
qed

end
