(* ===== verification/Ids.thy ===== *)
theory Ids
  imports C_Strings Byte_Representation
begin

text \<open>
  \<^verbatim>\<open>coipc/misc.h\<close>, \<^verbatim>\<open>coipc/types.h\<close> and \<^verbatim>\<open>src/misc.cpp\<close>: the textual endpoint ids of sockets and
  of COM classes, and the two directions between a GUID and its text. A GUID is its 16 bytes;
  the multi-byte groups of the text go through the byte order of the host.
\<close>

datatype ip_v4 = Ip_v4 byte byte byte byte

definition localhost :: ip_v4 where
  "localhost = Ip_v4 127 0 0 1"

definition all_interfaces :: ip_v4 where
  "all_interfaces = Ip_v4 0 0 0 0"

text \<open>The formats \<^verbatim>\<open>"%d.%d.%d.%d"\<close> and \<^verbatim>\<open>"sockets|%d.%d.%d.%d:%d"\<close>.\<close>

fun print_ip :: "ip_v4 \<Rightarrow> string" where
  "print_ip (Ip_v4 a b c d) =
     print_dec (unat a) @ ''.'' @ print_dec (unat b) @ ''.'' @ print_dec (unat c) @ ''.''
       @ print_dec (unat d)"

definition sockets_endpoint_text :: "ip_v4 \<Rightarrow> u16 \<Rightarrow> string" where
  "sockets_endpoint_text host port = ''sockets|'' @ print_ip host @ '':'' @ print_dec (unat port)"

definition sockets_endpoint_id :: "ip_v4 \<Rightarrow> u16 \<Rightarrow> string" where
  "sockets_endpoint_id host port = c_str (snprintf 32 (sockets_endpoint_text host port))"

type_synonym guid = bytes

definition guid_ok :: "guid \<Rightarrow> bool" where
  "guid_ok g \<longleftrightarrow> length g = 16"

definition guid_text :: "endian \<Rightarrow> guid \<Rightarrow> string" where
  "guid_text e v =
     print_hex_pad 8 (load_value e (take 4 v)) @ ''-'' @
     print_hex_pad 4 (load_value e (take 2 (drop 4 v))) @ ''-'' @
     print_hex_pad 4 (load_value e (take 2 (drop 6 v))) @ ''-'' @
     print_hex_pad 2 (unat (v ! 8)) @ print_hex_pad 2 (unat (v ! 9)) @ ''-'' @
     print_hex_pad 2 (unat (v ! 10)) @ print_hex_pad 2 (unat (v ! 11)) @
     print_hex_pad 2 (unat (v ! 12)) @ print_hex_pad 2 (unat (v ! 13)) @
     print_hex_pad 2 (unat (v ! 14)) @ print_hex_pad 2 (unat (v ! 15))"

definition guid_to_string :: "endian \<Rightarrow> guid \<Rightarrow> string" where
  "guid_to_string e v = c_str (snprintf 64 (guid_text e v))"

definition com_endpoint_id :: "endian \<Rightarrow> guid \<Rightarrow> string" where
  "com_endpoint_id e g = ''com|'' @ guid_to_string e g"

text \<open>
  \<^verbatim>\<open>sscanf\<close> with a format of literal characters and hexadecimal conversions. A conversion has
  its field width, the size of the object it stores to and the object's offset in the target.
  The scan stops at the first directive that does not match and leaves the rest as it was.
\<close>

datatype directive = Lit char | Hex nat nat nat

definition store_at :: "bytes \<Rightarrow> nat \<Rightarrow> bytes \<Rightarrow> bytes" where
  "store_at x off bs = take off x @ bs @ drop (off + length bs) x"

fun sscanf :: "endian \<Rightarrow> directive list \<Rightarrow> string \<Rightarrow> bytes \<Rightarrow> bytes" where
  "sscanf e [] s x = x"
| "sscanf e (Lit c # ds) s x =
     (case s of [] \<Rightarrow> x | d # r \<Rightarrow> if d = c then sscanf e ds r x else x)"
| "sscanf e (Hex w k off # ds) s x =
     (case scan_hex w s of
        None \<Rightarrow> x
      | Some (v, r) \<Rightarrow>
          sscanf e ds r (store_at x off (store_value e k (nat (v mod 2 ^ (8 * k))))))"

declare sscanf.simps(3) [simp del]

text \<open>\<^verbatim>\<open>"%08X-%04hX-%04hX-%02hhX%02hhX-%02hhX%02hhX%02hhX%02hhX%02hhX%02hhX"\<close>\<close>

definition guid_format :: "directive list" where
  "guid_format =
     [Hex 8 4 0, Lit CHR ''-'', Hex 4 2 4, Lit CHR ''-'', Hex 4 2 6, Lit CHR ''-'',
      Hex 2 1 8, Hex 2 1 9, Lit CHR ''-'',
      Hex 2 1 10, Hex 2 1 11, Hex 2 1 12, Hex 2 1 13, Hex 2 1 14, Hex 2 1 15]"

text \<open>
  The local \<^verbatim>\<open>x\<close> is not initialised: what its bytes happen to hold is the argument \<open>x\<close>. The
  number of conversions that \<^verbatim>\<open>sscanf\<close> made is not looked at.
\<close>

definition guid_from_string :: "endian \<Rightarrow> guid \<Rightarrow> string \<Rightarrow> guid" where
  "guid_from_string e x str = sscanf e guid_format (c_str str) x"

section \<open>Endpoint ids of sockets\<close>

lemma c_str_id: "(\<And>c. c \<in> set s \<Longrightarrow> of_char c \<noteq> (0 :: nat)) \<Longrightarrow> c_str s = s"
  by (simp add: c_str_def takeWhile_eq_all_conv)

lemma print_ip_chars:
  assumes "c \<in> set (print_ip host)"
  shows "c \<noteq> CHR '':''" and "c \<noteq> CHR ''|''" and "of_char c \<noteq> (0 :: nat)"
  using assms by (cases host; auto dest: print_dec_not_special)+

lemma length_print_ip: "length (print_ip host) \<le> 15"
proof (cases host)
  case (Ip_v4 a b c d)
  have "length (print_dec (unat x)) \<le> 3" for x :: byte
    by (rule length_print_dec, rule less_trans [OF unat_byte_less]) simp_all
  from this [of a] this [of b] this [of c] this [of d] show ?thesis by (simp add: Ip_v4)
qed

lemma length_print_port: "length (print_dec (unat (port :: u16))) \<le> 5"
proof (rule length_print_dec)
  have "unat port < 2 ^ LENGTH(16)" by (rule unsigned_less)
  then show "unat port < 10 ^ 5" by simp
qed simp

lemma length_sockets_endpoint_text: "length (sockets_endpoint_text host port) \<le> 29"
  using length_print_ip [of host] length_print_port [of port]
  by (simp add: sockets_endpoint_text_def)

lemma snprintf_fits: "length s < n \<Longrightarrow> snprintf n s = s"
  by (simp add: snprintf_def)

lemma sockets_endpoint_text_nul: "c_str (sockets_endpoint_text host port) = sockets_endpoint_text host port"
  by (rule c_str_id) (auto simp: sockets_endpoint_text_def dest: print_ip_chars print_dec_not_special)

lemma sockets_endpoint_id_text: "sockets_endpoint_id host port = sockets_endpoint_text host port"
  using length_sockets_endpoint_text [of host port]
  by (simp add: sockets_endpoint_id_def snprintf_fits sockets_endpoint_text_nul)

section \<open>GUIDs\<close>

lemma load_value_byte [simp]: "load_value e [b] = unat b"
  by (cases e) (simp_all add: load_value_def)

lemma print_hex_pad_load:
  assumes "length bs = k" and "0 < k"
  shows "print_hex_pad (2 * k) (load_value e bs) = hex_fixed (2 * k) (load_value e bs)"
proof (rule print_hex_pad_fixed)
  show "load_value e bs < 16 ^ (2 * k)"
    using load_value_less [of e bs] assms by (simp add: power_mult)
qed (use assms in simp)

text \<open>A conversion of the printed bytes of an object stores these bytes.\<close>

lemma sscanf_hex_load:
  assumes "length bs = k" and "0 < k"
  shows "sscanf e (Hex (2 * k) k off # ds) (print_hex_pad (2 * k) (load_value e bs) @ rest) x
    = sscanf e ds rest (store_at x off bs)"
proof -
  have less: "load_value e bs < 256 ^ k" using load_value_less [of e bs] assms by simp
  then have "load_value e bs < 16 ^ (2 * k)" by (simp add: power_mult)
  then have "scan_hex (2 * k) (print_hex_pad (2 * k) (load_value e bs) @ rest)
      = Some (int (load_value e bs), rest)"
    using assms by (subst print_hex_pad_load) (simp_all add: scan_hex_fixed)
  moreover have "nat (int (load_value e bs) mod 2 ^ (8 * k)) = load_value e bs"
    using less by (simp add: power_mult)
  moreover have "store_value e k (load_value e bs) = bs"
    using store_load_value [of e bs] assms by simp
  ultimately show ?thesis by (simp add: sscanf.simps(3))
qed

lemmas sscanf_hex_4 = sscanf_hex_load [where k = 4, simplified]
lemmas sscanf_hex_2 = sscanf_hex_load [where k = 2, simplified]
lemmas sscanf_hex_1 = sscanf_hex_load [where bs = "[b]" and k = 1 for b, simplified]

lemma print_hex_pad_chars:
  assumes "n < 16 ^ w" and "0 < w" and "c \<in> set (print_hex_pad w n)"
  shows "of_char c \<noteq> (0 :: nat)" and "c \<noteq> CHR ''|''"
  using assms hex_fixed_digits [of c w n] hex_val_not_special(7,9)
  by (auto simp: print_hex_pad_fixed)

lemma length_print_hex_pad: "n < 16 ^ w \<Longrightarrow> 0 < w \<Longrightarrow> length (print_hex_pad w n) = w"
  by (simp add: print_hex_pad_fixed)

text \<open>The sizes of the groups of a GUID of 16 bytes, as bounds on the numbers printed.\<close>

lemma guid_group_bounds:
  assumes "guid_ok g"
  shows "load_value e (take 4 g) < 4294967296" "load_value e (take 2 (drop 4 g)) < 65536"
    "load_value e (take 2 (drop 6 g)) < 65536"
  using load_value_less [of e "take 4 g"] load_value_less [of e "take 2 (drop 4 g)"]
    load_value_less [of e "take 2 (drop 6 g)"] assms
  by (simp_all add: guid_ok_def)

lemma length_guid_text: "guid_ok g \<Longrightarrow> length (guid_text e g) = 36"
  by (simp add: guid_text_def length_print_hex_pad guid_group_bounds)

lemma guid_text_chars:
  assumes "guid_ok g" and "c \<in> set (guid_text e g)"
  shows "of_char c \<noteq> (0 :: nat)"
  using assms(2) guid_group_bounds [OF assms(1), where e = e]
  by (auto simp: guid_text_def dest: print_hex_pad_chars(1) [rotated 2])

lemma guid_to_string_text: "guid_ok g \<Longrightarrow> guid_to_string e g = guid_text e g"
  by (simp add: guid_to_string_def snprintf_fits length_guid_text c_str_id guid_text_chars)

lemmas sscanf_hex_end = sscanf_hex_1 [where rest = "[]", simplified]

lemma guid_cases:
  assumes "guid_ok g"
  obtains g0 g1 g2 g3 g4 g5 g6 g7 g8 g9 g10 g11 g12 g13 g14 g15 where
    "g = [g0, g1, g2, g3, g4, g5, g6, g7, g8, g9, g10, g11, g12, g13, g14, g15]"
proof -
  have "length g = Suc (Suc (Suc (Suc (Suc (Suc (Suc (Suc (Suc (Suc (Suc (Suc (Suc (Suc (Suc (Suc 0)))))))))))))))"
    using assms by (simp add: guid_ok_def)
  then show thesis by (auto simp only: length_Suc_conv length_0_conv intro: that)
qed

text \<open>Sixteen stores, one group after the other, leave nothing of what was there before.\<close>

lemma sscanf_guid_text:
  assumes "guid_ok g" and "guid_ok x"
  shows "sscanf e guid_format (guid_text e g) x = g"
proof -
  obtain g0 g1 g2 g3 g4 g5 g6 g7 g8 g9 g10 g11 g12 g13 g14 g15 where
    g: "g = [g0, g1, g2, g3, g4, g5, g6, g7, g8, g9, g10, g11, g12, g13, g14, g15]"
    using assms(1) by (rule guid_cases)
  obtain x0 x1 x2 x3 x4 x5 x6 x7 x8 x9 x10 x11 x12 x13 x14 x15 where
    x: "x = [x0, x1, x2, x3, x4, x5, x6, x7, x8, x9, x10, x11, x12, x13, x14, x15]"
    using assms(2) by (rule guid_cases)
  show ?thesis
    unfolding guid_format_def guid_text_def g x
    by (simp add: sscanf_hex_4 sscanf_hex_2 sscanf_hex_1 sscanf_hex_end store_at_def)
qed

lemma guid_from_string_to_string:
  assumes "guid_ok g" and "guid_ok x"
  shows "guid_from_string e x (guid_to_string e g) = g"
  using assms
  by (simp add: guid_from_string_def guid_to_string_text sscanf_guid_text c_str_id guid_text_chars)

text \<open>A text that does not begin with a number leaves the result uninitialised.\<close>

lemma scan_hex_None:
  assumes "\<not> is_space c" and "hex_val c = None" and "c \<noteq> CHR ''-''" and "c \<noteq> CHR ''+''"
  shows "scan_hex w (c # s) = None"
  using assms
  by (auto simp: scan_hex_def scan_sign_def scan_prefix_def Let_def hex_val_def split: list.splits)

section \<open>Malformed texts\<close>

text \<open>
  A text that does not begin with a hexadecimal number is no GUID, but nothing says so: the
  result is whatever was in the memory of the local variable.
\<close>

lemma malformed_guid_is_uninitialised:
  assumes "str = c # rest" and "\<not> is_space c" and "hex_val c = None" and "c \<noteq> CHR ''-''" and "c \<noteq> CHR ''+''"
  shows "guid_from_string e x str = x"
proof (cases "of_char c = (0 :: nat)")
  case True
  then have "c_str str = []" by (simp add: assms(1) c_str_def)
  then show ?thesis
    by (simp add: guid_from_string_def guid_format_def sscanf.simps(3) scan_hex_def scan_sign_def
        scan_prefix_def Let_def)
next
  case False
  then obtain s where "c_str str = c # s" by (simp add: assms(1) c_str_def)
  with scan_hex_None [OF assms(2-5)] show ?thesis
    by (simp add: guid_from_string_def guid_format_def sscanf.simps(3))
qed

end
