(* ===== verification/Selector.thy ===== *)
theory Selector
  imports Ids Exceptions
begin

text \<open>
  Choosing the transport: \<^verbatim>\<open>select\<close> of \<^verbatim>\<open>src/helpers.h\<close>, the tables of \<^verbatim>\<open>src/client_endpoint.cpp\<close>
  and \<^verbatim>\<open>src/server_endpoint.cpp\<close>, and the parsing of a socket address, \<^verbatim>\<open>host_port\<close> of
  \<^verbatim>\<open>src/socket_helpers.h\<close>. The constructors that the tables name are arguments; \<open>win32\<close> says
  whether the library was compiled with \<^verbatim>\<open>_WIN32\<close>.
\<close>

fun select_loop :: "(string \<times> 'f) list \<Rightarrow> string \<Rightarrow> 'f option" where
  "select_loop [] protocol = None"
| "select_loop ((name, f) # cs) protocol =
     (if protocol = name then Some f else select_loop cs protocol)"

text \<open>The result carries the out-parameter \<^verbatim>\<open>endpoint_id\<close>.\<close>

definition select :: "(string \<times> 'f) list \<Rightarrow> string \<Rightarrow> exn + 'f \<times> string" where
  "select constructors typed_endpoint_id =
     (case find_char CHR ''|'' typed_endpoint_id of
        None \<Rightarrow> Inl (Std_invalid_argument typed_endpoint_id)
      | Some delim \<Rightarrow>
          (case select_loop constructors (take delim typed_endpoint_id) of
             Some f \<Rightarrow> Inr (f, drop (delim + 1) typed_endpoint_id)
           | None \<Rightarrow> Inl (Protocol_not_supported (c_str typed_endpoint_id))))"

datatype transport = Com | Sockets

definition client_constructors :: "bool \<Rightarrow> (string \<times> transport) list" where
  "client_constructors win32 = (if win32 then [(''com'', Com)] else []) @ [(''sockets'', Sockets)]"

definition server_constructors :: "bool \<Rightarrow> (string \<times> transport) list" where
  "server_constructors win32 = (if win32 then [(''com'', Com)] else []) @ [(''sockets'', Sockets)]"

definition connect_client ::
    "bool \<Rightarrow> (transport \<Rightarrow> string \<Rightarrow> 'inbound \<Rightarrow> exn + 'channel) \<Rightarrow> string \<Rightarrow> 'inbound \<Rightarrow> exn + 'channel"
  where
  "connect_client win32 connect typed_id inbound =
     bind_result (select (client_constructors win32) typed_id)
       (\<lambda>(ctor, endpoint_id). connect ctor (c_str endpoint_id) inbound)"

definition run_server ::
    "bool \<Rightarrow> (transport \<Rightarrow> string \<Rightarrow> 'factory \<Rightarrow> exn + 'server) \<Rightarrow> string \<Rightarrow> 'factory \<Rightarrow> exn + 'server"
  where
  "run_server win32 run typed_id factory =
     bind_result (select (server_constructors win32) typed_id)
       (\<lambda>(ctor, endpoint_id). run ctor (c_str endpoint_id) factory)"

text \<open>\<^verbatim>\<open>host_port\<close>: \<^verbatim>\<open>strchr\<close> for a colon, \<^verbatim>\<open>atoi\<close> after it, truncated to 16 bits.\<close>

record host_port =
  hp_host :: string
  hp_port :: u16

definition c_localhost :: string where
  "c_localhost = ''127.0.0.1''"

definition host_port_ctor :: "string \<Rightarrow> string \<Rightarrow> host_port" where
  "host_port_ctor address default_host =
     (case find_char CHR '':'' (c_str address) of
        Some delim \<Rightarrow>
          \<lparr>hp_host = take delim (c_str address),
           hp_port = word_of_int (atoi (drop (delim + 1) (c_str address)))\<rparr>
      | None \<Rightarrow> \<lparr>hp_host = default_host, hp_port = word_of_int (atoi (c_str address))\<rparr>)"

section \<open>Selection\<close>

lemma select_loop_map_of: "select_loop cs p = map_of cs p"
  by (induction cs) auto

lemma select_split:
  "CHR ''|'' \<notin> set protocol \<Longrightarrow>
   select cs (protocol @ CHR ''|'' # endpoint) =
     (case map_of cs protocol of
        Some f \<Rightarrow> Inr (f, endpoint)
      | None \<Rightarrow> Inl (Protocol_not_supported (c_str (protocol @ CHR ''|'' # endpoint))))"
  by (simp add: select_def find_char_append select_loop_map_of split: option.split)

lemma select_no_delimiter: "CHR ''|'' \<notin> set s \<Longrightarrow> select cs s = Inl (Std_invalid_argument s)"
  by (simp add: select_def find_char_None [THEN iffD2])

lemma select_Inr:
  assumes "select cs typed = Inr (f, endpoint)"
  obtains protocol where "typed = protocol @ CHR ''|'' # endpoint" and "CHR ''|'' \<notin> set protocol"
    and "map_of cs protocol = Some f"
proof -
  from assms obtain i where i: "find_char CHR ''|'' typed = Some i"
    and f: "map_of cs (take i typed) = Some f" and e: "endpoint = drop (i + 1) typed"
    by (auto simp: select_def select_loop_map_of split: option.splits)
  from find_char_Some [OF i] f e show thesis by (intro that [of "take i typed"]) simp_all
qed

lemma select_Inl_cases:
  assumes "select cs typed = Inl x"
  shows "x = Std_invalid_argument typed \<and> CHR ''|'' \<notin> set typed \<or>
    x = Protocol_not_supported (c_str typed) \<and> CHR ''|'' \<in> set typed"
  using assms
  by (auto simp: select_def find_char_None split: option.splits dest: find_char_Some)
     (metis find_char_None option.distinct(1))

text \<open>Whatever \<^verbatim>\<open>select\<close> throws is a \<^verbatim>\<open>std::invalid_argument\<close>.\<close>

lemma select_Inl_invalid_argument:
  "select cs typed = Inl x \<Longrightarrow> catches C_invalid_argument x"
  by (auto simp: catches_def dest: select_Inl_cases)

section \<open>Addresses\<close>

lemma host_port_ctor_colon:
  assumes "CHR '':'' \<notin> set host" and "c_str (host @ '':'' @ port) = host @ '':'' @ port"
  shows "host_port_ctor (host @ '':'' @ port) dflt =
    \<lparr>hp_host = host, hp_port = word_of_int (atoi port)\<rparr>"
  using assms by (simp add: host_port_ctor_def find_char_append)

lemma host_port_ctor_no_colon:
  assumes "CHR '':'' \<notin> set port" and "c_str port = port"
  shows "host_port_ctor port dflt = \<lparr>hp_host = dflt, hp_port = word_of_int (atoi port)\<rparr>"
  using assms by (simp add: host_port_ctor_def find_char_None [THEN iffD2])

lemma print_address_nul: "c_str (print_ip host @ '':'' @ print_dec n) = print_ip host @ '':'' @ print_dec n"
  by (rule c_str_id) (auto dest: print_ip_chars print_dec_not_special)

lemma host_port_ctor_print:
  "host_port_ctor (print_ip host @ '':'' @ print_dec (unat port)) dflt =
     \<lparr>hp_host = print_ip host, hp_port = port\<rparr>"
  using print_ip_chars(1) [of _ host] print_address_nul [of host "unat port"]
  by (subst host_port_ctor_colon) (auto simp: atoi_print_dec)

lemma print_dec_nul: "c_str (print_dec n) = print_dec n"
  by (rule c_str_id) (auto dest: print_dec_not_special)

lemma host_port_ctor_print_port:
  "host_port_ctor (print_dec n) dflt = \<lparr>hp_host = dflt, hp_port = word_of_nat n\<rparr>"
  using print_dec_not_special(1) [of _ n]
  by (subst host_port_ctor_no_colon) (auto simp: atoi_print_dec print_dec_nul)

text \<open>The id made of an address selects the socket transport, with the address as its id.\<close>

lemma connect_client_sockets_id:
  "connect_client win32 connect (sockets_endpoint_id host port) inbound =
     connect Sockets (print_ip host @ '':'' @ print_dec (unat port)) inbound"
proof -
  have "sockets_endpoint_id host port
      = ''sockets'' @ CHR ''|'' # (print_ip host @ '':'' @ print_dec (unat port))"
    by (simp add: sockets_endpoint_id_text sockets_endpoint_text_def)
  then have "select (client_constructors win32) (sockets_endpoint_id host port)
      = Inr (Sockets, print_ip host @ '':'' @ print_dec (unat port))"
    by (simp only:) (subst select_split, simp_all add: client_constructors_def)
  then show ?thesis using print_address_nul by (simp add: connect_client_def)
qed

lemma run_server_sockets_id:
  "run_server win32 run (sockets_endpoint_id host port) factory =
     run Sockets (print_ip host @ '':'' @ print_dec (unat port)) factory"
proof -
  have "run_server win32 run = connect_client win32 run"
    by (simp add: run_server_def connect_client_def server_constructors_def client_constructors_def
        fun_eq_iff)
  then show ?thesis by (simp only: connect_client_sockets_id)
qed

lemma connect_client_com_id:
  assumes "guid_ok g"
  shows "connect_client True connect (com_endpoint_id e g) inbound =
    connect Com (guid_to_string e g) inbound"
proof -
  have "com_endpoint_id e g = ''com'' @ CHR ''|'' # guid_to_string e g"
    by (simp add: com_endpoint_id_def)
  then have "select (client_constructors True) (com_endpoint_id e g) = Inr (Com, guid_to_string e g)"
    by (simp only:) (subst select_split, simp_all add: client_constructors_def)
  then show ?thesis
    using assms by (simp add: connect_client_def guid_to_string_text c_str_id guid_text_chars)
qed

lemma connect_client_com_unsupported:
  "connect_client False connect (com_endpoint_id e g) inbound =
     Inl (Protocol_not_supported (c_str (com_endpoint_id e g)))"
proof -
  have "com_endpoint_id e g = ''com'' @ CHR ''|'' # guid_to_string e g"
    by (simp add: com_endpoint_id_def)
  moreover from this have "select (client_constructors False) (com_endpoint_id e g)
      = Inl (Protocol_not_supported (c_str (com_endpoint_id e g)))"
    by (simp only:) (subst select_split, simp_all add: client_constructors_def)
  ultimately show ?thesis by (simp add: connect_client_def)
qed

section \<open>Selecting by the name\<close>

text \<open>
  Selecting a transport: the part of the id before the first bar names it and the constructor
  gets the part after it; without a bar, or with a name that is not in the table, what is thrown
  is an \<^verbatim>\<open>invalid_argument\<close>, and no constructor runs.
\<close>

lemma select_by_protocol:
  "case select constructors typed of
     Inr (f, endpoint) \<Rightarrow> (\<exists>protocol. typed = protocol @ CHR ''|'' # endpoint \<and>
       CHR ''|'' \<notin> set protocol \<and> map_of constructors protocol = Some f)
   | Inl x \<Rightarrow> catches C_invalid_argument x \<and>
       (\<nexists>protocol endpoint. typed = protocol @ CHR ''|'' # endpoint \<and>
         CHR ''|'' \<notin> set protocol \<and> map_of constructors protocol \<noteq> None)"
proof (cases "select constructors typed")
  case (Inl x)
  have "select constructors typed \<noteq> Inl x"
    if "typed = protocol @ CHR ''|'' # endpoint" "CHR ''|'' \<notin> set protocol"
      "map_of constructors protocol \<noteq> None" for protocol endpoint
    using select_split [OF that(2), of constructors endpoint] that by auto
  with Inl select_Inl_invalid_argument [OF Inl] show ?thesis by auto
next
  case (Inr r)
  obtain f endpoint where r: "r = (f, endpoint)" by (cases r)
  with Inr have "select constructors typed = Inr (f, endpoint)" by simp
  then obtain protocol where "typed = protocol @ CHR ''|'' # endpoint" "CHR ''|'' \<notin> set protocol"
      "map_of constructors protocol = Some f"
    by (rule select_Inr)
  then show ?thesis unfolding Inr r by auto
qed

end
