(* ===== verification/Cancellable_Win32.thy ===== *)
theory Cancellable_Win32
  imports Exceptions
begin

text \<open>
  \<^verbatim>\<open>cancellable_read\<close> on Windows (\<^verbatim>\<open>src/cancellable_read.win32.cpp\<close>). The object is shared by
  threads that read and threads that cancel. What it shares is accessed under its mutex only, so
  a critical section is one step; between the two sections of \<^verbatim>\<open>read\<close> the platform reads, for as
  long as it takes. A call of \<^verbatim>\<open>read\<close> is named by the thread handle it opens, a number; a call of
  \<^verbatim>\<open>cancel\<close> has a number of its own. \<open>cr_io_cancelled\<close> is not in the code: it records for which
  calls the platform has confirmed that it broke the read off.
\<close>

datatype win_read =
    W_idle
  | W_opened                \<comment> \<open>has its thread handle, before the first critical section\<close>
  | W_reading               \<comment> \<open>inside \<open>_platform.read\<close>\<close>
  | W_read nat              \<comment> \<open>\<open>_platform.read\<close> has returned this count\<close>
  | W_returned nat
  | W_threw exn

datatype win_cancel = C_idle | C_looping | C_done

record win_impl =
  cr_cancelled :: bool
  cr_thread_handle :: "nat option"
  cr_reads :: "nat \<Rightarrow> win_read"
  cr_cancels :: "nat \<Rightarrow> win_cancel"
  cr_io_cancelled :: "nat set"

definition win_init :: win_impl where
  "win_init = \<lparr>cr_cancelled = False, cr_thread_handle = None, cr_reads = (\<lambda>_. W_idle),
     cr_cancels = (\<lambda>_. C_idle), cr_io_cancelled = {}\<rparr>"

definition set_read :: "nat \<Rightarrow> win_read \<Rightarrow> win_impl \<Rightarrow> win_impl" where
  "set_read i r s = s\<lparr>cr_reads := (cr_reads s)(i := r)\<rparr>"

definition set_cancel :: "nat \<Rightarrow> win_cancel \<Rightarrow> win_impl \<Rightarrow> win_impl" where
  "set_cancel j c s = s\<lparr>cr_cancels := (cr_cancels s)(j := c)\<rparr>"

text \<open>The first critical section of \<^verbatim>\<open>read\<close>, the second, and one turn of the loop of \<^verbatim>\<open>cancel\<close>.\<close>

definition win_read_enter :: "nat \<Rightarrow> win_impl \<Rightarrow> win_impl" where
  "win_read_enter i s =
     (if cr_cancelled s then set_read i (W_threw Cancelled_exception) s
      else set_read i W_reading (s\<lparr>cr_thread_handle := Some i\<rparr>))"

definition win_read_leave :: "nat \<Rightarrow> nat \<Rightarrow> win_impl \<Rightarrow> win_impl" where
  "win_read_leave i bytes_read s =
     (let s1 = s\<lparr>cr_thread_handle := None\<rparr>
      in if cr_cancelled s1 then set_read i (W_threw Cancelled_exception) s1
         else set_read i (W_returned bytes_read) s1)"

text \<open>\<open>ok\<close> is what \<^verbatim>\<open>_platform.cancel_io\<close> answers if it is asked.\<close>

definition win_cancel_turn :: "nat \<Rightarrow> bool \<Rightarrow> win_impl \<Rightarrow> win_impl" where
  "win_cancel_turn j ok s =
     (let s1 = s\<lparr>cr_cancelled := True\<rparr>
      in case cr_thread_handle s1 of
           None \<Rightarrow> set_cancel j C_done s1
         | Some i \<Rightarrow>
             if ok then set_cancel j C_done (s1\<lparr>cr_io_cancelled := insert i (cr_io_cancelled s1)\<rparr>)
             else s1)"

text \<open>A call is under way from its first critical section to its second.\<close>

fun win_active :: "win_read \<Rightarrow> bool" where
  "win_active W_idle = False"
| "win_active W_opened = True"
| "win_active W_reading = True"
| "win_active (W_read _) = True"
| "win_active (W_returned _) = False"
| "win_active (W_threw _) = False"

fun win_registered :: "win_read \<Rightarrow> bool" where
  "win_registered W_reading = True"
| "win_registered (W_read _) = True"
| "win_registered _ = False"

text \<open>
  The steps of the threads, in any order. \<open>overlap\<close> says whether a call of \<^verbatim>\<open>read\<close> may start
  while another one is under way; the class itself does not prevent it. A platform whose \<^verbatim>\<open>read\<close>
  throws takes the call past its second critical section: the thread handle stays where it is,
  although it is closed on the way out.
\<close>

inductive win_step :: "bool \<Rightarrow> win_impl \<Rightarrow> win_impl \<Rightarrow> bool" for overlap where
  read_open: "cr_reads s i = W_idle \<Longrightarrow> overlap \<or> (\<forall>k. \<not> win_active (cr_reads s k)) \<Longrightarrow>
    win_step overlap s (set_read i W_opened s)"
| read_enter: "cr_reads s i = W_opened \<Longrightarrow> win_step overlap s (win_read_enter i s)"
| read_platform: "cr_reads s i = W_reading \<Longrightarrow> win_step overlap s (set_read i (W_read n) s)"
| read_platform_throws: "cr_reads s i = W_reading \<Longrightarrow> win_step overlap s (set_read i (W_threw x) s)"
| read_leave: "cr_reads s i = W_read n \<Longrightarrow> win_step overlap s (win_read_leave i n s)"
| cancel_call: "cr_cancels s j = C_idle \<Longrightarrow> win_step overlap s (set_cancel j C_looping s)"
| cancel_turn: "cr_cancels s j = C_looping \<Longrightarrow> win_step overlap s (win_cancel_turn j ok s)"

inductive_cases win_stepE: "win_step overlap s t"

lemmas win_ops = set_read_def set_cancel_def win_read_enter_def win_read_leave_def
  win_cancel_turn_def Let_def

section \<open>Cancelling is for ever\<close>

lemma win_step_cancelled: "win_step overlap s t \<Longrightarrow> cr_cancelled s \<Longrightarrow> cr_cancelled t"
  by (erule win_stepE) (auto simp: win_ops split: option.splits)

lemma win_steps_cancelled: "(win_step overlap)\<^sup>*\<^sup>* s t \<Longrightarrow> cr_cancelled s \<Longrightarrow> cr_cancelled t"
  by (induction rule: rtranclp_induct) (auto dest: win_step_cancelled)

text \<open>A cancel that has returned, or gone round its loop once, has set the flag.\<close>

definition win_done_cancelled :: "win_impl \<Rightarrow> bool" where
  "win_done_cancelled s \<longleftrightarrow> ((\<exists>j. cr_cancels s j = C_done) \<longrightarrow> cr_cancelled s)"

lemma win_step_done_cancelled:
  "win_step overlap s t \<Longrightarrow> win_done_cancelled s \<Longrightarrow> win_done_cancelled t"
  by (erule win_stepE)
    (auto simp: win_ops win_done_cancelled_def split: option.splits if_splits)

lemma win_reach_done_cancelled: "(win_step overlap)\<^sup>*\<^sup>* win_init s \<Longrightarrow> win_done_cancelled s"
  by (induction rule: rtranclp_induct)
    (auto simp: win_done_cancelled_def win_init_def dest: win_step_done_cancelled
      [unfolded win_done_cancelled_def])

text \<open>After the flag is set no read returns a count any more.\<close>

lemma win_step_no_return:
  "win_step overlap s t \<Longrightarrow> cr_cancelled s \<Longrightarrow> cr_reads s i \<noteq> W_returned n \<Longrightarrow>
   cr_reads t i \<noteq> W_returned n"
  by (erule win_stepE) (auto simp: win_ops split: option.splits if_splits)

lemma win_steps_no_return:
  "(win_step overlap)\<^sup>*\<^sup>* s t \<Longrightarrow> cr_cancelled s \<Longrightarrow> cr_reads s i \<noteq> W_returned n \<Longrightarrow>
   cr_reads t i \<noteq> W_returned n"
proof (induction rule: rtranclp_induct)
  case (step t u)
  then show ?case using win_steps_cancelled win_step_no_return by blast
qed

text \<open>A call that has not passed its first critical section never asks the platform to read.\<close>

definition win_rejected :: "win_read \<Rightarrow> bool" where
  "win_rejected r \<longleftrightarrow> r \<in> {W_idle, W_opened, W_threw Cancelled_exception}"

lemma win_step_rejected:
  "win_step overlap s t \<Longrightarrow> cr_cancelled s \<Longrightarrow> win_rejected (cr_reads s i) \<Longrightarrow>
   win_rejected (cr_reads t i)"
  by (erule win_stepE) (auto simp: win_ops win_rejected_def split: option.splits if_splits)

lemma win_steps_rejected:
  "(win_step overlap)\<^sup>*\<^sup>* s t \<Longrightarrow> cr_cancelled s \<Longrightarrow> win_rejected (cr_reads s i) \<Longrightarrow>
   win_rejected (cr_reads t i)"
proof (induction rule: rtranclp_induct)
  case (step t u)
  then show ?case using win_steps_cancelled win_step_rejected by blast
qed

section \<open>Reads that do not overlap\<close>

text \<open>
  The handle names the read under way, if there is one, and once a cancel has returned, a read still inside the
  platform is one whose input the platform has confirmed to have broken off.
\<close>

definition win_inv :: "win_impl \<Rightarrow> bool" where
  [inv_defs]: "win_inv s \<longleftrightarrow>
     (\<forall>i. win_registered (cr_reads s i) \<longrightarrow> cr_thread_handle s = Some i) \<and>
     (\<forall>i k. win_active (cr_reads s i) \<longrightarrow> win_active (cr_reads s k) \<longrightarrow> i = k) \<and>
     win_done_cancelled s \<and>
     (\<forall>i j. cr_cancels s j = C_done \<longrightarrow> cr_thread_handle s = Some i \<longrightarrow> i \<in> cr_io_cancelled s)"

lemma win_registered_active: "win_registered r \<Longrightarrow> win_active r"
  by (cases r) auto

lemma win_inv_init: "win_inv win_init"
  by (simp add: win_inv_def win_init_def win_done_cancelled_def)

lemma win_inv_open:
  assumes "win_inv s" and "cr_reads s i = W_idle" and "\<forall>k. \<not> win_active (cr_reads s k)"
  shows "win_inv (set_read i W_opened s)"
  using assms unfolding win_inv_def win_done_cancelled_def set_read_def
  by (auto split: if_splits)

lemma win_inv_enter:
  assumes inv: "win_inv s" and opened: "cr_reads s i = W_opened"
  shows "win_inv (win_read_enter i s)"
proof (cases "cr_cancelled s")
  case True
  with inv opened show ?thesis
    unfolding win_inv_def win_done_cancelled_def win_ops by (auto split: if_splits)
next
  case False
  have single: "k = i" if "win_active (cr_reads s k)" for k
    using inv opened that unfolding win_inv_def by (metis win_active.simps(2))
  have none: "\<not> win_registered (cr_reads s k)" for k
    using single [of k] opened win_registered_active [of "cr_reads s k"] by auto
  from inv False have "\<forall>j. cr_cancels s j \<noteq> C_done"
    unfolding win_inv_def win_done_cancelled_def by blast
  with inv False single none show ?thesis
    unfolding win_inv_def win_done_cancelled_def win_ops by (auto split: if_splits)
qed

lemma win_inv_platform:
  assumes "win_inv s" and "cr_reads s i = W_reading"
  shows "win_inv (set_read i (W_read n) s)"
proof -
  have "win_registered (cr_reads s i)" "win_active (cr_reads s i)" using assms(2) by simp_all
  with assms show ?thesis
    unfolding win_inv_def win_done_cancelled_def set_read_def by (auto split: if_splits)
qed

lemma win_inv_platform_throws:
  assumes "win_inv s" and "cr_reads s i = W_reading"
  shows "win_inv (set_read i (W_threw x) s)"
  using assms unfolding win_inv_def win_done_cancelled_def set_read_def by (auto split: if_splits)

lemma win_inv_leave:
  assumes inv: "win_inv s" and read: "cr_reads s i = W_read n"
  shows "win_inv (win_read_leave i n s)"
proof -
  have single: "k = i" if "win_active (cr_reads s k)" for k
    using inv read that unfolding win_inv_def by (metis win_active.simps(4))
  then have other: "\<not> win_registered (cr_reads s k)" if "k \<noteq> i" for k
    using that win_registered_active by blast
  from inv single other show ?thesis
    unfolding win_inv_def win_done_cancelled_def win_ops by (auto split: if_splits)
qed

lemma win_inv_cancel_call:
  "win_inv s \<Longrightarrow> win_inv (set_cancel j C_looping s)"
  unfolding win_inv_def win_done_cancelled_def set_cancel_def by (auto split: if_splits)

lemma win_inv_cancel_turn: "win_inv s \<Longrightarrow> win_inv (win_cancel_turn j ok s)"
  unfolding win_inv_def win_done_cancelled_def win_ops
  by (auto split: if_splits option.splits)

lemma win_step_inv: "win_step False s t \<Longrightarrow> win_inv s \<Longrightarrow> win_inv t"
  by (erule win_stepE)
    (auto intro: win_inv_open win_inv_enter win_inv_platform win_inv_platform_throws win_inv_leave win_inv_cancel_call
      win_inv_cancel_turn)

lemma win_reach_inv: "(win_step False)\<^sup>*\<^sup>* win_init s \<Longrightarrow> win_inv s"
  by (induction rule: rtranclp_induct) (auto intro: win_inv_init win_step_inv)

text \<open>A cancel of an object that no read uses takes one turn and does not ask the platform.\<close>

lemma win_cancel_turn_idle:
  "cr_thread_handle s = None \<Longrightarrow>
   win_cancel_turn j ok s = set_cancel j C_done (s\<lparr>cr_cancelled := True\<rparr>)"
  by (simp add: win_cancel_turn_def)

text \<open>
  One of an object whose platform threw in the middle of a read asks for the thread handle that is
  closed by now. It goes round its loop for ever if the platform knows no such thread.
\<close>

lemma win32_throwing_platform_hangs_cancel:
  assumes "cr_reads s i = W_opened" and "\<not> cr_cancelled s"
    and t_def: "t = set_read i (W_threw x) (win_read_enter i s)"
  shows "(win_step overlap)\<^sup>*\<^sup>* s t \<and> \<not> win_registered (cr_reads t i) \<and> cr_thread_handle t = Some i \<and>
    (0 < n \<longrightarrow> (win_cancel_turn j False ^^ n) (set_cancel j C_looping t) = (set_cancel j C_looping t)\<lparr>cr_cancelled := True\<rparr>)"
proof -
  have "win_step overlap s (win_read_enter i s)" using assms(1) by (rule win_step.read_enter)
  moreover have "win_step overlap (win_read_enter i s) t"
    unfolding t_def by (rule win_step.read_platform_throws) (simp add: win_ops assms(2))
  moreover have "(win_cancel_turn j False ^^ Suc n) (set_cancel j C_looping t) =
      (set_cancel j C_looping t)\<lparr>cr_cancelled := True\<rparr>" for n
    by (induction n) (simp_all add: win_ops t_def assms(2))
  ultimately show ?thesis
    by (cases n) (auto simp: t_def win_ops assms(2))
qed

section \<open>Overlapping reads\<close>

text \<open>
  Windows, two reads at a time: the object has room for one thread handle, so a read that ends
  takes the handle of the other with it. \<^verbatim>\<open>cancel\<close> then returns although a read is inside the
  platform that nobody has broken off.
\<close>

lemma win32_overlapping_reads_escape_cancel:
  "\<exists>s. (win_step True)\<^sup>*\<^sup>* win_init s \<and> cr_cancels s 0 = C_done \<and> cr_reads s 0 = W_reading \<and>
     0 \<notin> cr_io_cancelled s"
proof -
  define s1 where "s1 = set_read 0 W_opened win_init"
  define s2 where "s2 = win_read_enter 0 s1"
  define s3 where "s3 = set_read 1 W_opened s2"
  define s4 where "s4 = win_read_enter 1 s3"
  define s5 where "s5 = set_read 1 (W_read 8) s4"
  define s6 where "s6 = win_read_leave 1 8 s5"
  define s7 where "s7 = set_cancel 0 C_looping s6"
  define s where "s = win_cancel_turn 0 True s7"
  note defs = s1_def s2_def s3_def s4_def s5_def s6_def s7_def s_def win_init_def win_ops
  have "win_step True win_init s1" unfolding s1_def by (rule win_step.read_open) (simp_all add: win_init_def)
  moreover have "win_step True s1 s2" unfolding s2_def by (rule win_step.read_enter) (simp add: defs)
  moreover have "win_step True s2 s3" unfolding s3_def by (rule win_step.read_open) (simp_all add: defs)
  moreover have "win_step True s3 s4" unfolding s4_def by (rule win_step.read_enter) (simp add: defs)
  moreover have "win_step True s4 s5" unfolding s5_def by (rule win_step.read_platform) (simp add: defs)
  moreover have "win_step True s5 s6" unfolding s6_def by (rule win_step.read_leave) (simp add: defs)
  moreover have "win_step True s6 s7" unfolding s7_def by (rule win_step.cancel_call) (simp add: defs)
  moreover have "win_step True s7 s" unfolding s_def by (rule win_step.cancel_turn) (simp add: defs)
  ultimately have "(win_step True)\<^sup>*\<^sup>* win_init s" by simp
  moreover have "cr_cancels s 0 = C_done" "cr_reads s 0 = W_reading" "0 \<notin> cr_io_cancelled s"
    by (simp_all add: defs)
  ultimately show ?thesis by blast
qed

end
