(* ===== verification/Cancellable_Unix.thy ===== *)
theory Cancellable_Unix
  imports Exceptions
begin

text \<open>
  \<^verbatim>\<open>cancellable_read\<close> on Unix (\<^verbatim>\<open>src/cancellable_read.unix.cpp\<close>). \<^verbatim>\<open>cancel\<close> writes a byte into a
  pipe that nobody reads; \<^verbatim>\<open>read\<close> waits with \<^verbatim>\<open>select\<close> for that pipe or the data, then calls
  \<^verbatim>\<open>fread\<close>, which waits for all the bytes asked for or the end of the file. The state is the
  number of bytes in either pipe, whether the writer of the data has closed its end, and how far
  each call of \<^verbatim>\<open>read\<close> has got. The \<^verbatim>\<open>FILE\<close> has no buffer of its own, as for the stream endpoint.
\<close>

datatype unix_read =
    U_idle
  | U_selecting nat         \<comment> \<open>in the loop around \<open>select\<close>, for a read of this size\<close>
  | U_reading nat           \<comment> \<open>inside \<open>fread\<close>\<close>
  | U_returned nat
  | U_threw exn

record unix_impl =
  ur_signal_pipe :: nat
  ur_data :: nat
  ur_closed :: bool
  ur_reads :: "nat \<Rightarrow> unix_read"

definition unix_init :: unix_impl where
  "unix_init = \<lparr>ur_signal_pipe = 0, ur_data = 0, ur_closed = False, ur_reads = (\<lambda>_. U_idle)\<rparr>"

definition set_uread :: "nat \<Rightarrow> unix_read \<Rightarrow> unix_impl \<Rightarrow> unix_impl" where
  "set_uread i r s = s\<lparr>ur_reads := (ur_reads s)(i := r)\<rparr>"

definition signal_ready :: "unix_impl \<Rightarrow> bool" where
  "signal_ready s \<longleftrightarrow> 0 < ur_signal_pipe s"

definition data_ready :: "unix_impl \<Rightarrow> bool" where
  "data_ready s \<longleftrightarrow> 0 < ur_data s \<or> ur_closed s"

text \<open>
  What \<^verbatim>\<open>select\<close> can come back with: an error, \<^verbatim>\<open>EINTR\<close> or another one, or the descriptors that
  are ready, of which there is at least one.
\<close>

datatype select_result = Select_eintr | Select_error | Select_ready

fun unix_select_turn :: "nat \<Rightarrow> nat \<Rightarrow> select_result \<Rightarrow> unix_impl \<Rightarrow> unix_impl" where
  "unix_select_turn i n Select_eintr s = s"
| "unix_select_turn i n Select_error s = set_uread i (U_threw (Std_runtime_error ''select() failed'')) s"
| "unix_select_turn i n Select_ready s =
     (if signal_ready s then set_uread i (U_threw Cancelled_exception) s
      else if data_ready s then set_uread i (U_reading n) s
      else s)"

definition unix_fread_done :: "nat \<Rightarrow> nat \<Rightarrow> unix_impl \<Rightarrow> unix_impl" where
  "unix_fread_done i n s =
     set_uread i (U_returned (min n (ur_data s))) (s\<lparr>ur_data := ur_data s - min n (ur_data s)\<rparr>)"

definition unix_cancel :: "unix_impl \<Rightarrow> unix_impl" where
  "unix_cancel s = s\<lparr>ur_signal_pipe := ur_signal_pipe s + 1\<rparr>"

text \<open>
  The steps. \<open>writer\<close> says whether the process at the other end of the data pipe takes part:
  without it no data comes and the pipe is not closed.
\<close>

inductive unix_step :: "bool \<Rightarrow> unix_impl \<Rightarrow> unix_impl \<Rightarrow> bool" for writer where
  read_call: "ur_reads s i = U_idle \<Longrightarrow> unix_step writer s (set_uread i (U_selecting n) s)"
| select_fails: "ur_reads s i = U_selecting n \<Longrightarrow> r \<noteq> Select_ready \<Longrightarrow>
    unix_step writer s (unix_select_turn i n r s)"
| select_returns: "ur_reads s i = U_selecting n \<Longrightarrow> signal_ready s \<or> data_ready s \<Longrightarrow>
    unix_step writer s (unix_select_turn i n Select_ready s)"
| fread_returns: "ur_reads s i = U_reading n \<Longrightarrow> n \<le> ur_data s \<or> ur_closed s \<Longrightarrow>
    unix_step writer s (unix_fread_done i n s)"
| cancel: "unix_step writer s (unix_cancel s)"
| data_written: "writer \<Longrightarrow> \<not> ur_closed s \<Longrightarrow> unix_step writer s (s\<lparr>ur_data := ur_data s + k\<rparr>)"
| data_closed: "writer \<Longrightarrow> unix_step writer s (s\<lparr>ur_closed := True\<rparr>)"

inductive_cases unix_stepE: "unix_step writer s t"

lemmas unix_ops = set_uread_def unix_fread_done_def unix_cancel_def

section \<open>After a cancel\<close>

lemma unix_select_turn_signal:
  "ur_signal_pipe (unix_select_turn i n r s) = ur_signal_pipe s"
  by (cases r) (simp_all add: unix_ops)

lemma unix_step_signal: "unix_step writer s t \<Longrightarrow> ur_signal_pipe s \<le> ur_signal_pipe t"
  by (erule unix_stepE) (simp_all add: unix_ops unix_select_turn_signal)

lemma unix_step_signal_ready: "unix_step writer s t \<Longrightarrow> signal_ready s \<Longrightarrow> signal_ready t"
  using unix_step_signal [of writer s t] by (simp add: signal_ready_def)

lemma unix_steps_signal_ready: "(unix_step writer)\<^sup>*\<^sup>* s t \<Longrightarrow> signal_ready s \<Longrightarrow> signal_ready t"
  by (induction rule: rtranclp_induct) (auto dest: unix_step_signal_ready)

text \<open>The reads that have not come past their \<^verbatim>\<open>select\<close> yet, and how they can end then.\<close>

fun unix_refused :: "unix_read \<Rightarrow> bool" where
  "unix_refused U_idle = True"
| "unix_refused (U_selecting _) = True"
| "unix_refused (U_reading _) = False"
| "unix_refused (U_returned _) = False"
| "unix_refused (U_threw x) = True"

lemma unix_select_turn_refused:
  "signal_ready s \<Longrightarrow> unix_refused (ur_reads s k) \<Longrightarrow>
   unix_refused (ur_reads (unix_select_turn i n r s) k)"
  by (cases r) (simp_all add: unix_ops)

lemma unix_step_refused:
  "unix_step writer s t \<Longrightarrow> signal_ready s \<Longrightarrow> unix_refused (ur_reads s i) \<Longrightarrow>
   unix_refused (ur_reads t i)"
  by (erule unix_stepE)
    (auto simp: unix_select_turn_refused simp: unix_ops split: if_splits)

lemma unix_steps_refused:
  "(unix_step writer)\<^sup>*\<^sup>* s t \<Longrightarrow> signal_ready s \<Longrightarrow> unix_refused (ur_reads s i) \<Longrightarrow>
   unix_refused (ur_reads t i)"
proof (induction rule: rtranclp_induct)
  case (step t u)
  then show ?case using unix_steps_signal_ready unix_step_refused by blast
qed

text \<open>The turn of the loop after a cancel throws, whether or not there is data as well.\<close>

lemma unix_select_turn_cancelled:
  "signal_ready s \<Longrightarrow>
   ur_reads (unix_select_turn i n Select_ready s) i = U_threw Cancelled_exception"
  by (simp add: set_uread_def)

section \<open>A read that is past its select\<close>

text \<open>
  Inside \<^verbatim>\<open>fread\<close> nobody looks at the signal pipe: without the writer, a read that has got less
  than it asked for stays where it is, whatever is cancelled.
\<close>

definition unix_stuck :: "nat \<Rightarrow> nat \<Rightarrow> unix_impl \<Rightarrow> bool" where
  "unix_stuck i n s \<longleftrightarrow> ur_reads s i = U_reading n \<and> ur_data s < n \<and> \<not> ur_closed s"

lemma unix_select_turn_stuck:
  "ur_reads s k = U_selecting m \<Longrightarrow> unix_stuck i n s \<Longrightarrow> unix_stuck i n (unix_select_turn k m r s)"
  by (cases r) (auto simp: unix_stuck_def unix_ops)

lemma unix_step_stuck: "unix_step False s t \<Longrightarrow> unix_stuck i n s \<Longrightarrow> unix_stuck i n t"
  by (erule unix_stepE)
    (auto simp: unix_select_turn_stuck, auto simp: unix_stuck_def unix_ops)

lemma unix_steps_stuck: "(unix_step False)\<^sup>*\<^sup>* s t \<Longrightarrow> unix_stuck i n s \<Longrightarrow> unix_stuck i n t"
  by (induction rule: rtranclp_induct) (auto dest: unix_step_stuck)

section \<open>Cancelling does not wake a read\<close>

text \<open>
  Unix: a read that has come past its \<^verbatim>\<open>select\<close> is inside \<^verbatim>\<open>fread\<close>. If it gets less than it
  asks for, no number of calls of \<^verbatim>\<open>cancel\<close> makes it return, as long as the other end of the pipe
  neither writes nor closes.
\<close>

lemma unix_cancel_does_not_wake_fread:
  assumes "ur_reads s i = U_reading n" and "ur_data s < n" and "\<not> ur_closed s"
    and "(unix_step False)\<^sup>*\<^sup>* s t"
  shows "ur_reads t i = U_reading n \<and>
    (unix_step False)\<^sup>*\<^sup>* s ((unix_cancel ^^ k) s) \<and> signal_ready ((unix_cancel ^^ Suc k) s)"
proof -
  have "unix_stuck i n t"
    using unix_steps_stuck [OF assms(4)] assms(1-3) by (simp add: unix_stuck_def)
  moreover have "(unix_step False)\<^sup>*\<^sup>* s ((unix_cancel ^^ k) s)"
    by (induction k) (auto intro: rtranclp.rtrancl_into_rtrancl unix_step.cancel)
  ultimately show ?thesis by (simp add: unix_stuck_def signal_ready_def unix_cancel_def)
qed

text \<open>
  After a call of \<^verbatim>\<open>cancel\<close> a read that has not come past its \<^verbatim>\<open>select\<close> never does, and the next time
  \<^verbatim>\<open>select\<close> reports it throws, data or no data.
\<close>

lemma unix_cancel_refuses:
  assumes "(unix_step writer)\<^sup>*\<^sup>* (unix_cancel s) t" and "unix_refused (ur_reads s i)"
  shows "unix_refused (ur_reads t i) \<and>
    ur_reads (unix_select_turn i n Select_ready t) i = U_threw Cancelled_exception"
proof -
  have start: "signal_ready (unix_cancel s)" "unix_refused (ur_reads (unix_cancel s) i)"
    using assms(2) by (simp_all add: signal_ready_def unix_cancel_def)
  show ?thesis
    using unix_steps_refused [OF assms(1) start]
      unix_select_turn_cancelled [OF unix_steps_signal_ready [OF assms(1) start(1)]] by blast
qed

end
