(* ===== verification/Std_Map.thy ===== *)
theory Std_Map
  imports Prelude
begin

text \<open>
  \<^verbatim>\<open>std::map\<close> as the sessions use it, with the identity of its nodes: an element is a node, a key
  and a value, in ascending order of the keys. An iterator is the number of a node, or \<open>None\<close>
  for the end. Inserting under a key that is taken inserts nothing and returns the iterator
  to the element that is there; erasing an iterator whose node is gone is undefined behaviour,
  here \<open>None\<close>. Numbers for new nodes come from the caller.
\<close>

type_synonym ('k, 'v) smap = "(nat \<times> 'k \<times> 'v) list"

fun smap_insert :: "nat \<Rightarrow> 'k::linorder \<Rightarrow> 'v \<Rightarrow> ('k, 'v) smap \<Rightarrow> ('k, 'v) smap \<times> nat" where
  "smap_insert n k v [] = ([(n, k, v)], n)"
| "smap_insert n k v ((n', k', v') # m) =
     (if k < k' then ((n, k, v) # (n', k', v') # m, n)
      else if k = k' then ((n', k', v') # m, n')
      else (let (m', i) = smap_insert n k v m in ((n', k', v') # m', i)))"

fun smap_find :: "'k \<Rightarrow> ('k, 'v) smap \<Rightarrow> (nat \<times> 'v) option" where
  "smap_find k [] = None"
| "smap_find k ((n', k', v') # m) = (if k = k' then Some (n', v') else smap_find k m)"

definition smap_nodes :: "('k, 'v) smap \<Rightarrow> nat set" where
  "smap_nodes m = fst ` set m"

definition smap_erase :: "nat \<Rightarrow> ('k, 'v) smap \<Rightarrow> ('k, 'v) smap option" where
  "smap_erase n m =
     (if n \<in> smap_nodes m then Some (filter (\<lambda>e. fst e \<noteq> n) m) else None)"

text \<open>The first element whose key is not less than \<open>k\<close>, and the first whose key is greater.\<close>

fun smap_lower_bound :: "'k::linorder \<Rightarrow> ('k, 'v) smap \<Rightarrow> nat option" where
  "smap_lower_bound k [] = None"
| "smap_lower_bound k ((n', k', v') # m) = (if k' < k then smap_lower_bound k m else Some n')"

fun smap_upper_bound :: "'k::linorder \<Rightarrow> ('k, 'v) smap \<Rightarrow> nat option" where
  "smap_upper_bound k [] = None"
| "smap_upper_bound k ((n', k', v') # m) = (if k < k' then Some n' else smap_upper_bound k m)"

text \<open>Keys ascend strictly and no two elements are the same node.\<close>

definition smap_inv :: "('k::linorder, 'v) smap \<Rightarrow> bool" where
  [inv_defs]: "smap_inv m \<longleftrightarrow> sorted_wrt (<) (map (fst \<circ> snd) m) \<and> distinct (map fst m)"

text \<open>The mapping of keys to values that a map holds.\<close>

definition smap_lookup :: "('k, 'v) smap \<Rightarrow> 'k \<Rightarrow> 'v option" where
  "smap_lookup m = map_of (map snd m)"

section \<open>The contract\<close>

text \<open>
  What the sessions rely on: a node map, whose insertion hands out the node that keeps the
  element and whose erasure undoes it, once.
\<close>

locale node_map =
  fixes insert_at :: "nat \<Rightarrow> 'k \<Rightarrow> 'v \<Rightarrow> 'm \<Rightarrow> 'm \<times> nat"
    and erase_at :: "nat \<Rightarrow> 'm \<Rightarrow> 'm option"
    and lookup :: "'m \<Rightarrow> 'k \<Rightarrow> 'v option"
    and nodes :: "'m \<Rightarrow> nat set"
    and inv :: "'m \<Rightarrow> bool"
  assumes insert_inv: "inv m \<Longrightarrow> n \<notin> nodes m \<Longrightarrow> inv (fst (insert_at n k v m))"
    and insert_fresh: "lookup m k = None \<Longrightarrow> n \<notin> nodes m \<Longrightarrow> inv m \<Longrightarrow>
      snd (insert_at n k v m) = n \<and> lookup (fst (insert_at n k v m)) = (lookup m)(k \<mapsto> v) \<and>
      nodes (fst (insert_at n k v m)) = insert n (nodes m)"
    and insert_taken: "lookup m k \<noteq> None \<Longrightarrow> inv m \<Longrightarrow>
      fst (insert_at n k v m) = m \<and> snd (insert_at n k v m) \<in> nodes m"
    and erase_inserted: "lookup m k = None \<Longrightarrow> n \<notin> nodes m \<Longrightarrow> inv m \<Longrightarrow>
      erase_at n (fst (insert_at n k v m)) = Some m"
    and erase_None: "erase_at n m = None \<longleftrightarrow> n \<notin> nodes m"
    and erase_nodes: "erase_at n m = Some m' \<Longrightarrow> nodes m' = nodes m - {n}"
begin

text \<open>Two erasures of one iterator: the second is undefined.\<close>

lemma erase_twice: "erase_at n m = Some m' \<Longrightarrow> erase_at n m' = None"
  by (simp add: erase_None erase_nodes)

text \<open>
  Two insertions under one key give one node to two owners: the value of the first is kept, and
  when one of the owners has erased it the other cannot.
\<close>

lemma insert_twice:
  fixes m k n v
  assumes "inv m" and "lookup m k = None" and "n \<notin> nodes m"
  defines "m1 \<equiv> fst (insert_at n k v m)"
  shows "fst (insert_at n' k v' m1) = m1 \<and> lookup m1 k = Some v \<and>
    (\<forall>m2. erase_at n m1 = Some m2 \<longrightarrow> erase_at n m2 = None)"
proof -
  have "lookup m1 k = Some v" and "inv m1"
    using insert_fresh [of m k n v] insert_inv [of m n k v] assms by (simp_all add: m1_def)
  with insert_taken [of m1 k n' v'] erase_twice show ?thesis by auto
qed

end

section \<open>The list implements it\<close>

lemma smap_lookup_simps [simp]:
  "smap_lookup [] k = None"
  "smap_lookup ((n', k', v') # m) k = (if k = k' then Some v' else smap_lookup m k)"
  by (simp_all add: smap_lookup_def)

lemma smap_nodes_simps [simp]:
  "smap_nodes [] = {}"
  "smap_nodes ((n', k', v') # m) = insert n' (smap_nodes m)"
  by (simp_all add: smap_nodes_def)

lemma smap_inv_Nil [simp]: "smap_inv []"
  by (simp add: smap_inv_def)

lemma smap_inv_Cons:
  "smap_inv ((n', k', v') # m) \<longleftrightarrow>
     smap_inv m \<and> n' \<notin> smap_nodes m \<and> (\<forall>(n, k, v) \<in> set m. k' < k)"
  by (auto simp: smap_inv_def smap_nodes_def)

lemma smap_find_lookup: "map_option snd (smap_find k m) = smap_lookup m k"
  by (induction k m rule: smap_find.induct) auto

lemma smap_find_None: "smap_find k m = None \<longleftrightarrow> smap_lookup m k = None"
  by (simp flip: smap_find_lookup)

lemma smap_find_SomeD: "smap_find k m = Some (n, v) \<Longrightarrow> smap_lookup m k = Some v"
  by (simp flip: smap_find_lookup)

lemma smap_lookup_Some: "smap_lookup m k = Some v \<Longrightarrow> \<exists>n. (n, k, v) \<in> set m"
  by (induction m) (auto split: if_splits)

lemma smap_lookup_None: "smap_lookup m k = None \<longleftrightarrow> k \<notin> (fst \<circ> snd) ` set m"
  by (simp add: smap_lookup_def map_of_eq_None_iff image_comp)

lemma smap_lookup_in:
  "smap_inv m \<Longrightarrow> (n, k, v) \<in> set m \<Longrightarrow> smap_lookup m k = Some v"
  by (induction m) (auto simp: smap_inv_Cons)

lemma set_smap_insert:
  "smap_lookup m k = None \<Longrightarrow> set (fst (smap_insert n k v m)) = insert (n, k, v) (set m)"
  by (induction n k v m rule: smap_insert.induct) (auto simp: split_beta Let_def split: if_splits)

lemma smap_insert_taken:
  "smap_lookup m k \<noteq> None \<Longrightarrow> smap_inv m \<Longrightarrow>
   fst (smap_insert n k v m) = m \<and> snd (smap_insert n k v m) \<in> smap_nodes m"
proof (induction n k v m rule: smap_insert.induct)
  case (2 n k v n' k' v' m)
  have "\<not> k < k'"
  proof
    assume less: "k < k'"
    with "2.prems" obtain v'' where "smap_lookup m k = Some v''" by (auto split: if_splits)
    from smap_lookup_Some [OF this] obtain n'' where "(n'', k, v'') \<in> set m" by (rule exE)
    with "2.prems" less show False by (auto simp: smap_inv_Cons)
  qed
  with 2 show ?case by (auto simp: split_beta Let_def smap_inv_Cons split: if_splits)
qed simp

lemma smap_key_unique:
  "smap_inv m \<Longrightarrow> (n, k, v) \<in> set m \<Longrightarrow> (n', k, v') \<in> set m \<Longrightarrow> n = n' \<and> v = v'"
  by (induction m) (auto simp: smap_inv_Cons)

text \<open>Inserting under a key that is taken gives the node that has it.\<close>

lemma smap_find_unique: "smap_inv m \<Longrightarrow> (n, k, v) \<in> set m \<Longrightarrow> smap_find k m = Some (n, v)"
  by (induction m) (force simp: smap_inv_Cons)+

lemma smap_insert_taken_eq:
  "smap_inv m \<Longrightarrow> (n, k, v) \<in> set m \<Longrightarrow> smap_insert n' k v' m = (m, n)"
proof (induction m)
  case (Cons e m)
  obtain n1 k1 v1 where e: "e = (n1, k1, v1)" by (cases e)
  show ?case
  proof (cases "(n, k, v) = e")
    case False
    with Cons.prems have "k1 < k" "(n, k, v) \<in> set m" by (auto simp: e smap_inv_Cons)
    with Cons show ?thesis by (auto simp: e smap_inv_Cons)
  qed (simp add: e)
qed simp

lemma smap_insert_inv:
  "smap_inv m \<Longrightarrow> n \<notin> smap_nodes m \<Longrightarrow> smap_inv (fst (smap_insert n k v m))"
proof (cases "smap_lookup m k = None")
  case True
  assume "smap_inv m" "n \<notin> smap_nodes m"
  with True show ?thesis
  proof (induction n k v m rule: smap_insert.induct)
    case (2 n k v n' k' v' m)
    consider "k < k'" | "k' < k" using "2.prems"(1) by (auto split: if_splits) (metis linorder_less_linear)
    then show ?case
    proof cases
      case 1
      then show ?thesis using "2.prems" by (auto simp: smap_inv_Cons dest: order.strict_trans)
    next
      case 2
      then have "smap_inv (fst (smap_insert n k v m))"
        using "2.IH" "2.prems" by (auto simp: smap_inv_Cons split: if_splits)
      moreover have "smap_lookup m k = None" using "2.prems" by (simp split: if_splits)
      moreover note set_smap_insert [OF this, of n v]
      ultimately show ?thesis
        using 2 "2.prems" by (auto simp: smap_inv_Cons split_beta Let_def smap_nodes_def)
    qed
  qed (simp add: smap_inv_Cons)
next
  case False
  assume "smap_inv m"
  with False show ?thesis by (simp add: smap_insert_taken)
qed

lemma smap_insert_fresh:
  "smap_lookup m k = None \<Longrightarrow> snd (smap_insert n k v m) = n"
  by (induction n k v m rule: smap_insert.induct) (auto simp: split_beta Let_def split: if_splits)

lemma smap_insert_lookup:
  "smap_lookup m k = None \<Longrightarrow> smap_lookup (fst (smap_insert n k v m)) = (smap_lookup m)(k \<mapsto> v)"
  by (induction n k v m rule: smap_insert.induct)
     (auto simp: split_beta Let_def fun_eq_iff split: if_splits)

lemma smap_insert_nodes:
  "smap_lookup m k = None \<Longrightarrow> smap_nodes (fst (smap_insert n k v m)) = insert n (smap_nodes m)"
  by (induction n k v m rule: smap_insert.induct) (auto simp: split_beta Let_def split: if_splits)

lemma smap_filter_other:
  "n \<notin> smap_nodes m \<Longrightarrow> filter (\<lambda>e. fst e \<noteq> n) m = m"
  by (induction m) auto

lemma smap_erase_inserted:
  "smap_lookup m k = None \<Longrightarrow> n \<notin> smap_nodes m \<Longrightarrow>
   filter (\<lambda>e. fst e \<noteq> n) (fst (smap_insert n k v m)) = m"
  by (induction n k v m rule: smap_insert.induct)
     (auto simp: split_beta Let_def smap_filter_other split: if_splits)

lemma smap_filter_nodes:
  "smap_nodes (filter (\<lambda>e. fst e \<noteq> n) m) = smap_nodes m - {n}"
  by (force simp: smap_nodes_def)

lemma smap_filter_inv: "smap_inv m \<Longrightarrow> smap_inv (filter P m)"
proof (induction m)
  case (Cons e m)
  obtain n' k' v' where e: "e = (n', k', v')" by (cases e)
  have "smap_nodes (filter P m) \<subseteq> smap_nodes m" by (auto simp: smap_nodes_def)
  with Cons show ?case by (auto simp: e smap_inv_Cons)
qed simp

interpretation smap: node_map smap_insert smap_erase smap_lookup smap_nodes smap_inv
proof unfold_locales
  fix m :: "('k::linorder, 'v) smap" and k :: 'k and n and v :: 'v
  assume "smap_lookup m k = None" "n \<notin> smap_nodes m" "smap_inv m"
  then show "smap_erase n (fst (smap_insert n k v m)) = Some m"
    by (simp add: smap_erase_def smap_insert_nodes smap_erase_inserted)
qed (simp_all add: smap_insert_inv smap_insert_fresh smap_insert_lookup smap_insert_nodes
    smap_insert_taken smap_erase_def split: if_splits, auto simp: smap_filter_nodes)

section \<open>Ranges of keys\<close>

lemma smap_lower_bound_in: "smap_lower_bound k m = Some n \<Longrightarrow> n \<in> smap_nodes m"
  by (induction k m rule: smap_lower_bound.induct) (auto split: if_splits)

lemma smap_upper_bound_in: "smap_upper_bound k m = Some n \<Longrightarrow> n \<in> smap_nodes m"
  by (induction k m rule: smap_upper_bound.induct) (auto split: if_splits)

text \<open>Two bounds differ if and only if a key lies between them.\<close>

lemma smap_bounds_differ:
  assumes "smap_inv m" and "lo \<le> hi"
  shows "smap_lower_bound lo m \<noteq> smap_upper_bound hi m \<longleftrightarrow>
    (\<exists>k. lo \<le> k \<and> k \<le> hi \<and> smap_lookup m k \<noteq> None)"
  using assms(1)
proof (induction m)
  case (Cons e m)
  obtain n' k' v' where e: "e = (n', k', v')" by (cases e)
  from Cons.prems have above: "\<And>k. smap_lookup m k \<noteq> None \<Longrightarrow> k' < k"
    using smap_lookup_Some by (fastforce simp: e smap_inv_Cons)
  have fresh: "smap_upper_bound hi m \<noteq> Some n'"
    using Cons.prems smap_upper_bound_in [of hi m n'] by (auto simp: e smap_inv_Cons)
  consider "k' < lo" | "lo \<le> k'" "k' \<le> hi" | "hi < k'" by force
  then show ?case
  proof cases
    case 1
    with Cons assms(2) show ?thesis by (auto simp: e smap_inv_Cons)
  next
    case 2
    with fresh show ?thesis by (auto simp: e)
  next
    case 3
    then have "smap_lookup m k = None" if "k \<le> hi" for k
      using above [of k] that by (cases "smap_lookup m k") auto
    with 3 assms(2) show ?thesis by (auto simp: e)
  qed
qed simp

end
