(* ===== verification/Codec.thy ===== *)
theory Codec
  imports Byte_Representation Buffers
begin

text \<open>
  The serialization that \<^verbatim>\<open>coipc/strmd/serialization.h\<close> names is a library of its own (\<^verbatim>\<open>strmd\<close>,
  a submodule): how an id and a token are written and read back is an argument of the session
  models. What the sessions rely on is \<open>codec_ok\<close>: reading what was written gives it back and
  leaves what follows. Message ids are values of the C type \<^verbatim>\<open>int\<close>.
\<close>

record codec =
  enc_id :: "int \<Rightarrow> bytes"
  enc_token :: "u64 \<Rightarrow> bytes"
  dec_id :: "bytes \<Rightarrow> exn + int \<times> bytes"
  dec_token :: "bytes \<Rightarrow> exn + u64 \<times> bytes"

definition int32 :: "int \<Rightarrow> bool" where
  "int32 i \<longleftrightarrow> - (2 ^ 31) \<le> i \<and> i < 2 ^ 31"

definition codec_ok :: "codec \<Rightarrow> bool" where
  "codec_ok cd \<longleftrightarrow>
     (\<forall>i rest. int32 i \<longrightarrow> dec_id cd (enc_id cd i @ rest) = Inr (i, rest)) \<and>
     (\<forall>t rest. dec_token cd (enc_token cd t @ rest) = Inr (t, rest))"

lemma codec_id: "codec_ok cd \<Longrightarrow> int32 i \<Longrightarrow> dec_id cd (enc_id cd i @ rest) = Inr (i, rest)"
  by (simp add: codec_ok_def)

lemma codec_token: "codec_ok cd \<Longrightarrow> dec_token cd (enc_token cd t @ rest) = Inr (t, rest)"
  by (simp add: codec_ok_def)

text \<open>
  An instance with which statements about sessions can be tried: fixed-width little-endian
  fields, read through the promise of the buffer reader.
\<close>

definition fixed_codec :: codec where
  "fixed_codec = \<lparr>
     enc_id = (\<lambda>i. le_bytes 4 (nat (i mod 2 ^ 32))),
     enc_token = (\<lambda>t. le_bytes 8 (unat t)),
     dec_id = (\<lambda>bs. bind_result (read_spec 4 bs) (\<lambda>(b, rest).
       Inr (if le_value b < 2 ^ 31 then int (le_value b) else int (le_value b) - 2 ^ 32, rest))),
     dec_token = (\<lambda>bs. bind_result (read_spec 8 bs) (\<lambda>(b, rest).
       Inr (word_of_nat (le_value b), rest)))\<rparr>"

lemma read_spec_append: "length bs = n \<Longrightarrow> read_spec n (bs @ rest) = Inr (bs, rest)"
  by (simp add: read_spec_def)

lemma fixed_codec_ok: "codec_ok fixed_codec"
proof -
  have id: "dec_id fixed_codec (enc_id fixed_codec i @ rest) = Inr (i, rest)" if "int32 i" for i rest
  proof (cases "0 \<le> i")
    case True
    with that show ?thesis
      by (simp add: fixed_codec_def read_spec_append wire int32_def del: le_bytes_numeral)
  next
    case False
    with that have "(i + 2 ^ 32) mod 2 ^ 32 = i + 2 ^ 32"
      by (intro mod_pos_pos_trivial) (simp_all add: int32_def)
    then have "i mod 2 ^ 32 = i + 2 ^ 32" by simp
    with False that show ?thesis
      by (simp add: fixed_codec_def read_spec_append wire int32_def del: le_bytes_numeral)
  qed
  have "unat t < 256 ^ 8" for t :: u64
    using unat_size_less [of t] by simp
  then have token: "dec_token fixed_codec (enc_token fixed_codec t @ rest) = Inr (t, rest)" for t rest
    by (simp add: fixed_codec_def read_spec_append wire del: le_bytes_numeral)
  from id token show ?thesis by (simp add: codec_ok_def)
qed

end
