(* ===== verification/Client_Session.thy ===== *)
theory Client_Session
  imports Std_Map Codec Framing
begin

text \<open>
  \<^verbatim>\<open>strmd::client_session\<close> (\<^verbatim>\<open>coipc/strmd/client_session.h\<close>, \<^verbatim>\<open>src/strmd/client_session.cpp\<close>).
  The user's callbacks are values of a type \<open>'cb\<close>; an invocation is recorded in \<open>cs_calls\<close> with
  the bytes it is left to deserialize. The \<^verbatim>\<open>shared_ptr<void>\<close> handles the user passes in are
  numbered; the value of a handle is the list of the deleters that run when it is released, the
  empty list being the null pointer. A handle has one owner. Payloads are already serialized.
\<close>

text \<open>\<^verbatim>\<open>std::pair<int, token_t>\<close>, ordered as pairs are.\<close>

datatype cb_key = Cb_key (key_response: int) (key_token: u64)

instantiation cb_key :: linorder
begin

definition less_eq_cb_key :: "cb_key \<Rightarrow> cb_key \<Rightarrow> bool" where
  "less_eq_cb_key a b \<longleftrightarrow> key_response a < key_response b \<or>
     key_response a = key_response b \<and> key_token a \<le> key_token b"

definition less_cb_key :: "cb_key \<Rightarrow> cb_key \<Rightarrow> bool" where
  "less_cb_key a b \<longleftrightarrow> key_response a < key_response b \<or>
     key_response a = key_response b \<and> key_token a < key_token b"

instance
  by standard (auto simp: less_eq_cb_key_def less_cb_key_def cb_key.expand)

end

datatype deleter = Erase_callback nat | Erase_message_callback nat

record 'cb client_session =
  cs_buffer :: bytes
  cs_token :: u64
  cs_callbacks :: "(cb_key, 'cb) smap"
  cs_message_callbacks :: "(int, 'cb) smap"
  cs_next_node :: nat
  cs_handles :: "nat \<Rightarrow> deleter list"
  cs_calls :: "('cb \<times> bytes) list"
  cs_outbound_log :: "channel_event list"

definition client_ctor :: "'cb client_session" where
  "client_ctor = \<lparr>cs_buffer = [], cs_token = 1, cs_callbacks = [], cs_message_callbacks = [],
     cs_next_node = 0, cs_handles = (\<lambda>_. []), cs_calls = [], cs_outbound_log = []\<rparr>"

text \<open>
  The other constructor: the connection is made by a function that is given the session as it is by
  then, and whose threads may deliver messages to it before the constructor is over.
\<close>

definition client_ctor_connect ::
    "('cb client_session \<Rightarrow> exn + 'cb client_session) \<Rightarrow> exn + 'cb client_session" where
  "client_ctor_connect connection_factory = connection_factory client_ctor"

text \<open>The outbound channel that only records.\<close>

definition log_outbound :: "'cb client_session channel" where
  "log_outbound = \<lparr>
     ch_disconnect = (\<lambda>c. c\<lparr>cs_outbound_log := cs_outbound_log c @ [Disconnect]\<rparr>),
     ch_message = (\<lambda>c m. Inr (c\<lparr>cs_outbound_log := cs_outbound_log c @ [Message m]\<rparr>))\<rparr>"

section \<open>Handles\<close>

fun run_deleter :: "deleter \<Rightarrow> 'cb client_session \<Rightarrow> fault + 'cb client_session" where
  "run_deleter (Erase_callback n) c =
     (case smap_erase n (cs_callbacks c) of
        None \<Rightarrow> Inl Undefined_behaviour
      | Some m \<Rightarrow> Inr (c\<lparr>cs_callbacks := m\<rparr>))"
| "run_deleter (Erase_message_callback n) c =
     (case smap_erase n (cs_message_callbacks c) of
        None \<Rightarrow> Inl Undefined_behaviour
      | Some m \<Rightarrow> Inr (c\<lparr>cs_message_callbacks := m\<rparr>))"

fun run_deleters :: "deleter list \<Rightarrow> 'cb client_session \<Rightarrow> fault + 'cb client_session" where
  "run_deleters [] c = Inr c"
| "run_deleters (d # ds) c = bind_result (run_deleter d c) (run_deleters ds)"

definition set_handle :: "nat \<Rightarrow> deleter list \<Rightarrow> 'cb client_session \<Rightarrow> 'cb client_session" where
  "set_handle h ds c = c\<lparr>cs_handles := (cs_handles c)(h := ds)\<rparr>"

text \<open>\<^verbatim>\<open>handle.reset(pointer, deleter)\<close>: the new value is in place when the old deleters run.\<close>

definition reset_handle :: "nat \<Rightarrow> deleter \<Rightarrow> 'cb client_session \<Rightarrow> fault + 'cb client_session" where
  "reset_handle h d c = run_deleters (cs_handles c h) (set_handle h [d] c)"

text \<open>\<^verbatim>\<open>handle.reset()\<close>, by the user.\<close>

definition release_handle :: "nat \<Rightarrow> 'cb client_session \<Rightarrow> fault + 'cb client_session" where
  "release_handle h c = run_deleters (cs_handles c h) (set_handle h [] c)"

section \<open>Operations\<close>

definition insert_callback :: "cb_key \<Rightarrow> 'cb \<Rightarrow> 'cb client_session \<Rightarrow> 'cb client_session \<times> nat" where
  "insert_callback k cb c =
     (let (m, i) = smap_insert (cs_next_node c) k cb (cs_callbacks c)
      in (c\<lparr>cs_callbacks := m, cs_next_node := cs_next_node c + 1\<rparr>, i))"

definition insert_message_callback :: "int \<Rightarrow> 'cb \<Rightarrow> 'cb client_session \<Rightarrow> 'cb client_session \<times> nat"
  where
  "insert_message_callback k cb c =
     (let (m, i) = smap_insert (cs_next_node c) k cb (cs_message_callbacks c)
      in (c\<lparr>cs_message_callbacks := m, cs_next_node := cs_next_node c + 1\<rparr>, i))"

definition subscribe :: "nat \<Rightarrow> int \<Rightarrow> 'cb \<Rightarrow> 'cb client_session \<Rightarrow> fault + 'cb client_session" where
  "subscribe h message_id callback c =
     (let (c1, i) = insert_message_callback message_id callback c
      in reset_handle h (Erase_message_callback i) c1)"

text \<open>
  \<^verbatim>\<open>request_internal\<close> up to the call of the outbound channel, and with it. The channel is given a range
  over the one buffer of the session.
\<close>

definition request_prepare ::
  "codec \<Rightarrow> int \<Rightarrow> bytes \<Rightarrow> (u64 \<Rightarrow> 'cb client_session \<Rightarrow> fault + 'cb client_session) \<Rightarrow>
   'cb client_session \<Rightarrow> fault + 'cb client_session" where
  "request_prepare cd request_id payload callback_ctor c =
     (let token = cs_token c;
          c1 = c\<lparr>cs_buffer := enc_id cd request_id @ enc_token cd token @ payload, cs_token := token + 1\<rparr>
      in callback_ctor token c1)"

definition request_internal ::
  "codec \<Rightarrow> 'cb client_session channel \<Rightarrow> int \<Rightarrow> bytes \<Rightarrow>
   (u64 \<Rightarrow> 'cb client_session \<Rightarrow> fault + 'cb client_session) \<Rightarrow>
   'cb client_session \<Rightarrow> fault + 'cb client_session" where
  "request_internal cd outbound request_id payload callback_ctor c =
     bind_result (request_prepare cd request_id payload callback_ctor c)
       (\<lambda>c2. lift_exn (ch_message outbound c2 (cs_buffer c2)))"

definition request_ctor ::
    "nat \<Rightarrow> int \<Rightarrow> 'cb \<Rightarrow> u64 \<Rightarrow> 'cb client_session \<Rightarrow> fault + 'cb client_session" where
  "request_ctor h response_id callback token c =
     (let (c1, i) = insert_callback (Cb_key response_id token) callback c
      in reset_handle h (Erase_callback i) c1)"

definition request ::
  "codec \<Rightarrow> 'cb client_session channel \<Rightarrow> nat \<Rightarrow> int \<Rightarrow> bytes \<Rightarrow> int \<Rightarrow> 'cb \<Rightarrow>
   'cb client_session \<Rightarrow> fault + 'cb client_session" where
  "request cd outbound h request_id payload response_id callback =
     request_internal cd outbound request_id payload (request_ctor h response_id callback)"

text \<open>The loop over several responses: the first takes over an empty handle, the others chain.\<close>

fun request_multi_ctor ::
  "nat \<Rightarrow> (int \<times> 'cb) list \<Rightarrow> u64 \<Rightarrow> 'cb client_session \<Rightarrow> fault + 'cb client_session" where
  "request_multi_ctor h [] token c = Inr c"
| "request_multi_ctor h ((response_id, callback) # rest) token c =
     (let (c1, j) = insert_callback (Cb_key response_id token) callback c
      in if cs_handles c1 h \<noteq> []
         then request_multi_ctor h rest token (set_handle h (Erase_callback j # cs_handles c1 h) c1)
         else bind_result (reset_handle h (Erase_callback j) c1) (request_multi_ctor h rest token))"

definition request_multi ::
  "codec \<Rightarrow> 'cb client_session channel \<Rightarrow> nat \<Rightarrow> int \<Rightarrow> bytes \<Rightarrow> (int \<times> 'cb) list \<Rightarrow>
   'cb client_session \<Rightarrow> fault + 'cb client_session" where
  "request_multi cd outbound h request_id payload callbacks =
     request_internal cd outbound request_id payload (request_multi_ctor h callbacks)"

definition invoke :: "'cb \<Rightarrow> bytes \<Rightarrow> 'cb client_session \<Rightarrow> 'cb client_session" where
  "invoke cb d c = c\<lparr>cs_calls := cs_calls c @ [(cb, d)]\<rparr>"

definition client_message :: "codec \<Rightarrow> 'cb client_session \<Rightarrow> bytes \<Rightarrow> exn + 'cb client_session" where
  "client_message cd c payload =
     bind_result (dec_id cd payload) (\<lambda>(response_id, d).
       case smap_find response_id (cs_message_callbacks c) of
         Some (_, cb) \<Rightarrow> Inr (invoke cb d c)
       | None \<Rightarrow>
           if smap_lower_bound (Cb_key response_id 0) (cs_callbacks c)
              \<noteq> smap_upper_bound (Cb_key response_id (- 1)) (cs_callbacks c)
           then bind_result (dec_token cd d) (\<lambda>(token, d2).
             case smap_find (Cb_key response_id token) (cs_callbacks c) of
               Some (_, cb) \<Rightarrow> Inr (invoke cb d2 c)
             | None \<Rightarrow> Inr c)
           else Inr c)"

definition client_disconnect :: "'cb client_session \<Rightarrow> 'cb client_session" where
  "client_disconnect c = c"

definition disconnect_session ::
    "'cb client_session channel \<Rightarrow> 'cb client_session \<Rightarrow> 'cb client_session" where
  "disconnect_session outbound c = ch_disconnect outbound c"

section \<open>Ownership\<close>

text \<open>
  Each element of the two maps is owned by one deleter of one handle, and each deleter owns an
  element: so releasing a handle never erases what is gone.
\<close>

definition owned :: "'cb client_session \<Rightarrow> deleter set" where
  "owned c = Erase_callback ` smap_nodes (cs_callbacks c) \<union>
     Erase_message_callback ` smap_nodes (cs_message_callbacks c)"

definition partitions :: "(nat \<Rightarrow> 'd list) \<Rightarrow> 'd set \<Rightarrow> bool" where
  "partitions H S \<longleftrightarrow>
     (\<forall>h. distinct (H h)) \<and>
     (\<forall>h h' d. d \<in> set (H h) \<longrightarrow> d \<in> set (H h') \<longrightarrow> h = h') \<and>
     (\<forall>d. d \<in> S \<longleftrightarrow> (\<exists>h. d \<in> set (H h)))"

definition handles_ok :: "'cb client_session \<Rightarrow> bool" where
  "handles_ok c \<longleftrightarrow> partitions (cs_handles c) (owned c)"

text \<open>The maps are maps, their nodes have been numbered and their tokens have been drawn.\<close>

definition maps_ok :: "'cb client_session \<Rightarrow> bool" where
  "maps_ok c \<longleftrightarrow>
     smap_inv (cs_callbacks c) \<and> smap_inv (cs_message_callbacks c) \<and>
     (\<forall>n \<in> smap_nodes (cs_callbacks c). n < cs_next_node c) \<and>
     (\<forall>n \<in> smap_nodes (cs_message_callbacks c). n < cs_next_node c) \<and>
     (\<forall>(n, k, v) \<in> set (cs_callbacks c). key_token k < cs_token c)"

definition client_inv :: "'cb client_session \<Rightarrow> bool" where
  [inv_defs]: "client_inv c \<longleftrightarrow> maps_ok c \<and> handles_ok c"

text \<open>The state without the elements that some deleters own.\<close>

definition drop_owned :: "deleter list \<Rightarrow> 'cb client_session \<Rightarrow> 'cb client_session" where
  "drop_owned ds c = c\<lparr>
     cs_callbacks := filter (\<lambda>e. Erase_callback (fst e) \<notin> set ds) (cs_callbacks c),
     cs_message_callbacks :=
       filter (\<lambda>e. Erase_message_callback (fst e) \<notin> set ds) (cs_message_callbacks c)\<rparr>"

lemma drop_owned_Nil [simp]: "drop_owned [] c = c"
  by (simp add: drop_owned_def)

lemma drop_owned_Cons: "drop_owned (d # ds) c = drop_owned ds (drop_owned [d] c)"
  by (simp add: drop_owned_def filter_filter split_beta)

lemma drop_owned_frame [simp]:
  "cs_buffer (drop_owned ds c) = cs_buffer c"
  "cs_token (drop_owned ds c) = cs_token c"
  "cs_next_node (drop_owned ds c) = cs_next_node c"
  "cs_handles (drop_owned ds c) = cs_handles c"
  "cs_calls (drop_owned ds c) = cs_calls c"
  "cs_outbound_log (drop_owned ds c) = cs_outbound_log c"
  by (simp_all add: drop_owned_def)

lemma owned_drop_owned: "owned (drop_owned ds c) = owned c - set ds"
  by (force simp: owned_def drop_owned_def smap_nodes_def)

lemma run_deleter_owned: "d \<in> owned c \<Longrightarrow> run_deleter d c = Inr (drop_owned [d] c)"
  by (cases d) (auto simp: owned_def smap_erase_def drop_owned_def split_beta)

lemma run_deleter_gone: "d \<notin> owned c \<Longrightarrow> run_deleter d c = Inl Undefined_behaviour"
  by (cases d) (auto simp: owned_def smap_erase_def)

lemma run_deleters_owned:
  "distinct ds \<Longrightarrow> set ds \<subseteq> owned c \<Longrightarrow> run_deleters ds c = Inr (drop_owned ds c)"
proof (induction ds arbitrary: c)
  case (Cons d ds)
  then have "set ds \<subseteq> owned (drop_owned [d] c)" by (auto simp: owned_drop_owned)
  with Cons show ?case by (simp add: run_deleter_owned drop_owned_Cons [of d ds])
qed simp

lemma set_handle_frame [simp]:
  "cs_callbacks (set_handle h ds c) = cs_callbacks c"
  "cs_message_callbacks (set_handle h ds c) = cs_message_callbacks c"
  "cs_token (set_handle h ds c) = cs_token c"
  "cs_buffer (set_handle h ds c) = cs_buffer c"
  "cs_next_node (set_handle h ds c) = cs_next_node c"
  "cs_calls (set_handle h ds c) = cs_calls c"
  "cs_outbound_log (set_handle h ds c) = cs_outbound_log c"
  "cs_handles (set_handle h ds c) = (cs_handles c)(h := ds)"
  "owned (set_handle h ds c) = owned c"
  by (simp_all add: set_handle_def owned_def)

text \<open>Giving one owner another list of things, none of which the others own.\<close>

lemma partitions_update:
  assumes "partitions H S" and "distinct ds" and "set ds \<inter> (S - set (H h)) = {}"
  shows "partitions (H(h := ds)) (S - set (H h) \<union> set ds)"
proof -
  have one: "\<And>h h' d. d \<in> set (H h) \<Longrightarrow> d \<in> set (H h') \<Longrightarrow> h = h'"
    and all: "\<And>d. d \<in> S \<longleftrightarrow> (\<exists>h. d \<in> set (H h))" and dist: "\<And>h. distinct (H h)"
    using assms(1) unfolding partitions_def by blast+
  have other: "d \<notin> set ds" if "d \<in> set (H k)" "k \<noteq> h" for d k
    using that assms(3) one all by blast
  have "k = k'" if "d \<in> set ((H(h := ds)) k)" "d \<in> set ((H(h := ds)) k')" for k k' d
    using that one other by (auto split: if_splits)
  moreover have "d \<in> S - set (H h) \<union> set ds \<longleftrightarrow> (\<exists>k. d \<in> set ((H(h := ds)) k))" for d
  proof
    assume d: "d \<in> S - set (H h) \<union> set ds"
    show "\<exists>k. d \<in> set ((H(h := ds)) k)"
    proof (cases "d \<in> set ds")
      case True
      then show ?thesis by (intro exI [of _ h]) simp
    next
      case False
      with d all [of d] obtain k where k: "d \<in> set (H k)" by auto
      with d False have "k \<noteq> h" by auto
      with k show ?thesis by (intro exI [of _ k]) simp
    qed
  next
    assume "\<exists>k. d \<in> set ((H(h := ds)) k)"
    then obtain k where k: "d \<in> set ((H(h := ds)) k)" by (rule exE)
    show "d \<in> S - set (H h) \<union> set ds"
    proof (cases "k = h")
      case False
      with k have "d \<in> set (H k)" by simp
      with False all one show ?thesis by blast
    qed (use k in simp)
  qed
  moreover have "distinct ((H(h := ds)) k)" for k using dist assms(2) by simp
  ultimately show ?thesis unfolding partitions_def by blast
qed

lemma handles_ok_owned: "handles_ok c \<Longrightarrow> set (cs_handles c h) \<subseteq> owned c"
  by (auto simp: handles_ok_def partitions_def)

lemma handles_ok_distinct: "handles_ok c \<Longrightarrow> distinct (cs_handles c h)"
  by (simp add: handles_ok_def partitions_def)

lemma maps_ok_drop: "maps_ok c \<Longrightarrow> maps_ok (drop_owned ds c)"
  by (auto simp: maps_ok_def drop_owned_def smap_filter_inv smap_nodes_def)

lemma maps_ok_set_handle [simp]: "maps_ok (set_handle h ds c) = maps_ok c"
  by (simp add: maps_ok_def)

text \<open>Releasing a handle.\<close>

lemma release_handle_ok:
  assumes "client_inv c"
  shows "release_handle h c = Inr (drop_owned (cs_handles c h) (set_handle h [] c))"
    and "client_inv (drop_owned (cs_handles c h) (set_handle h [] c))"
proof -
  from assms have ok: "handles_ok c" and maps: "maps_ok c" by (simp_all add: client_inv_def)
  show "release_handle h c = Inr (drop_owned (cs_handles c h) (set_handle h [] c))"
    using ok by (simp add: release_handle_def run_deleters_owned handles_ok_owned handles_ok_distinct)
  have "handles_ok (drop_owned (cs_handles c h) (set_handle h [] c))"
    using partitions_update [of "cs_handles c" "owned c" "[]" h] ok
    by (simp add: handles_ok_def owned_drop_owned)
  with maps show "client_inv (drop_owned (cs_handles c h) (set_handle h [] c))"
    by (simp add: client_inv_def maps_ok_drop)
qed

text \<open>
  A registration: \<open>c1\<close> is \<open>c\<close> with one more element, which \<open>d\<close> owns. The handle that takes it
  loses what it had before (\<open>reset_handle\<close>) or keeps it (a chain of deleters).
\<close>

lemma reset_handle_ok:
  assumes ok: "handles_ok c" and d: "d \<notin> owned c"
    and c1: "owned c1 = insert d (owned c)" "cs_handles c1 = cs_handles c"
  shows "reset_handle h d c1 = Inr (drop_owned (cs_handles c h) (set_handle h [d] c1))"
    and "handles_ok (drop_owned (cs_handles c h) (set_handle h [d] c1))"
proof -
  have sub: "set (cs_handles c h) \<subseteq> owned c" using ok by (rule handles_ok_owned)
  then show "reset_handle h d c1 = Inr (drop_owned (cs_handles c h) (set_handle h [d] c1))"
    using ok c1
    by (auto simp: reset_handle_def intro!: run_deleters_owned handles_ok_distinct)
  have "insert d (owned c) - set (cs_handles c h) = owned c - set (cs_handles c h) \<union> set [d]"
    using d sub by auto
  then show "handles_ok (drop_owned (cs_handles c h) (set_handle h [d] c1))"
    using partitions_update [of "cs_handles c" "owned c" "[d]" h] ok d c1
    by (simp add: handles_ok_def owned_drop_owned)
qed

lemma chain_handle_ok:
  assumes ok: "handles_ok c" and d: "d \<notin> owned c"
    and c1: "owned c1 = insert d (owned c)" "cs_handles c1 = cs_handles c"
  shows "handles_ok (set_handle h (d # cs_handles c1 h) c1)"
proof -
  have sub: "set (cs_handles c h) \<subseteq> owned c" using ok by (rule handles_ok_owned)
  then have "owned c - set (cs_handles c h) \<union> set (d # cs_handles c h) = insert d (owned c)"
    by auto
  then show ?thesis
    using partitions_update [of "cs_handles c" "owned c" "d # cs_handles c h" h] ok d c1 sub
      handles_ok_distinct [OF ok, of h]
    by (auto simp: handles_ok_def)
qed

end
