(* ===== verification/Client_Calls.thy ===== *)
theory Client_Calls
  imports Client_Session
begin

text \<open>
  What the operations of the client session do: each keeps the invariant, registers what it is
  to register before it sends, and a message received goes to the callback the specification
  \<open>dispatch\<close> names.
\<close>

text \<open>Which callback a message is for, on the mappings the two maps hold.\<close>

definition dispatch ::
  "codec \<Rightarrow> (int \<Rightarrow> 'cb option) \<Rightarrow> (cb_key \<Rightarrow> 'cb option) \<Rightarrow> bytes \<Rightarrow> exn + ('cb \<times> bytes) option" where
  "dispatch cd subscriptions pending payload =
     bind_result (dec_id cd payload) (\<lambda>(response_id, d).
       case subscriptions response_id of
         Some cb \<Rightarrow> Inr (Some (cb, d))
       | None \<Rightarrow>
           if \<exists>t. pending (Cb_key response_id t) \<noteq> None
           then bind_result (dec_token cd d) (\<lambda>(token, d2).
             Inr (map_option (\<lambda>cb. (cb, d2)) (pending (Cb_key response_id token))))
           else Inr None)"

text \<open>The operations as one type, and the conditions under which a caller may use them.\<close>

datatype 'cb client_op =
    Subscribe nat int 'cb
  | Request nat int bytes int 'cb
  | Request_multi nat int bytes "(int \<times> 'cb) list"
  | Release nat
  | Receive bytes
  | Disconnect_session

fun client_do ::
  "codec \<Rightarrow> 'cb client_session channel \<Rightarrow> 'cb client_op \<Rightarrow> 'cb client_session \<Rightarrow>
   fault + 'cb client_session" where
  "client_do cd out (Subscribe h i cb) c = subscribe h i cb c"
| "client_do cd out (Request h i payload r cb) c = request cd out h i payload r cb c"
| "client_do cd out (Request_multi h i payload cbs) c = request_multi cd out h i payload cbs c"
| "client_do cd out (Release h) c = release_handle h c"
| "client_do cd out (Receive payload) c = lift_exn (client_message cd c payload)"
| "client_do cd out Disconnect_session c = Inr (disconnect_session out c)"

fun op_allowed :: "'cb client_op \<Rightarrow> 'cb client_session \<Rightarrow> bool" where
  "op_allowed (Subscribe h i cb) c = (smap_lookup (cs_message_callbacks c) i = None)"
| "op_allowed (Request h i payload r cb) c = (cs_token c \<noteq> - 1)"
| "op_allowed (Request_multi h i payload cbs) c = (cs_token c \<noteq> - 1 \<and> distinct (map fst cbs))"
| "op_allowed (Release h) c = True"
| "op_allowed (Receive payload) c = True"
| "op_allowed Disconnect_session c = True"

text \<open>The sessions a caller who keeps to these conditions can bring about.\<close>

inductive client_reach :: "codec \<Rightarrow> 'cb client_session channel \<Rightarrow> 'cb client_session \<Rightarrow> bool"
  for cd out where
  start: "client_reach cd out client_ctor"
| step: "client_reach cd out c \<Longrightarrow> op_allowed a c \<Longrightarrow> client_do cd out a c = Inr c' \<Longrightarrow>
    client_reach cd out c'"

text \<open>What the outbound channel does to the session, by sending it something, is an operation too.\<close>

definition outbound_keeps :: "'cb client_session channel \<Rightarrow> bool" where
  "outbound_keeps out \<longleftrightarrow>
     (\<forall>c m c'. client_inv c \<longrightarrow> ch_message out c m = Inr c' \<longrightarrow> client_inv c') \<and>
     (\<forall>c. client_inv c \<longrightarrow> client_inv (ch_disconnect out c))"

section \<open>Registering\<close>

lemma client_inv_ctor: "client_inv client_ctor"
  by (simp add: client_inv_def maps_ok_def handles_ok_def partitions_def owned_def client_ctor_def)

lemma insert_callback_eq:
  "insert_callback k cb c =
    (c\<lparr>cs_callbacks := fst (smap_insert (cs_next_node c) k cb (cs_callbacks c)),
       cs_next_node := cs_next_node c + 1\<rparr>,
     snd (smap_insert (cs_next_node c) k cb (cs_callbacks c)))"
  by (simp add: insert_callback_def split_beta Let_def)

lemma insert_callback_frame [simp]:
  "cs_token (fst (insert_callback k cb c)) = cs_token c"
  "cs_buffer (fst (insert_callback k cb c)) = cs_buffer c"
  "cs_message_callbacks (fst (insert_callback k cb c)) = cs_message_callbacks c"
  "cs_handles (fst (insert_callback k cb c)) = cs_handles c"
  "cs_calls (fst (insert_callback k cb c)) = cs_calls c"
  "cs_outbound_log (fst (insert_callback k cb c)) = cs_outbound_log c"
  by (simp_all add: insert_callback_eq)

lemma insert_message_callback_eq:
  "insert_message_callback k cb c =
    (c\<lparr>cs_message_callbacks := fst (smap_insert (cs_next_node c) k cb (cs_message_callbacks c)),
       cs_next_node := cs_next_node c + 1\<rparr>,
     snd (smap_insert (cs_next_node c) k cb (cs_message_callbacks c)))"
  by (simp add: insert_message_callback_def split_beta Let_def)

lemma maps_ok_next:
  assumes "maps_ok c"
  shows "cs_next_node c \<notin> smap_nodes (cs_callbacks c)"
    and "cs_next_node c \<notin> smap_nodes (cs_message_callbacks c)"
    and "Erase_callback (cs_next_node c) \<notin> owned c"
    and "Erase_message_callback (cs_next_node c) \<notin> owned c"
  using assms by (auto simp: maps_ok_def owned_def)

lemma insert_callback_ok:
  fixes c k cb
  assumes maps: "maps_ok c" and fresh: "smap_lookup (cs_callbacks c) k = None"
    and token: "key_token k < cs_token c"
  defines "c1 \<equiv> fst (insert_callback k cb c)"
  shows "snd (insert_callback k cb c) = cs_next_node c"
    and "maps_ok c1"
    and "owned c1 = insert (Erase_callback (cs_next_node c)) (owned c)"
    and "smap_lookup (cs_callbacks c1) = (smap_lookup (cs_callbacks c))(k \<mapsto> cb)"
    and "(cs_next_node c, k, cb) \<in> set (cs_callbacks c1)"
proof -
  have inv: "smap_inv (cs_callbacks c)" using maps by (simp add: maps_ok_def)
  note ins = smap.insert_fresh [OF fresh maps_ok_next(1) [OF maps] inv, of cb]
  show "snd (insert_callback k cb c) = cs_next_node c"
    and "smap_lookup (cs_callbacks c1) = (smap_lookup (cs_callbacks c))(k \<mapsto> cb)"
    using ins by (simp_all add: insert_callback_eq c1_def)
  show "owned c1 = insert (Erase_callback (cs_next_node c)) (owned c)"
    using ins by (simp add: insert_callback_eq c1_def owned_def)
  show "(cs_next_node c, k, cb) \<in> set (cs_callbacks c1)"
    by (simp add: insert_callback_eq c1_def set_smap_insert [OF fresh])
  show "maps_ok c1"
    using maps token ins smap.insert_inv [OF inv maps_ok_next(1) [OF maps], of k cb]
    by (auto simp: insert_callback_eq c1_def maps_ok_def set_smap_insert [OF fresh])
qed

lemma insert_message_callback_ok:
  fixes c k cb
  assumes maps: "maps_ok c" and fresh: "smap_lookup (cs_message_callbacks c) k = None"
  defines "c1 \<equiv> fst (insert_message_callback k cb c)"
  shows "snd (insert_message_callback k cb c) = cs_next_node c"
    and "maps_ok c1"
    and "owned c1 = insert (Erase_message_callback (cs_next_node c)) (owned c)"
    and "(cs_next_node c, k, cb) \<in> set (cs_message_callbacks c1)"
proof -
  have inv: "smap_inv (cs_message_callbacks c)" using maps by (simp add: maps_ok_def)
  note ins = smap.insert_fresh [OF fresh maps_ok_next(2) [OF maps] inv, of cb]
  show "snd (insert_message_callback k cb c) = cs_next_node c"
    using ins by (simp add: insert_message_callback_eq)
  show "owned c1 = insert (Erase_message_callback (cs_next_node c)) (owned c)"
    using ins by (simp add: insert_message_callback_eq c1_def owned_def)
  show "(cs_next_node c, k, cb) \<in> set (cs_message_callbacks c1)"
    by (simp add: insert_message_callback_eq c1_def set_smap_insert [OF fresh])
  show "maps_ok c1"
    using maps ins smap.insert_inv [OF inv maps_ok_next(2) [OF maps], of k cb]
    by (auto simp: insert_message_callback_eq c1_def maps_ok_def)
qed

text \<open>What \<open>drop_owned\<close> leaves of an element whose owner is not among the deleters.\<close>

lemma drop_owned_callback:
  "(n, k, cb) \<in> set (cs_callbacks c) \<Longrightarrow> Erase_callback n \<notin> set ds \<Longrightarrow> maps_ok c \<Longrightarrow>
   smap_lookup (cs_callbacks (drop_owned ds c)) k = Some cb"
  using maps_ok_drop [of c ds]
  by (auto simp: maps_ok_def drop_owned_def intro: smap_lookup_in)

lemma drop_owned_message_callback:
  "(n, k, cb) \<in> set (cs_message_callbacks c) \<Longrightarrow> Erase_message_callback n \<notin> set ds \<Longrightarrow>
   maps_ok c \<Longrightarrow> smap_lookup (cs_message_callbacks (drop_owned ds c)) k = Some cb"
  using maps_ok_drop [of c ds]
  by (auto simp: maps_ok_def drop_owned_def intro: smap_lookup_in)

lemma smap_lookup_filter_None: "smap_lookup m k = None \<Longrightarrow> smap_lookup (filter P m) k = None"
  by (auto simp: smap_lookup_None)

lemma drop_owned_None:
  "smap_lookup (cs_message_callbacks c) i = None \<Longrightarrow>
   smap_lookup (cs_message_callbacks (drop_owned ds c)) i = None"
  "smap_lookup (cs_callbacks c) k = None \<Longrightarrow>
   smap_lookup (cs_callbacks (drop_owned ds c)) k = None"
  by (simp_all add: drop_owned_def smap_lookup_filter_None)

lemma subscribe_ok:
  assumes inv: "client_inv c" and fresh: "smap_lookup (cs_message_callbacks c) i = None"
  shows "\<exists>c'. subscribe h i cb c = Inr c' \<and> client_inv c' \<and>
    smap_lookup (cs_message_callbacks c') i = Some cb \<and>
    cs_handles c' = (cs_handles c)(h := [Erase_message_callback (cs_next_node c)]) \<and>
    (cs_next_node c, i, cb) \<in> set (cs_message_callbacks c') \<and> cs_calls c' = cs_calls c"
proof -
  from inv have maps: "maps_ok c" and ok: "handles_ok c" by (simp_all add: client_inv_def)
  let ?d = "Erase_message_callback (cs_next_node c)"
  let ?c1 = "fst (insert_message_callback i cb c)"
  let ?c' = "drop_owned (cs_handles c h) (set_handle h [?d] ?c1)"
  note ins = insert_message_callback_ok [OF maps fresh, of cb]
  have frame: "cs_handles ?c1 = cs_handles c" "cs_calls ?c1 = cs_calls c"
    by (simp_all add: insert_message_callback_eq)
  note reset = reset_handle_ok [OF ok maps_ok_next(4) [OF maps] ins(3) frame(1), of h]
  have "subscribe h i cb c = Inr ?c'"
    using reset(1) ins(1) by (simp add: subscribe_def split_beta Let_def)
  moreover have "client_inv ?c'"
    using reset(2) ins(2) by (simp add: client_inv_def maps_ok_drop)
  moreover have "?d \<notin> set (cs_handles c h)"
    using handles_ok_owned [OF ok, of h] maps_ok_next(4) [OF maps] by blast
  then have "smap_lookup (cs_message_callbacks ?c') i = Some cb"
    using ins by (intro drop_owned_message_callback) simp_all
  moreover have "(cs_next_node c, i, cb) \<in> set (cs_message_callbacks ?c')"
    using ins(4) \<open>?d \<notin> set (cs_handles c h)\<close> by (simp add: drop_owned_def)
  ultimately show ?thesis using frame by (intro exI [of _ ?c']) simp
qed

section \<open>Requests\<close>

lemma token_succ: "t \<noteq> - 1 \<Longrightarrow> t < t + (1 :: u64)"
  by (simp add: word_less_nat_alt unat_succ)

text \<open>The session as it is when the callbacks of a request are registered.\<close>

definition drawn :: "codec \<Rightarrow> int \<Rightarrow> bytes \<Rightarrow> 'cb client_session \<Rightarrow> 'cb client_session" where
  "drawn cd i payload c = c\<lparr>cs_buffer := enc_id cd i @ enc_token cd (cs_token c) @ payload,
     cs_token := cs_token c + 1\<rparr>"

lemma request_internal_drawn:
  "request_internal cd out i payload ctor c =
     bind_result (ctor (cs_token c) (drawn cd i payload c))
       (\<lambda>c2. lift_exn (ch_message out c2 (cs_buffer c2)))"
  by (simp add: request_internal_def request_prepare_def drawn_def Let_def)

lemma drawn_frame [simp]:
  "cs_callbacks (drawn cd i payload c) = cs_callbacks c"
  "cs_message_callbacks (drawn cd i payload c) = cs_message_callbacks c"
  "cs_next_node (drawn cd i payload c) = cs_next_node c"
  "cs_handles (drawn cd i payload c) = cs_handles c"
  "cs_calls (drawn cd i payload c) = cs_calls c"
  "cs_outbound_log (drawn cd i payload c) = cs_outbound_log c"
  "cs_token (drawn cd i payload c) = cs_token c + 1"
  "cs_buffer (drawn cd i payload c) = enc_id cd i @ enc_token cd (cs_token c) @ payload"
  "owned (drawn cd i payload c) = owned c"
  by (simp_all add: drawn_def owned_def)

lemma drawn_maps_ok:
  assumes "client_inv c" and "cs_token c \<noteq> - 1"
  shows "maps_ok (drawn cd i payload c)"
  using assms(1) token_succ [OF assms(2)]
  by (auto simp: client_inv_def maps_ok_def dest!: bspec intro: less_trans)

lemma drawn_handles_ok: "client_inv c \<Longrightarrow> handles_ok (drawn cd i payload c)"
  by (simp add: client_inv_def handles_ok_def)

lemma token_fresh:
  assumes "client_inv c"
  shows "smap_lookup (cs_callbacks c) (Cb_key r (cs_token c)) = None"
proof -
  have "\<forall>(n, k, v) \<in> set (cs_callbacks c). key_token k < cs_token c"
    using assms by (simp add: client_inv_def maps_ok_def)
  then show ?thesis by (force simp: smap_lookup_None)
qed

lemma request_ok:
  assumes inv: "client_inv c" and token: "cs_token c \<noteq> - 1"
  shows "\<exists>c2. request cd out h i payload r cb c =
      lift_exn (ch_message out c2 (enc_id cd i @ enc_token cd (cs_token c) @ payload)) \<and>
    client_inv c2 \<and> cs_token c2 = cs_token c + 1 \<and>
    smap_lookup (cs_callbacks c2) (Cb_key r (cs_token c)) = Some cb \<and>
    cs_handles c2 = (cs_handles c)(h := [Erase_callback (cs_next_node c)]) \<and>
    (cs_next_node c, Cb_key r (cs_token c), cb) \<in> set (cs_callbacks c2) \<and>
    (\<forall>e \<in> set (cs_callbacks c). Erase_callback (fst e) \<notin> set (cs_handles c h) \<longrightarrow>
      e \<in> set (cs_callbacks c2)) \<and>
    cs_message_callbacks c2 = cs_message_callbacks (drop_owned (cs_handles c h) c) \<and>
    cs_calls c2 = cs_calls c \<and> cs_outbound_log c2 = cs_outbound_log c \<and>
    cs_buffer c2 = enc_id cd i @ enc_token cd (cs_token c) @ payload \<and>
    (\<forall>e \<in> set (cs_callbacks c2). e = (cs_next_node c, Cb_key r (cs_token c), cb) \<or>
      e \<in> set (cs_callbacks c) \<and> Erase_callback (fst e) \<notin> set (cs_handles c h))"
proof -
  let ?c0 = "drawn cd i payload c"
  let ?k = "Cb_key r (cs_token c)"
  let ?d = "Erase_callback (cs_next_node c)"
  let ?c1 = "fst (insert_callback ?k cb ?c0)"
  let ?c2 = "drop_owned (cs_handles c h) (set_handle h [?d] ?c1)"
  note drawn = drawn_maps_ok [OF inv token, of cd i payload] drawn_handles_ok [OF inv, of cd i payload]
    token_fresh [OF inv]
  have fresh: "smap_lookup (cs_callbacks ?c0) ?k = None" "key_token ?k < cs_token ?c0"
    using drawn(3) token_succ [OF token] by simp_all
  note ins = insert_callback_ok [OF drawn(1) fresh, of cb, unfolded drawn_frame]
  have new: "?d \<notin> owned ?c0" using maps_ok_next(3) [OF drawn(1)] by simp
  have frame: "cs_handles ?c1 = cs_handles ?c0" by (simp add: insert_callback_eq)
  have o1: "owned ?c1 = insert ?d (owned ?c0)" using ins(3) by simp
  note reset = reset_handle_ok [OF drawn(2) new o1 frame, of h]
  have "request_ctor h r cb (cs_token c) ?c0 = Inr ?c2"
    using reset(1) ins(1) by (simp add: request_ctor_def split_beta Let_def)
  then have eq: "request cd out h i payload r cb c = lift_exn (ch_message out ?c2 (cs_buffer ?c2))"
    by (simp add: request_def request_internal_drawn)
  have inv2: "client_inv ?c2" using reset(2) ins(2) by (simp add: client_inv_def maps_ok_drop)
  have "?d \<notin> set (cs_handles c h)"
    using handles_ok_owned [OF drawn(2), of h] new by auto
  then have look: "smap_lookup (cs_callbacks ?c2) ?k = Some cb"
    using ins by (intro drop_owned_callback) simp_all
  have "cs_buffer ?c2 = enc_id cd i @ enc_token cd (cs_token c) @ payload"
    and "cs_token ?c2 = cs_token c + 1" and "cs_handles ?c2 = (cs_handles c)(h := [?d])"
    and "cs_calls ?c2 = cs_calls c" and "cs_outbound_log ?c2 = cs_outbound_log c"
    by (simp_all add: insert_callback_eq)
  moreover have "cs_message_callbacks ?c2 = cs_message_callbacks (drop_owned (cs_handles c h) c)"
    by (simp add: drop_owned_def insert_callback_eq)
  moreover have "(cs_next_node c, ?k, cb) \<in> set (cs_callbacks ?c2)"
    using ins(5) \<open>?d \<notin> set (cs_handles c h)\<close> by (simp add: drop_owned_def)
  moreover have "\<forall>e \<in> set (cs_callbacks c). Erase_callback (fst e) \<notin> set (cs_handles c h) \<longrightarrow>
      e \<in> set (cs_callbacks ?c2)"
    using set_smap_insert [OF fresh(1)] by (simp add: drop_owned_def insert_callback_eq)
  moreover have "\<forall>e \<in> set (cs_callbacks ?c2). e = (cs_next_node c, ?k, cb) \<or>
      e \<in> set (cs_callbacks c) \<and> Erase_callback (fst e) \<notin> set (cs_handles c h)"
    using set_smap_insert [OF fresh(1)] by (simp add: drop_owned_def insert_callback_eq)
  ultimately show ?thesis using eq inv2 look by (intro exI [of _ ?c2]) simp
qed

text \<open>
  Several responses: the handle grows by a deleter for each, whether it was empty or not.
\<close>

lemma request_multi_ctor_step:
  fixes c r t cb h
  assumes "client_inv c" and "smap_lookup (cs_callbacks c) (Cb_key r t) = None" and "t < cs_token c"
  defines "c1 \<equiv> fst (insert_callback (Cb_key r t) cb c)"
  defines "c2 \<equiv> set_handle h (Erase_callback (cs_next_node c) # cs_handles c h) c1"
  shows "request_multi_ctor h ((r, cb) # rest) t c = request_multi_ctor h rest t c2"
    and "client_inv c2"
    and "smap_lookup (cs_callbacks c2) = (smap_lookup (cs_callbacks c))(Cb_key r t \<mapsto> cb)"
    and "cs_token c2 = cs_token c" and "cs_buffer c2 = cs_buffer c"
    and "cs_message_callbacks c2 = cs_message_callbacks c"
    and "cs_calls c2 = cs_calls c" and "cs_outbound_log c2 = cs_outbound_log c"
proof -
  from assms(1) have maps: "maps_ok c" and ok: "handles_ok c" by (simp_all add: client_inv_def)
  have t: "key_token (Cb_key r t) < cs_token c" using assms(3) by simp
  note ins = insert_callback_ok [OF maps assms(2) t, of cb, folded c1_def]
  have frame: "cs_handles c1 = cs_handles c" "cs_token c1 = cs_token c" "cs_buffer c1 = cs_buffer c"
    "cs_message_callbacks c1 = cs_message_callbacks c" "cs_calls c1 = cs_calls c"
    "cs_outbound_log c1 = cs_outbound_log c"
    by (simp_all add: insert_callback_eq c1_def)
  have "insert_callback (Cb_key r t) cb c = (c1, cs_next_node c)"
    using ins(1) by (simp add: c1_def prod_eq_iff)
  then show "request_multi_ctor h ((r, cb) # rest) t c = request_multi_ctor h rest t c2"
    using frame(1) by (simp add: c2_def reset_handle_def)
  show "client_inv c2"
    using chain_handle_ok [OF ok maps_ok_next(3) [OF maps] ins(3) frame(1), of h] ins(2) frame(1)
    by (simp add: client_inv_def c2_def)
  show "smap_lookup (cs_callbacks c2) = (smap_lookup (cs_callbacks c))(Cb_key r t \<mapsto> cb)"
    using ins(4) by (simp add: c2_def)
  show "cs_token c2 = cs_token c" "cs_buffer c2 = cs_buffer c"
    "cs_message_callbacks c2 = cs_message_callbacks c"
    "cs_calls c2 = cs_calls c" "cs_outbound_log c2 = cs_outbound_log c"
    using frame by (simp_all add: c2_def)
qed

lemma request_multi_ctor_ok:
  assumes "client_inv c" and "t < cs_token c" and "distinct (map fst cbs)"
    and "\<forall>r \<in> fst ` set cbs. smap_lookup (cs_callbacks c) (Cb_key r t) = None"
  shows "\<exists>c'. request_multi_ctor h cbs t c = Inr c' \<and> client_inv c' \<and>
    (\<forall>(r, cb) \<in> set cbs. smap_lookup (cs_callbacks c') (Cb_key r t) = Some cb) \<and>
    (\<forall>k. (\<forall>r \<in> fst ` set cbs. k \<noteq> Cb_key r t) \<longrightarrow>
      smap_lookup (cs_callbacks c') k = smap_lookup (cs_callbacks c) k) \<and>
    cs_token c' = cs_token c \<and> cs_buffer c' = cs_buffer c \<and>
    cs_message_callbacks c' = cs_message_callbacks c \<and>
    cs_calls c' = cs_calls c \<and> cs_outbound_log c' = cs_outbound_log c"
  using assms
proof (induction cbs arbitrary: c)
  case (Cons x cbs)
  obtain r cb where x: "x = (r, cb)" by (cases x)
  let ?c1 = "fst (insert_callback (Cb_key r t) cb c)"
  let ?c2 = "set_handle h (Erase_callback (cs_next_node c) # cs_handles c h) ?c1"
  have "smap_lookup (cs_callbacks c) (Cb_key r t) = None" using Cons.prems(4) x by simp
  note st = request_multi_ctor_step [OF Cons.prems(1) this Cons.prems(2), of h cb]
  have "\<exists>c'. request_multi_ctor h cbs t ?c2 = Inr c' \<and> client_inv c' \<and>
      (\<forall>(r, cb) \<in> set cbs. smap_lookup (cs_callbacks c') (Cb_key r t) = Some cb) \<and>
      (\<forall>k. (\<forall>r \<in> fst ` set cbs. k \<noteq> Cb_key r t) \<longrightarrow>
        smap_lookup (cs_callbacks c') k = smap_lookup (cs_callbacks ?c2) k) \<and>
      cs_token c' = cs_token ?c2 \<and> cs_buffer c' = cs_buffer ?c2 \<and>
      cs_message_callbacks c' = cs_message_callbacks ?c2 \<and>
      cs_calls c' = cs_calls ?c2 \<and> cs_outbound_log c' = cs_outbound_log ?c2"
    using Cons.prems x st(3) by (intro Cons.IH [OF st(2)]) (auto simp: st(4))
  then obtain c' where c': "request_multi_ctor h cbs t ?c2 = Inr c'" "client_inv c'"
      "\<forall>(r, cb) \<in> set cbs. smap_lookup (cs_callbacks c') (Cb_key r t) = Some cb"
      "\<forall>k. (\<forall>r \<in> fst ` set cbs. k \<noteq> Cb_key r t) \<longrightarrow>
        smap_lookup (cs_callbacks c') k = smap_lookup (cs_callbacks ?c2) k"
      "cs_token c' = cs_token ?c2" "cs_buffer c' = cs_buffer ?c2"
      "cs_message_callbacks c' = cs_message_callbacks ?c2"
      "cs_calls c' = cs_calls ?c2" "cs_outbound_log c' = cs_outbound_log ?c2"
    by blast
  have "smap_lookup (cs_callbacks c') (Cb_key r t) = Some cb"
    using c'(4) [rule_format, of "Cb_key r t"] Cons.prems(3) x st(3) by force
  moreover have "\<forall>k. (\<forall>r \<in> fst ` set (x # cbs). k \<noteq> Cb_key r t) \<longrightarrow>
      smap_lookup (cs_callbacks c') k = smap_lookup (cs_callbacks c) k"
    using c'(4) st(3) x by simp
  ultimately show ?case
    using c' st(1,4-8) x by (intro exI [of _ c']) auto
qed simp

lemma request_multi_ok:
  assumes inv: "client_inv c" and token: "cs_token c \<noteq> - 1" and "distinct (map fst cbs)"
  shows "\<exists>c2. request_multi cd out h i payload cbs c =
      lift_exn (ch_message out c2 (enc_id cd i @ enc_token cd (cs_token c) @ payload)) \<and>
    client_inv c2 \<and> cs_token c2 = cs_token c + 1 \<and>
    (\<forall>(r, cb) \<in> set cbs. smap_lookup (cs_callbacks c2) (Cb_key r (cs_token c)) = Some cb) \<and>
    (\<forall>k. (\<forall>r \<in> fst ` set cbs. k \<noteq> Cb_key r (cs_token c)) \<longrightarrow>
      smap_lookup (cs_callbacks c2) k = smap_lookup (cs_callbacks c) k)"
proof -
  let ?c0 = "drawn cd i payload c"
  note drawn = drawn_maps_ok [OF inv token, of cd i payload] drawn_handles_ok [OF inv, of cd i payload]
    token_fresh [OF inv]
  have "client_inv ?c0" using drawn by (simp add: client_inv_def)
  from request_multi_ctor_ok [OF this _ assms(3), of "cs_token c" h]
  obtain c2 where c2: "request_multi_ctor h cbs (cs_token c) ?c0 = Inr c2" "client_inv c2"
      "\<forall>(r, cb) \<in> set cbs. smap_lookup (cs_callbacks c2) (Cb_key r (cs_token c)) = Some cb"
      "\<forall>k. (\<forall>r \<in> fst ` set cbs. k \<noteq> Cb_key r (cs_token c)) \<longrightarrow>
        smap_lookup (cs_callbacks c2) k = smap_lookup (cs_callbacks c) k"
      "cs_token c2 = cs_token c + 1"
      "cs_buffer c2 = enc_id cd i @ enc_token cd (cs_token c) @ payload"
    using token_succ [OF token] drawn(3) by auto
  then show ?thesis
    by (intro exI [of _ c2]) (simp add: request_multi_def request_internal_drawn)
qed

section \<open>Receiving\<close>

lemma cb_key_range: "Cb_key r 0 \<le> k \<and> k \<le> Cb_key r (- 1) \<longleftrightarrow> (\<exists>t. k = Cb_key r t)"
  by (cases k) (auto simp: less_eq_cb_key_def)

lemma pending_range:
  assumes "smap_inv m"
  shows "smap_lower_bound (Cb_key r 0) m \<noteq> smap_upper_bound (Cb_key r (- 1)) m \<longleftrightarrow>
    (\<exists>t. smap_lookup m (Cb_key r t) \<noteq> None)"
proof -
  have "Cb_key r 0 \<le> Cb_key r (- 1)" by (simp add: less_eq_cb_key_def)
  note smap_bounds_differ [OF assms this]
  also have "(\<exists>k. Cb_key r 0 \<le> k \<and> k \<le> Cb_key r (- 1) \<and> smap_lookup m k \<noteq> None) \<longleftrightarrow>
      (\<exists>t. smap_lookup m (Cb_key r t) \<noteq> None)"
    using cb_key_range [of r] by metis
  finally show ?thesis .
qed

lemma find_case:
  "(case smap_find k m of Some (n, v) \<Rightarrow> f v | None \<Rightarrow> g) =
   (case smap_lookup m k of Some v \<Rightarrow> f v | None \<Rightarrow> g)"
  by (cases "smap_find k m") (auto simp flip: smap_find_lookup)

lemma client_message_dispatch:
  assumes "maps_ok c"
  shows "client_message cd c payload =
    map_sum id (\<lambda>call. case call of None \<Rightarrow> c | Some (cb, d) \<Rightarrow> invoke cb d c)
      (dispatch cd (smap_lookup (cs_message_callbacks c)) (smap_lookup (cs_callbacks c)) payload)"
proof (cases "dec_id cd payload")
  case (Inr rd)
  obtain r d where rd: "rd = (r, d)" by (cases rd)
  have inv: "smap_inv (cs_callbacks c)" using assms by (simp add: maps_ok_def)
  show ?thesis
  proof (cases "dec_token cd d")
    case (Inl x)
    then show ?thesis
      using \<open>dec_id cd payload = Inr rd\<close>
      by (simp add: client_message_def dispatch_def rd find_case pending_range [OF inv]
          split: option.split)
  next
    case (Inr td)
    then show ?thesis
      using \<open>dec_id cd payload = Inr rd\<close>
      by (cases td) (simp add: client_message_def dispatch_def rd find_case
          pending_range [OF inv] split: option.split)
  qed
qed (simp add: client_message_def dispatch_def)

lemma invoke_inv: "client_inv c \<Longrightarrow> client_inv (invoke cb d c)"
  by (simp add: client_inv_def maps_ok_def handles_ok_def owned_def invoke_def)

lemma client_message_inv:
  assumes inv: "client_inv c" and msg: "client_message cd c payload = Inr c'"
  shows "client_inv c'"
proof -
  have "maps_ok c" using inv by (simp add: client_inv_def)
  with msg have "c' = c \<or> (\<exists>cb d. c' = invoke cb d c)"
    by (auto simp: client_message_dispatch map_sum_def split: sum.splits option.splits)
  with inv invoke_inv show ?thesis by auto
qed

text \<open>A response to a pending request goes to its callback, if nobody subscribed to its id.\<close>

lemma client_message_response:
  assumes "codec_ok cd" and "int32 r" and "maps_ok c"
    and "smap_lookup (cs_message_callbacks c) r = None"
    and "smap_lookup (cs_callbacks c) (Cb_key r t) = Some cb"
  shows "client_message cd c (enc_id cd r @ enc_token cd t @ body) = Inr (invoke cb body c)"
proof -
  have "\<exists>t. smap_lookup (cs_callbacks c) (Cb_key r t) \<noteq> None" using assms(5) by auto
  then show ?thesis
    using assms
    by (simp add: client_message_dispatch dispatch_def codec_id codec_token)
qed

lemma client_message_unexpected:
  assumes "codec_ok cd" and "int32 r" and "maps_ok c"
    and "smap_lookup (cs_message_callbacks c) r = None"
    and "smap_lookup (cs_callbacks c) (Cb_key r t) = None"
  shows "client_message cd c (enc_id cd r @ enc_token cd t @ body) = Inr c"
  using assms by (simp add: client_message_dispatch dispatch_def codec_id codec_token)

lemma client_message_subscription:
  assumes "codec_ok cd" and "int32 r" and "maps_ok c"
    and "smap_lookup (cs_message_callbacks c) r = Some cb"
  shows "client_message cd c (enc_id cd r @ body) = Inr (invoke cb body c)"
  using assms by (simp add: client_message_dispatch dispatch_def codec_id)

section \<open>Handles and what is pending\<close>

text \<open>Releasing the handle of a request forgets its callback, and nothing else.\<close>

lemma release_forgets:
  assumes inv: "client_inv c" and h: "cs_handles c h = [Erase_callback n]"
    and n: "(n, k, cb) \<in> set (cs_callbacks c)" and rel: "release_handle h c = Inr c'"
  shows "smap_lookup (cs_callbacks c') k = None" and "client_inv c'"
    and "cs_message_callbacks c' = cs_message_callbacks c"
proof -
  from release_handle_ok [OF inv, of h] rel
  have c': "c' = drop_owned [Erase_callback n] (set_handle h [] c)" and "client_inv c'"
    by (simp_all add: h)
  then show "client_inv c'" by simp
  show "cs_message_callbacks c' = cs_message_callbacks c" by (simp add: c' drop_owned_def)
  have "smap_inv (cs_callbacks c)" using inv by (simp add: client_inv_def maps_ok_def)
  then have "e = (n, k, cb)" if "e \<in> set (cs_callbacks c)" "fst (snd e) = k" for e
    using smap_key_unique n that by (metis prod.collapse)
  then show "smap_lookup (cs_callbacks c') k = None"
    by (auto simp: c' drop_owned_def smap_lookup_None)
qed

text \<open>Two requests in a row, with handles of their own: both are pending afterwards.\<close>

lemma requests_both_pending:
  assumes inv: "client_inv c" and token: "cs_token c + 1 \<noteq> - 1" "cs_token c \<noteq> - 1" and "h1 \<noteq> h2"
    and r1: "request cd log_outbound h1 i p1 r cb1 c = Inr c1"
    and r2: "request cd log_outbound h2 j p2 r cb2 c1 = Inr c2"
  shows "client_inv c2 \<and> smap_lookup (cs_callbacks c2) (Cb_key r (cs_token c)) = Some cb1 \<and>
    smap_lookup (cs_callbacks c2) (Cb_key r (cs_token c + 1)) = Some cb2 \<and>
    (smap_lookup (cs_message_callbacks c) r = None \<longrightarrow>
      smap_lookup (cs_message_callbacks c2) r = None)"
proof -
  obtain d1 m1 where d1: "lift_exn (ch_message log_outbound d1 m1) = Inr c1" "client_inv d1"
      "cs_token d1 = cs_token c + 1"
      "cs_handles d1 = (cs_handles c)(h1 := [Erase_callback (cs_next_node c)])"
      "(cs_next_node c, Cb_key r (cs_token c), cb1) \<in> set (cs_callbacks d1)"
      "cs_message_callbacks d1 = cs_message_callbacks (drop_owned (cs_handles c h1) c)"
    using request_ok [OF inv token(2), of cd log_outbound h1 i p1 r cb1] r1 by auto
  have c1: "c1 = d1\<lparr>cs_outbound_log := cs_outbound_log d1 @ [Message m1]\<rparr>"
    using d1(1) by (simp add: log_outbound_def lift_exn_def)
  have inv1: "client_inv c1"
    using d1(2) by (simp add: c1 client_inv_def maps_ok_def handles_ok_def owned_def)
  have tok1: "cs_token c1 = cs_token c + 1" using d1(3) by (simp add: c1)
  obtain d2 m2 where d2: "lift_exn (ch_message log_outbound d2 m2) = Inr c2" "client_inv d2"
      "smap_lookup (cs_callbacks d2) (Cb_key r (cs_token c + 1)) = Some cb2"
      "\<forall>e \<in> set (cs_callbacks c1). Erase_callback (fst e) \<notin> set (cs_handles c1 h2) \<longrightarrow>
        e \<in> set (cs_callbacks d2)"
      "cs_message_callbacks d2 = cs_message_callbacks (drop_owned (cs_handles c1 h2) c1)"
    using request_ok [OF inv1, of cd log_outbound h2 j p2 r cb2] r2 token(1) tok1 by auto
  have c2: "c2 = d2\<lparr>cs_outbound_log := cs_outbound_log d2 @ [Message m2]\<rparr>"
    using d2(1) by (simp add: log_outbound_def lift_exn_def)
  have inv2: "client_inv c2"
    using d2(2) by (simp add: c2 client_inv_def maps_ok_def handles_ok_def owned_def)
  have "Erase_callback (cs_next_node c) \<in> set (cs_handles c1 h1)" using d1(4) by (simp add: c1)
  then have "Erase_callback (cs_next_node c) \<notin> set (cs_handles c1 h2)"
    using inv1 assms(4) unfolding client_inv_def handles_ok_def partitions_def by blast
  then have "(cs_next_node c, Cb_key r (cs_token c), cb1) \<in> set (cs_callbacks d2)"
    using d2(4) d1(5) by (force simp: c1)
  then have "smap_lookup (cs_callbacks c2) (Cb_key r (cs_token c)) = Some cb1"
    using d2(2) by (auto simp: c2 client_inv_def maps_ok_def intro: smap_lookup_in)
  moreover have "smap_lookup (cs_message_callbacks c2) r = None"
    if "smap_lookup (cs_message_callbacks c) r = None"
    using that d2(5) d1(6) by (simp add: c2 c1 drop_owned_None)
  ultimately show ?thesis using inv2 d2(3) by (simp add: c2)
qed

text \<open>A second subscription to an id that is taken shares the element of the first.\<close>

lemma subscribe_taken:
  assumes inv: "client_inv c" and n: "(n, i, cb) \<in> set (cs_message_callbacks c)"
    and h: "cs_handles c h = []"
  shows "subscribe h i cb' c =
    Inr (set_handle h [Erase_message_callback n] (c\<lparr>cs_next_node := cs_next_node c + 1\<rparr>))"
proof -
  have "smap_inv (cs_message_callbacks c)" using inv by (simp add: client_inv_def maps_ok_def)
  note smap_insert_taken_eq [OF this n, of "cs_next_node c" cb']
  with h show ?thesis
    by (simp add: subscribe_def insert_message_callback_eq reset_handle_def)
qed

section \<open>Runs\<close>

lemma lift_exn_Inr: "lift_exn r = Inr a \<longleftrightarrow> r = Inr a"
  by (cases r) (simp_all add: lift_exn_def)

lemma lift_exn_defined: "lift_exn r \<noteq> Inl Undefined_behaviour"
  by (cases r) (simp_all add: lift_exn_def)

lemma outbound_keeps_log: "outbound_keeps log_outbound"
  by (simp add: outbound_keeps_def log_outbound_def client_inv_def maps_ok_def handles_ok_def
      owned_def)

text \<open>An allowed operation is defined, and where it returns the invariant holds.\<close>

lemma client_do_ok:
  assumes inv: "client_inv c" and allowed: "op_allowed a c" and out: "outbound_keeps out"
  shows "client_do cd out a c \<noteq> Inl Undefined_behaviour \<and>
    (\<forall>c'. client_do cd out a c = Inr c' \<longrightarrow> client_inv c')"
proof (cases a)
  case (Subscribe h i cb)
  then show ?thesis using subscribe_ok [OF inv, of i h cb] allowed by auto
next
  case (Request h i payload r cb)
  then obtain c2 m where "client_do cd out a c = lift_exn (ch_message out c2 m)" "client_inv c2"
    using request_ok [OF inv, of cd out h i payload r cb] allowed by auto
  then show ?thesis using out by (auto simp: lift_exn_Inr lift_exn_defined outbound_keeps_def)
next
  case (Request_multi h i payload cbs)
  then obtain c2 m where "client_do cd out a c = lift_exn (ch_message out c2 m)" "client_inv c2"
    using request_multi_ok [OF inv, of cbs cd out h i payload] allowed by auto
  then show ?thesis using out by (auto simp: lift_exn_Inr lift_exn_defined outbound_keeps_def)
next
  case (Release h)
  then show ?thesis using release_handle_ok [OF inv, of h] by simp
next
  case (Receive payload)
  then show ?thesis using client_message_inv [OF inv] by (simp add: lift_exn_Inr lift_exn_defined)
next
  case Disconnect_session
  then show ?thesis using inv out by (simp add: disconnect_session_def outbound_keeps_def)
qed

lemma client_reach_inv:
  assumes "outbound_keeps out" and "client_reach cd out c"
  shows "client_inv c"
  using assms(2)
proof (induction rule: client_reach.induct)
  case (step c a c')
  then show ?case using client_do_ok [of c a out cd] assms(1) by blast
qed (rule client_inv_ctor)

section \<open>Releasing, and subscribing again\<close>

text \<open>
  Subscribing again through the handle that holds the subscription loses it: the handle is
  given the element that is there already, and erases it as it lets go of its old value.
\<close>

lemma resubscription_is_lost:
  assumes "client_inv c" and "smap_lookup (cs_message_callbacks c) i = None"
  shows "\<exists>c1 c2. subscribe h i cb1 c = Inr c1 \<and> subscribe h i cb2 c1 = Inr c2 \<and>
    smap_lookup (cs_message_callbacks c2) i = None \<and>
    release_handle h c2 = Inl Undefined_behaviour"
proof -
  from subscribe_ok [OF assms, of h cb1] obtain c1 where
    c1: "subscribe h i cb1 c = Inr c1" "client_inv c1"
      "(cs_next_node c, i, cb1) \<in> set (cs_message_callbacks c1)"
      "cs_handles c1 = (cs_handles c)(h := [Erase_message_callback (cs_next_node c)])"
    by blast
  let ?n = "cs_next_node c"
  let ?m = "filter (\<lambda>e. fst e \<noteq> ?n) (cs_message_callbacks c1)"
  have inv: "smap_inv (cs_message_callbacks c1)" using c1(2) by (simp add: client_inv_def maps_ok_def)
  have n: "?n \<in> smap_nodes (cs_message_callbacks c1)" using c1(3) by (force simp: smap_nodes_def)
  note again = smap_insert_taken_eq [OF inv c1(3)]
  have "subscribe h i cb2 c1 = Inr (set_handle h [Erase_message_callback ?n]
      (c1\<lparr>cs_next_node := cs_next_node c1 + 1, cs_message_callbacks := ?m\<rparr>))" (is "_ = Inr ?c2")
    using c1(4) n again
    by (simp add: subscribe_def insert_message_callback_eq reset_handle_def smap_erase_def set_handle_def)
  moreover have "e = (?n, i, cb1)" if "e \<in> set (cs_message_callbacks c1)" "fst (snd e) = i" for e
    using smap_key_unique [OF inv c1(3)] that by (metis prod.collapse)
  then have "smap_lookup ?m i = None" by (auto simp: smap_lookup_None)
  moreover have "release_handle h ?c2 = Inl Undefined_behaviour"
    by (simp add: release_handle_def set_handle_def smap_erase_def smap_filter_nodes)
  ultimately show ?thesis using c1(1) by auto
qed

text \<open>
  Releasing the handle of a request cancels it: the response, should it come, is ignored.
\<close>

lemma released_request_ignores_response:
  assumes "client_inv c" and "cs_token c \<noteq> - 1" and "codec_ok cd" and "int32 r"
    and "smap_lookup (cs_message_callbacks c) r = None"
    and "request cd log_outbound h i payload r cb c = Inr c1" and "release_handle h c1 = Inr c2"
  shows "client_message cd c2 (enc_id cd r @ enc_token cd (cs_token c) @ body) = Inr c2"
proof -
  obtain d m where d: "lift_exn (ch_message log_outbound d m) = Inr c1" "client_inv d"
      "cs_handles d = (cs_handles c)(h := [Erase_callback (cs_next_node c)])"
      "(cs_next_node c, Cb_key r (cs_token c), cb) \<in> set (cs_callbacks d)"
      "cs_message_callbacks d = cs_message_callbacks (drop_owned (cs_handles c h) c)"
    using request_ok [OF assms(1,2), of cd log_outbound h i payload r cb] assms(6) by auto
  have c1: "ch_message log_outbound d m = Inr c1" using d(1) by (simp add: lift_exn_Inr)
  then have inv1: "client_inv c1" using outbound_keeps_log d(2) by (auto simp: outbound_keeps_def)
  have c1_eq: "c1 = d\<lparr>cs_outbound_log := cs_outbound_log d @ [Message m]\<rparr>"
    using c1 by (simp add: log_outbound_def)
  note forgets = release_forgets [OF inv1 _ _ assms(7), of "cs_next_node c" "Cb_key r (cs_token c)" cb]
  have "smap_lookup (cs_callbacks c2) (Cb_key r (cs_token c)) = None" "client_inv c2"
    and "cs_message_callbacks c2 = cs_message_callbacks c1"
    using forgets d(3,4) by (simp_all add: c1_eq)
  with client_message_unexpected [OF assms(3,4), of c2 "cs_token c" body] d(5) assms(5)
  show ?thesis by (simp add: client_inv_def c1_eq drop_owned_None)
qed

text \<open>
  Two requests that await the same response id: each response reaches the callback of the request it
  answers, whichever comes first.
\<close>

lemma responses_reach_their_requests:
  assumes "client_inv c" and "cs_token c \<noteq> - 1" and "cs_token c + 1 \<noteq> - 1" and "h1 \<noteq> h2"
    and "codec_ok cd" and "int32 r" and "smap_lookup (cs_message_callbacks c) r = None"
    and "request cd log_outbound h1 i p1 r cb1 c = Inr c1"
    and "request cd log_outbound h2 j p2 r cb2 c1 = Inr c2"
  shows "client_message cd c2 (enc_id cd r @ enc_token cd (cs_token c) @ body) =
      Inr (invoke cb1 body c2) \<and>
    client_message cd c2 (enc_id cd r @ enc_token cd (cs_token c + 1) @ body) =
      Inr (invoke cb2 body c2)"
proof -
  have maps: "maps_ok c2" and none: "smap_lookup (cs_message_callbacks c2) r = None"
    and first: "smap_lookup (cs_callbacks c2) (Cb_key r (cs_token c)) = Some cb1"
    and second: "smap_lookup (cs_callbacks c2) (Cb_key r (cs_token c + 1)) = Some cb2"
    using requests_both_pending [OF assms(1,3,2,4,8,9)] assms(7) by (simp_all add: client_inv_def)
  note response = client_message_response [OF assms(5,6) maps none]
  show ?thesis using response [OF first, of body] response [OF second, of body] by (rule conjI)
qed

section \<open>Several responses\<close>

text \<open>
  A request with several possible responses, which differ in their ids: each of them, should
  it come, reaches its own callback, all under one token.
\<close>

lemma multi_response_request:
  assumes "client_inv c" and "cs_token c \<noteq> - 1" and "distinct (map fst cbs)" and "codec_ok cd"
    and "request_multi cd log_outbound h i payload cbs c = Inr c2"
    and "(r, cb) \<in> set cbs" and "int32 r" and "smap_lookup (cs_message_callbacks c2) r = None"
  shows "client_message cd c2 (enc_id cd r @ enc_token cd (cs_token c) @ body) =
    Inr (invoke cb body c2)"
proof -
  obtain d m where d: "lift_exn (ch_message log_outbound d m) = Inr c2" "client_inv d"
      "\<forall>(r, cb) \<in> set cbs. smap_lookup (cs_callbacks d) (Cb_key r (cs_token c)) = Some cb"
    using request_multi_ok [OF assms(1-3), of cd log_outbound h i payload] assms(5) by auto
  have "smap_lookup (cs_callbacks d) (Cb_key r (cs_token c)) = Some cb" using d(3) assms(6) by blast
  moreover have "c2 = d\<lparr>cs_outbound_log := cs_outbound_log d @ [Message m]\<rparr>"
    using d(1) by (simp add: lift_exn_def log_outbound_def)
  ultimately show ?thesis
    using client_message_response [OF assms(4,7), of c2 "cs_token c" cb body] d(2) assms(8)
    by (simp add: client_inv_def maps_ok_def)
qed

end
