(* ===== verification/Client_Reentrancy.thy ===== *)
theory Client_Reentrancy
  imports Client_Calls
begin

text \<open>
  Callbacks that use the session which calls them. \<^verbatim>\<open>client_session::message\<close>
  (\<^verbatim>\<open>src/strmd/client_session.cpp\<close>) calls the function object stored in an element of one of its
  maps; while it runs, that code may issue requests, subscribe and let handles go. A request
  (\<^verbatim>\<open>coipc/strmd/client_session.h\<close>) calls the outbound channel with a range over the session's one
  buffer; until it has returned, the channel may deliver further messages, before or after it has read
  the bytes. A callback is the list of the operations it performs, with the exception it ends in, if
  any; callbacks and outbound calls under way are a stack of frames. Two things are undefined: the
  function object lives in its element, so once that has been erased what is left of the callback runs
  on captured variables that are gone; and a request that is serialized while a channel has yet to
  read another leaves the channel with a range over a buffer that has been cleared and may have moved.
\<close>

section \<open>The calls under way\<close>

text \<open>
  A callback: the element whose function object runs, named by the deleter that would erase it, what
  is left to do, and what is thrown then. An outbound call: a message that is still to be read, with
  the number of the serialization it stems from (and, for the record, the bytes of that), one that has
  been read, or a disconnection.
\<close>

datatype outbound_call = Unread nat bytes | Has_read | Disconnecting

datatype 'cb call_frame =
    Callback deleter "'cb client_op list" "exn option"
  | Outbound outbound_call

text \<open>\<open>cm_written\<close> counts how often the buffer has been cleared and written.\<close>

record 'cb client_machine =
  cm_session :: "'cb client_session"
  cm_frames :: "'cb call_frame list"
  cm_written :: nat

definition at_rest :: "nat \<Rightarrow> 'cb client_session \<Rightarrow> 'cb client_machine" where
  "at_rest n c = \<lparr>cm_session = c, cm_frames = [], cm_written = n\<rparr>"

lemma at_rest_simps [simp]:
  "cm_session (at_rest n c) = c" "cm_frames (at_rest n c) = []" "cm_written (at_rest n c) = n"
  by (simp_all add: at_rest_def)

text \<open>The element that \<^verbatim>\<open>message\<close> finds, its callback and what is left to deserialize.\<close>

definition message_target ::
    "codec \<Rightarrow> 'cb client_session \<Rightarrow> bytes \<Rightarrow> exn + (deleter \<times> 'cb \<times> bytes) option" where
  "message_target cd c payload =
     bind_result (dec_id cd payload) (\<lambda>(response_id, d).
       case smap_find response_id (cs_message_callbacks c) of
         Some (n, cb) \<Rightarrow> Inr (Some (Erase_message_callback n, cb, d))
       | None \<Rightarrow>
           if smap_lower_bound (Cb_key response_id 0) (cs_callbacks c)
              \<noteq> smap_upper_bound (Cb_key response_id (- 1)) (cs_callbacks c)
           then bind_result (dec_token cd d) (\<lambda>(token, d2).
             case smap_find (Cb_key response_id token) (cs_callbacks c) of
               Some (n, cb) \<Rightarrow> Inr (Some (Erase_callback n, cb, d2))
             | None \<Rightarrow> Inr None)
           else Inr None)"

text \<open>
  What a turn comes to: \<open>None\<close> is undefined behaviour; otherwise the exception that leaves the
  outermost call, if any, and the new state. Nobody under way catches, so an exception takes all frames
  away.
\<close>

type_synonym 'cb outcome = "(exn option \<times> 'cb client_machine) option"

definition message_enter ::
  "codec \<Rightarrow> ('cb \<Rightarrow> bytes \<Rightarrow> 'cb client_op list \<times> exn option) \<Rightarrow> bytes \<Rightarrow> 'cb client_machine \<Rightarrow> 'cb outcome" where
  "message_enter cd body payload m =
     (case message_target cd (cm_session m) payload of
        Inl x \<Rightarrow> Some (Some x, m\<lparr>cm_frames := []\<rparr>)
      | Inr None \<Rightarrow> Some (None, m)
      | Inr (Some (element, cb, d)) \<Rightarrow>
          Some (None, m\<lparr>cm_session := invoke cb d (cm_session m),
            cm_frames := Callback element (fst (body cb d)) (snd (body cb d)) # cm_frames m\<rparr>))"

text \<open>An operation that is over with its result, and one that goes on in the outbound channel.\<close>

definition goes_on ::
  "fault + 'cb client_session \<Rightarrow> ('cb client_machine \<Rightarrow> 'cb client_machine) \<Rightarrow> 'cb client_machine \<Rightarrow> 'cb outcome" where
  "goes_on r f m =
     (case r of
        Inr c \<Rightarrow> Some (None, f (m\<lparr>cm_session := c\<rparr>))
      | Inl Undefined_behaviour \<Rightarrow> None
      | Inl (Thrown x) \<Rightarrow> Some (Some x, m\<lparr>cm_frames := []\<rparr>))"

definition start_message :: "'cb client_machine \<Rightarrow> 'cb client_machine" where
  "start_message m = m\<lparr>cm_written := Suc (cm_written m),
     cm_frames := Outbound (Unread (Suc (cm_written m)) (cs_buffer (cm_session m))) # cm_frames m\<rparr>"

definition start_disconnect :: "'cb client_machine \<Rightarrow> 'cb client_machine" where
  "start_disconnect m = m\<lparr>cm_frames := Outbound Disconnecting # cm_frames m\<rparr>"

fun session_call ::
  "codec \<Rightarrow> ('cb \<Rightarrow> bytes \<Rightarrow> 'cb client_op list \<times> exn option) \<Rightarrow> 'cb client_op \<Rightarrow> 'cb client_machine \<Rightarrow> 'cb outcome" where
  "session_call cd body (Subscribe h i cb) m = goes_on (subscribe h i cb (cm_session m)) id m"
| "session_call cd body (Request h i payload r cb) m =
     goes_on (request_prepare cd i payload (request_ctor h r cb) (cm_session m)) start_message m"
| "session_call cd body (Request_multi h i payload cbs) m =
     goes_on (request_prepare cd i payload (request_multi_ctor h cbs) (cm_session m)) start_message m"
| "session_call cd body (Release h) m = goes_on (release_handle h (cm_session m)) id m"
| "session_call cd body (Receive payload) m = message_enter cd body payload m"
| "session_call cd body Disconnect_session m =
     goes_on (Inr (disconnect_session log_outbound (cm_session m))) start_disconnect m"

text \<open>
  A turn: the user calls the session while nothing runs; a message arrives, while nothing runs or from
  within an outbound call; the innermost callback performs its next operation, or it ends; the
  innermost outbound call reads its bytes, returns, or throws (\<^verbatim>\<open>disconnect\<close> is declared not to).
\<close>

datatype 'cb event =
    Call "'cb client_op"
  | Arrive bytes
  | Perform
  | End_callback
  | Outbound_reads
  | Outbound_returns
  | Outbound_throws exn

definition can_arrive :: "'cb client_machine \<Rightarrow> bool" where
  "can_arrive m = (case cm_frames m of Callback d as x # fs \<Rightarrow> False | _ \<Rightarrow> True)"

definition perform ::
  "codec \<Rightarrow> ('cb \<Rightarrow> bytes \<Rightarrow> 'cb client_op list \<times> exn option) \<Rightarrow> 'cb client_machine \<Rightarrow> 'cb outcome" where
  "perform cd body m =
     (case cm_frames m of
        Callback element (a # as) x # fs \<Rightarrow>
          if element \<in> owned (cm_session m)
          then session_call cd body a (m\<lparr>cm_frames := Callback element as x # fs\<rparr>)
          else None
      | _ \<Rightarrow> Some (None, m))"

definition end_callback :: "'cb client_machine \<Rightarrow> 'cb outcome" where
  "end_callback m =
     (case cm_frames m of
        Callback element [] x # fs \<Rightarrow> Some (x, m\<lparr>cm_frames := (if x = None then fs else [])\<rparr>)
      | _ \<Rightarrow> Some (None, m))"

definition outbound_reads :: "'cb client_machine \<Rightarrow> 'cb outcome" where
  "outbound_reads m =
     (case cm_frames m of
        Outbound (Unread n bs) # fs \<Rightarrow>
          if n = cm_written m
          then goes_on (lift_exn (ch_message log_outbound (cm_session m) (cs_buffer (cm_session m))))
            (\<lambda>m. m\<lparr>cm_frames := Outbound Has_read # fs\<rparr>) m
          else None
      | _ \<Rightarrow> Some (None, m))"

definition outbound_returns :: "'cb client_machine \<Rightarrow> 'cb outcome" where
  "outbound_returns m =
     (case cm_frames m of
        Outbound (Unread n bs) # fs \<Rightarrow> Some (None, m)
      | Outbound b # fs \<Rightarrow> Some (None, m\<lparr>cm_frames := fs\<rparr>)
      | _ \<Rightarrow> Some (None, m))"

definition outbound_throws :: "exn \<Rightarrow> 'cb client_machine \<Rightarrow> 'cb outcome" where
  "outbound_throws x m =
     (case cm_frames m of
        Outbound b # fs \<Rightarrow> if b = Disconnecting then Some (None, m) else Some (Some x, m\<lparr>cm_frames := []\<rparr>)
      | _ \<Rightarrow> Some (None, m))"

fun turn ::
  "codec \<Rightarrow> ('cb \<Rightarrow> bytes \<Rightarrow> 'cb client_op list \<times> exn option) \<Rightarrow> 'cb event \<Rightarrow> 'cb client_machine \<Rightarrow> 'cb outcome" where
  "turn cd body (Call a) m = (if cm_frames m = [] then session_call cd body a m else Some (None, m))"
| "turn cd body (Arrive payload) m = (if can_arrive m then message_enter cd body payload m else Some (None, m))"
| "turn cd body Perform m = perform cd body m"
| "turn cd body End_callback m = end_callback m"
| "turn cd body Outbound_reads m = outbound_reads m"
| "turn cd body Outbound_returns m = outbound_returns m"
| "turn cd body (Outbound_throws x) m = outbound_throws x m"

fun turns ::
  "codec \<Rightarrow> ('cb \<Rightarrow> bytes \<Rightarrow> 'cb client_op list \<times> exn option) \<Rightarrow> 'cb event list \<Rightarrow> 'cb client_machine \<Rightarrow> 'cb outcome" where
  "turns cd body [] m = Some (None, m)"
| "turns cd body (e # es) m =
     (case turn cd body e m of
        Some (None, m') \<Rightarrow> turns cd body es m'
      | r \<Rightarrow> r)"

lemma turns_step:
  "turn cd body e m = Some (None, m') \<Longrightarrow> turns cd body (e # es) m = turns cd body es m'"
  by simp

lemma turns_undefined: "turn cd body e m = None \<Longrightarrow> turns cd body (e # es) m = None"
  by simp

text \<open>
  The condition of \<open>op_allowed\<close>, for the operation that a turn performs; and the channel's part, which
  a run may keep to or not: to have read its message before it lets another in.
\<close>

fun event_allowed :: "'cb event \<Rightarrow> 'cb client_machine \<Rightarrow> bool" where
  "event_allowed (Call a) m = op_allowed a (cm_session m)"
| "event_allowed Perform m =
     (case cm_frames m of Callback d (a # as) x # fs \<Rightarrow> op_allowed a (cm_session m) | _ \<Rightarrow> True)"
| "event_allowed _ _ = True"

fun reads_first :: "'cb event \<Rightarrow> 'cb client_machine \<Rightarrow> bool" where
  "reads_first (Arrive payload) m = (case cm_frames m of Outbound (Unread n bs) # fs \<Rightarrow> False | _ \<Rightarrow> True)"
| "reads_first _ _ = True"

inductive reentrant_reach ::
  "bool \<Rightarrow> codec \<Rightarrow> ('cb \<Rightarrow> bytes \<Rightarrow> 'cb client_op list \<times> exn option) \<Rightarrow> 'cb client_machine \<Rightarrow> bool"
  for polite cd body where
  start: "reentrant_reach polite cd body (at_rest 0 client_ctor)"
| step: "reentrant_reach polite cd body m \<Longrightarrow> event_allowed e m \<Longrightarrow> (polite \<longrightarrow> reads_first e m) \<Longrightarrow>
    turn cd body e m = Some (x, m') \<Longrightarrow> reentrant_reach polite cd body m'"

text \<open>
  The innermost callback is not done, but the element it lives in has been erased; the innermost
  outbound call has not read its message, and another has been serialized since.
\<close>

definition outlived :: "'cb client_machine \<Rightarrow> bool" where
  "outlived m = (case cm_frames m of Callback d (a # as) x # fs \<Rightarrow> d \<notin> owned (cm_session m) | _ \<Rightarrow> False)"

definition overwritten :: "'cb client_machine \<Rightarrow> bool" where
  "overwritten m = (case cm_frames m of Outbound (Unread n bs) # fs \<Rightarrow> n \<noteq> cm_written m | _ \<Rightarrow> False)"

section \<open>Entering a callback\<close>

text \<open>The element is there when it is entered, and what is called is what \<open>client_message\<close> calls.\<close>

lemma smap_find_node: "smap_find k m = Some (n, v) \<Longrightarrow> n \<in> smap_nodes m"
  by (induction m) (auto simp: smap_nodes_def split: if_splits)

lemma message_target_owned: "message_target cd c payload = Inr (Some (d, cb, rest)) \<Longrightarrow> d \<in> owned c"
  by (clarsimp simp: message_target_def bind_result_def owned_def smap_find_node
      split: sum.splits option.splits if_splits prod.splits)

lemma client_message_target:
  "client_message cd c payload =
     map_sum id (\<lambda>t. case t of None \<Rightarrow> c | Some (_, cb, d) \<Rightarrow> invoke cb d c) (message_target cd c payload)"
  by (simp add: client_message_def message_target_def bind_result_def split: sum.split option.split)

lemma invoke_frame [simp]:
  "cs_callbacks (invoke cb d c) = cs_callbacks c"
  "cs_message_callbacks (invoke cb d c) = cs_message_callbacks c"
  "cs_token (invoke cb d c) = cs_token c"
  "cs_buffer (invoke cb d c) = cs_buffer c"
  "cs_next_node (invoke cb d c) = cs_next_node c"
  "cs_handles (invoke cb d c) = cs_handles c"
  "cs_calls (invoke cb d c) = cs_calls c @ [(cb, d)]"
  "cs_outbound_log (invoke cb d c) = cs_outbound_log c"
  "owned (invoke cb d c) = owned c"
  by (simp_all add: invoke_def owned_def)

lemma message_enter_defined: "message_enter cd body payload m \<noteq> None"
  by (auto simp: message_enter_def split: sum.split option.split)

section \<open>Every turn\<close>

text \<open>
  The session's invariant, and of a message that is still to be read: as long as nothing has been
  serialized since, the buffer holds it. If channels read first, only the innermost call can have
  an unread message, and nothing has been serialized since.
\<close>

definition unread_ok :: "'cb client_machine \<Rightarrow> bool" where
  "unread_ok m \<longleftrightarrow> (\<forall>n bs. Outbound (Unread n bs) \<in> set (cm_frames m) \<longrightarrow>
     n \<le> cm_written m \<and> (n = cm_written m \<longrightarrow> cs_buffer (cm_session m) = bs))"

definition read_first_ok :: "'cb client_machine \<Rightarrow> bool" where
  "read_first_ok m \<longleftrightarrow> (\<forall>n bs. Outbound (Unread n bs) \<notin> set (tl (cm_frames m))) \<and>
     (\<forall>n bs fs. cm_frames m = Outbound (Unread n bs) # fs \<longrightarrow> n = cm_written m)"

definition machine_inv :: "bool \<Rightarrow> 'cb client_machine \<Rightarrow> bool" where
  [inv_defs]: "machine_inv polite m \<longleftrightarrow>
     client_inv (cm_session m) \<and> unread_ok m \<and> (polite \<longrightarrow> read_first_ok m)"

text \<open>Only serializing touches the buffer.\<close>

lemma run_deleter_buffer: "run_deleter d c = Inr c' \<Longrightarrow> cs_buffer c' = cs_buffer c"
  by (cases d) (auto split: option.splits)

lemma run_deleters_buffer: "run_deleters ds c = Inr c' \<Longrightarrow> cs_buffer c' = cs_buffer c"
proof (induction ds arbitrary: c)
  case (Cons d ds)
  then show ?case by (auto simp: bind_result_eq_Inr dest: run_deleter_buffer)
qed simp

lemma subscribe_buffer: "subscribe h i cb c = Inr c' \<Longrightarrow> cs_buffer c' = cs_buffer c"
  by (auto simp: subscribe_def insert_message_callback_eq reset_handle_def set_handle_def
      dest!: run_deleters_buffer)

lemma release_handle_buffer: "release_handle h c = Inr c' \<Longrightarrow> cs_buffer c' = cs_buffer c"
  by (auto simp: release_handle_def set_handle_def dest!: run_deleters_buffer)

text \<open>A request up to its outbound call is the request over a channel that does nothing.\<close>

definition idle_channel :: "'cb client_session channel" where
  "idle_channel = \<lparr>ch_disconnect = (\<lambda>c. c), ch_message = (\<lambda>c m. Inr c)\<rparr>"

lemma idle_message [simp]: "lift_exn (ch_message idle_channel c m) = Inr c"
  by (simp add: idle_channel_def lift_exn_def)

lemma request_internal_idle:
  "request_internal cd idle_channel i payload ctor c = request_prepare cd i payload ctor c"
  by (cases "request_prepare cd i payload ctor c") (simp_all add: request_internal_def)

lemma request_prepare_ok:
  assumes "client_inv c" and "cs_token c \<noteq> - 1"
  shows "\<exists>c'. request_prepare cd i payload (request_ctor h r cb) c = Inr c' \<and> client_inv c'"
    and "distinct (map fst cbs) \<Longrightarrow>
      \<exists>c'. request_prepare cd i payload (request_multi_ctor h cbs) c = Inr c' \<and> client_inv c'"
  using request_ok [OF assms, of cd idle_channel h i payload r cb]
    request_multi_ok [OF assms, of cbs cd idle_channel h i payload]
  by (auto simp: request_def request_multi_def request_internal_idle)

text \<open>What happens to the frames below the innermost one when an operation is called.\<close>

lemma unread_ok_session:
  "unread_ok m \<Longrightarrow> cs_buffer c = cs_buffer (cm_session m) \<Longrightarrow> unread_ok (m\<lparr>cm_session := c\<rparr>)"
  by (simp add: unread_ok_def)

lemma start_message_ok:
  assumes "unread_ok m"
  shows "unread_ok (start_message (m\<lparr>cm_session := c\<rparr>))"
proof -
  have "n \<le> cm_written m" if "Outbound (Unread n bs) \<in> set (cm_frames m)" for n bs
    using assms that by (auto simp: unread_ok_def)
  then show ?thesis by (fastforce simp: unread_ok_def start_message_def)
qed

definition none_unread :: "'cb client_machine \<Rightarrow> bool" where
  "none_unread m \<longleftrightarrow> (\<forall>n bs. Outbound (Unread n bs) \<notin> set (cm_frames m))"

lemma none_unread_read_first: "none_unread m \<Longrightarrow> read_first_ok (m\<lparr>cm_session := c\<rparr>)"
  by (cases "cm_frames m") (auto simp: none_unread_def read_first_ok_def)

lemma message_enter_inv:
  assumes "machine_inv polite m" and "polite \<longrightarrow> none_unread m" and "message_enter cd body payload m = Some (x, m')"
  shows "machine_inv polite m'"
  using assms invoke_inv
  by (auto simp: message_enter_def machine_inv_def unread_ok_def read_first_ok_def none_unread_def
      split: sum.splits option.splits)

lemma session_call_ok:
  assumes inv: "machine_inv polite m" and unread: "polite \<longrightarrow> none_unread m" and allowed: "op_allowed a (cm_session m)"
  shows "session_call cd body a m \<noteq> None \<and>
    (\<forall>x m'. session_call cd body a m = Some (x, m') \<longrightarrow> machine_inv polite m')"
proof -
  have c: "client_inv (cm_session m)" and u: "unread_ok m" using inv by (simp_all add: machine_inv_def)
  have calm: "machine_inv polite (m\<lparr>cm_session := c'\<rparr>)"
    if "client_inv c'" "cs_buffer c' = cs_buffer (cm_session m)" for c'
    using that u unread by (simp add: machine_inv_def unread_ok_session none_unread_read_first)
  have sends: "machine_inv polite (start_message (m\<lparr>cm_session := c'\<rparr>))" if "client_inv c'" for c'
    using that start_message_ok [OF u, of c'] unread
    by (auto simp: machine_inv_def read_first_ok_def none_unread_def start_message_def)
  show ?thesis
  proof (cases a)
    case (Subscribe h i cb)
    with allowed obtain c' where c': "subscribe h i cb (cm_session m) = Inr c'" "client_inv c'"
      using subscribe_ok [OF c, of i h cb] by auto
    with calm [OF c'(2) subscribe_buffer [OF c'(1)]] Subscribe show ?thesis by (simp add: goes_on_def)
  next
    case (Request h i payload r cb)
    with allowed obtain c' where "request_prepare cd i payload (request_ctor h r cb) (cm_session m) = Inr c'" "client_inv c'"
      using request_prepare_ok(1) [OF c, of cd i payload h r cb] by auto
    with sends Request show ?thesis by (simp add: goes_on_def)
  next
    case (Request_multi h i payload cbs)
    with allowed obtain c' where "request_prepare cd i payload (request_multi_ctor h cbs) (cm_session m) = Inr c'" "client_inv c'"
      using request_prepare_ok(2) [OF c, of cbs cd i payload h] by auto
    with sends Request_multi show ?thesis by (simp add: goes_on_def)
  next
    case (Release h)
    obtain c' where c': "release_handle h (cm_session m) = Inr c'" "client_inv c'"
      using release_handle_ok [OF c, of h] by blast
    with calm [OF c'(2) release_handle_buffer [OF c'(1)]] Release show ?thesis by (simp add: goes_on_def)
  next
    case (Receive payload)
    then show ?thesis
      using message_enter_defined [of cd body payload m] message_enter_inv [OF inv unread] by auto
  next
    case Disconnect_session
    have "machine_inv polite (start_disconnect (m\<lparr>cm_session := disconnect_session log_outbound (cm_session m)\<rparr>))"
      using c u unread outbound_keeps_log
      by (auto simp: machine_inv_def start_disconnect_def disconnect_session_def unread_ok_def read_first_ok_def
          none_unread_def outbound_keeps_def log_outbound_def)
    with Disconnect_session show ?thesis by (simp add: goes_on_def)
  qed
qed

text \<open>
  From a session in order, a turn with an allowed operation is undefined exactly when a callback
  goes on after its element has been erased or a channel reads what has been overwritten, and leaves
  a session in order otherwise.
\<close>

lemma read_first_tail: "read_first_ok m \<Longrightarrow> cm_frames m = f # fs \<Longrightarrow> Outbound (Unread n bs) \<notin> set fs"
  by (simp add: read_first_ok_def)

lemma perform_ok:
  assumes inv: "machine_inv polite m" and allowed: "event_allowed Perform m"
  shows "(perform cd body m = None \<longleftrightarrow> outlived m) \<and>
    (\<forall>x m'. perform cd body m = Some (x, m') \<longrightarrow> machine_inv polite m')"
proof (cases "\<exists>d a as x fs. cm_frames m = Callback d (a # as) x # fs")
  case True
  then obtain d a as x fs where fs: "cm_frames m = Callback d (a # as) x # fs" by blast
  let ?m = "m\<lparr>cm_frames := Callback d as x # fs\<rparr>"
  have "machine_inv polite ?m"
    using inv fs by (auto simp: machine_inv_def unread_ok_def read_first_ok_def)
  moreover have "polite \<longrightarrow> none_unread ?m"
    using inv fs by (auto simp: machine_inv_def none_unread_def dest: read_first_tail)
  moreover have "op_allowed a (cm_session ?m)" using allowed fs by simp
  ultimately show ?thesis
    using session_call_ok [of polite ?m a cd body] fs by (auto simp: perform_def outlived_def)
next
  case False
  then have "perform cd body m = Some (None, m)" "\<not> outlived m"
    by (auto simp: perform_def outlived_def split: list.splits call_frame.splits)
  with inv show ?thesis by simp
qed

lemma outbound_reads_ok:
  assumes inv: "machine_inv polite m"
  shows "(outbound_reads m = None \<longleftrightarrow> overwritten m) \<and>
    (\<forall>x m'. outbound_reads m = Some (x, m') \<longrightarrow> machine_inv polite m') \<and>
    (\<forall>n bs fs. cm_frames m = Outbound (Unread n bs) # fs \<longrightarrow> \<not> overwritten m \<longrightarrow>
      outbound_reads m = Some (None, m\<lparr>cm_session := (cm_session m)\<lparr>cs_outbound_log :=
        cs_outbound_log (cm_session m) @ [Message bs]\<rparr>, cm_frames := Outbound Has_read # fs\<rparr>))"
proof (cases "\<exists>n bs fs. cm_frames m = Outbound (Unread n bs) # fs")
  case True
  then obtain n bs fs where fs: "cm_frames m = Outbound (Unread n bs) # fs" by blast
  let ?c = "(cm_session m)\<lparr>cs_outbound_log := cs_outbound_log (cm_session m) @ [Message bs]\<rparr>"
  let ?m = "m\<lparr>cm_session := ?c, cm_frames := Outbound Has_read # fs\<rparr>"
  have c: "client_inv ?c"
    using inv outbound_keeps_log by (auto simp: machine_inv_def outbound_keeps_def log_outbound_def)
  have "machine_inv polite ?m"
    using inv fs c by (auto simp: machine_inv_def unread_ok_def read_first_ok_def)
  moreover have "outbound_reads m = (if n = cm_written m then Some (None, ?m) else None)"
    using inv fs by (simp add: outbound_reads_def machine_inv_def unread_ok_def goes_on_def log_outbound_def lift_exn_def)
  ultimately show ?thesis using fs by (auto simp: overwritten_def)
next
  case False
  then have "outbound_reads m = Some (None, m)" "\<not> overwritten m"
    by (auto simp: outbound_reads_def overwritten_def split: list.splits call_frame.splits outbound_call.splits)
  with inv False show ?thesis by simp
qed

text \<open>The turns that only take frames away.\<close>

lemma machine_inv_pop: "machine_inv polite m \<Longrightarrow> cm_frames m = f # fs \<Longrightarrow> machine_inv polite (m\<lparr>cm_frames := fs\<rparr>)"
  by (cases fs) (auto simp: machine_inv_def unread_ok_def read_first_ok_def)

lemma machine_inv_clear: "machine_inv polite m \<Longrightarrow> machine_inv polite (m\<lparr>cm_frames := []\<rparr>)"
  by (simp add: machine_inv_def unread_ok_def read_first_ok_def)

lemma popping_ok:
  assumes "machine_inv polite m" and "r \<in> {end_callback m, outbound_returns m, outbound_throws y m}"
  shows "r \<noteq> None \<and> (\<forall>x m'. r = Some (x, m') \<longrightarrow> machine_inv polite m')"
  using assms machine_inv_pop [OF assms(1)] machine_inv_clear [OF assms(1)]
  by (auto simp: end_callback_def outbound_returns_def outbound_throws_def
      split: list.splits call_frame.splits outbound_call.splits if_splits)

lemma turn_ok:
  assumes inv: "machine_inv polite m" and allowed: "event_allowed e m" and first: "polite \<longrightarrow> reads_first e m"
  shows "(turn cd body e m = None \<longleftrightarrow> e = Perform \<and> outlived m \<or> e = Outbound_reads \<and> overwritten m) \<and>
    (\<forall>x m'. turn cd body e m = Some (x, m') \<longrightarrow> machine_inv polite m')"
proof (cases e)
  case (Call a)
  then show ?thesis
    using session_call_ok [OF inv, of a cd body] inv allowed by (auto simp: none_unread_def)
next
  case (Arrive p)
  have "polite \<longrightarrow> can_arrive m \<longrightarrow> none_unread m"
    using first inv Arrive
    by (auto simp: none_unread_def can_arrive_def machine_inv_def read_first_ok_def
        split: list.splits call_frame.splits outbound_call.splits)
  then show ?thesis
    using message_enter_defined [of cd body p m] message_enter_inv [OF inv, of cd body p] inv Arrive by auto
next
  case Perform
  then show ?thesis using perform_ok [OF inv, of cd body] allowed by simp
next
  case Outbound_reads
  then show ?thesis using outbound_reads_ok [OF inv] by auto
qed (use popping_ok [OF inv] in auto)

lemma machine_inv_start: "machine_inv polite (at_rest 0 client_ctor)"
  by (simp add: machine_inv_def client_inv_ctor unread_ok_def read_first_ok_def)

lemma reentrant_reach_inv: "reentrant_reach polite cd body m \<Longrightarrow> machine_inv polite m"
proof (induction rule: reentrant_reach.induct)
  case (step m e x m')
  then show ?case using turn_ok [of polite m e cd body] by blast
qed (rule machine_inv_start)

lemma machine_inv_not_overwritten: "machine_inv True m \<Longrightarrow> \<not> overwritten m"
  by (auto simp: machine_inv_def read_first_ok_def overwritten_def
      split: list.splits call_frame.splits outbound_call.splits)

text \<open>
  An operation on its own, whose channel reads and returns at once, does what \<open>client_do\<close> says.
\<close>

lemma call_alone:
  assumes "client_do cd log_outbound a c = Inr c'" and "\<forall>p. a \<noteq> Receive p"
  shows "\<exists>k. turns cd body [Call a, Outbound_reads, Outbound_returns] (at_rest n c) = Some (None, at_rest k c')"
  using assms
  by (cases a)
    (auto simp: request_def request_multi_def request_internal_def bind_result_eq_Inr goes_on_def start_message_def
      start_disconnect_def outbound_reads_def outbound_returns_def log_outbound_def lift_exn_def at_rest_def)

section \<open>Asking again\<close>

text \<open>
  A callback that asks again through the handle that holds its own request, as the last thing it
  does: its element is erased while it runs, which is fine as nothing of it runs afterwards. The new
  request is pending under the next token, the old one is forgotten.
\<close>

lemma message_target_response:
  assumes cd: "codec_ok cd" "int32 r" and maps: "maps_ok c"
    and none: "smap_lookup (cs_message_callbacks c) r = None"
    and pending: "(n, Cb_key r t, cb) \<in> set (cs_callbacks c)"
  shows "message_target cd c (enc_id cd r @ enc_token cd t @ d) = Inr (Some (Erase_callback n, cb, d))"
proof -
  have inv: "smap_inv (cs_callbacks c)" using maps by (simp add: maps_ok_def)
  then have look: "smap_lookup (cs_callbacks c) (Cb_key r t) = Some cb"
    using pending by (rule smap_lookup_in)
  then have some: "\<exists>t. smap_lookup (cs_callbacks c) (Cb_key r t) \<noteq> None" by auto
  have "smap_find (Cb_key r t) (cs_callbacks c) = Some (n, cb)"
    using smap_find_unique [OF inv pending] .
  with some cd none show ?thesis
    by (simp add: message_target_def codec_id codec_token pending_range [OF inv] flip: smap_find_None)
qed

lemma callback_asks_again:
  assumes inv: "client_inv c" and token: "cs_token c \<noteq> - 1" and cd: "codec_ok cd" "int32 r"
    and none: "smap_lookup (cs_message_callbacks c) r = None"
    and pending: "(n, Cb_key r t, cb) \<in> set (cs_callbacks c)" and h: "cs_handles c h = [Erase_callback n]"
    and body: "body cb d = ([Request h i payload r cb], None)"
  shows "\<exists>c'. turns cd body [Arrive (enc_id cd r @ enc_token cd t @ d), Perform, Outbound_reads, Outbound_returns,
        End_callback] (at_rest k c) = Some (None, at_rest (Suc k) c') \<and>
    client_inv c' \<and> cs_calls c' = cs_calls c @ [(cb, d)] \<and>
    cs_outbound_log c' = cs_outbound_log c @ [Message (enc_id cd i @ enc_token cd (cs_token c) @ payload)] \<and>
    (cs_next_node c, Cb_key r (cs_token c), cb) \<in> set (cs_callbacks c') \<and>
    cs_handles c' h = [Erase_callback (cs_next_node c)] \<and>
    smap_lookup (cs_callbacks c') (Cb_key r t) = None"
proof -
  let ?c1 = "invoke cb d c" and ?msg = "enc_id cd i @ enc_token cd (cs_token c) @ payload"
  have maps: "maps_ok c" using inv by (simp add: client_inv_def)
  then have "message_target cd c (enc_id cd r @ enc_token cd t @ d) = Inr (Some (Erase_callback n, cb, d))"
    using cd none pending by (intro message_target_response)
  then have enter: "turn cd body (Arrive (enc_id cd r @ enc_token cd t @ d)) (at_rest k c) = Some (None,
      \<lparr>cm_session = ?c1, cm_frames = [Callback (Erase_callback n) [Request h i payload r cb] None], cm_written = k\<rparr>)"
    by (simp add: message_enter_def body can_arrive_def at_rest_def)
  obtain c2 where c2: "request cd idle_channel h i payload r cb ?c1 = lift_exn (ch_message idle_channel c2 ?msg)"
      "client_inv c2" "(cs_next_node c, Cb_key r (cs_token c), cb) \<in> set (cs_callbacks c2)"
      "cs_handles c2 h = [Erase_callback (cs_next_node c)]"
      "cs_calls c2 = cs_calls c @ [(cb, d)]" "cs_outbound_log c2 = cs_outbound_log c" "cs_buffer c2 = ?msg"
    and only: "\<forall>e \<in> set (cs_callbacks c2). e = (cs_next_node c, Cb_key r (cs_token c), cb) \<or>
      e \<in> set (cs_callbacks c) \<and> Erase_callback (fst e) \<notin> set (cs_handles c h)"
    using request_ok [OF invoke_inv [OF inv], of cb d cd idle_channel h i payload r cb] token
    unfolding invoke_frame fun_upd_same by (metis fun_upd_same)
  let ?c3 = "c2\<lparr>cs_outbound_log := cs_outbound_log c2 @ [Message ?msg]\<rparr>"
  have prepare: "request_prepare cd i payload (request_ctor h r cb) ?c1 = Inr c2"
    using c2(1) by (simp add: request_def request_internal_idle)
  have "Erase_callback n \<in> owned c" using pending by (force simp: owned_def smap_nodes_def)
  then have run: "turns cd body [Perform, Outbound_reads, Outbound_returns, End_callback]
      \<lparr>cm_session = ?c1, cm_frames = [Callback (Erase_callback n) [Request h i payload r cb] None], cm_written = k\<rparr> =
      Some (None, at_rest (Suc k) ?c3)"
    by (simp add: perform_def prepare goes_on_def start_message_def outbound_reads_def outbound_returns_def
        end_callback_def log_outbound_def lift_exn_def c2(7) at_rest_def)
  have "e = (n, Cb_key r t, cb)" if "e \<in> set (cs_callbacks c)" "fst (snd e) = Cb_key r t" for e
    using smap_key_unique [OF _ pending] maps that by (metis maps_ok_def prod.collapse)
  moreover have "t < cs_token c" using pending maps by (auto simp: maps_ok_def)
  ultimately have "smap_lookup (cs_callbacks c2) (Cb_key r t) = None"
    using only h by (force simp: smap_lookup_None)
  moreover have "client_inv ?c3"
    using outbound_keeps_log c2(2) by (auto simp: outbound_keeps_def log_outbound_def)
  ultimately show ?thesis
    unfolding turns_step [OF enter] run using c2 by (intro exI [of _ ?c3]) simp
qed

text \<open>
  A callback that lets its own registration go and then goes on: whatever comes next is undefined.
\<close>

lemma callback_outlives_itself:
  assumes inv: "client_inv c" and cd: "codec_ok cd" "int32 r"
    and none: "smap_lookup (cs_message_callbacks c) r = None"
    and pending: "(n, Cb_key r t, cb) \<in> set (cs_callbacks c)" and h: "cs_handles c h = [Erase_callback n]"
    and body: "fst (body cb d) = Release h # a # as"
  shows "turns cd body [Arrive (enc_id cd r @ enc_token cd t @ d), Perform, Perform] (at_rest k c) = None"
proof -
  let ?c1 = "invoke cb d c"
  let ?f = "\<lambda>as. Callback (Erase_callback n) as (snd (body cb d))"
  have maps: "maps_ok c" using inv by (simp add: client_inv_def)
  then have "message_target cd c (enc_id cd r @ enc_token cd t @ d) = Inr (Some (Erase_callback n, cb, d))"
    using cd none pending by (intro message_target_response)
  then have enter: "turn cd body (Arrive (enc_id cd r @ enc_token cd t @ d)) (at_rest k c) =
      Some (None, \<lparr>cm_session = ?c1, cm_frames = [?f (Release h # a # as)], cm_written = k\<rparr>)"
    by (simp add: message_enter_def body can_arrive_def at_rest_def)
  let ?c2 = "drop_owned [Erase_callback n] (set_handle h [] ?c1)"
  have rel: "release_handle h ?c1 = Inr ?c2"
    using release_handle_ok(1) [OF invoke_inv [OF inv], of h cb d] h by simp
  have "Erase_callback n \<in> owned c"
    using pending by (force simp: owned_def smap_nodes_def)
  then have perform: "turn cd body Perform \<lparr>cm_session = ?c1, cm_frames = [?f (Release h # a # as)], cm_written = k\<rparr> =
      Some (None, \<lparr>cm_session = ?c2, cm_frames = [?f (a # as)], cm_written = k\<rparr>)"
    by (simp add: perform_def goes_on_def rel)
  have gone: "turn cd body Perform \<lparr>cm_session = ?c2, cm_frames = [?f (a # as)], cm_written = k\<rparr> = None"
    by (simp add: perform_def owned_drop_owned)
  show ?thesis
    by (simp only: turns_step [OF enter] turns_step [OF perform] turns_undefined [OF gone])
qed

section \<open>The buffer of requests\<close>

text \<open>
  All requests are serialized into one buffer. A response that the channel lets in before it has read
  a request, to a callback that asks for something else: when the channel then reads the outer request,
  its range is over a buffer that has been written anew.
\<close>

lemma nested_request_overwrites:
  assumes inv: "client_inv (cm_session m)" and token: "cs_token (cm_session m) \<noteq> - 1"
    and frames: "cm_frames m = Callback d [Request h i payload r cb] None # Outbound (Unread n bs) # fs"
    and owned: "d \<in> owned (cm_session m)" and "n \<le> cm_written m"
  shows "turns cd body [Perform, Outbound_reads, Outbound_returns, End_callback, Outbound_reads] m = None"
proof -
  obtain c where c: "request_prepare cd i payload (request_ctor h r cb) (cm_session m) = Inr c"
    using request_prepare_ok(1) [OF inv token] by blast
  show ?thesis
    using frames owned assms(5)
    by (simp add: perform_def c goes_on_def start_message_def outbound_reads_def outbound_returns_def
        end_callback_def log_outbound_def lift_exn_def)
qed

section \<open>When all handles are gone\<close>

text \<open>No callback outlives its handle: with no handle left, both maps are empty.\<close>

lemma callbacks_need_handles:
  assumes "client_inv c" and "\<And>h. cs_handles c h = []"
  shows "cs_callbacks c = [] \<and> cs_message_callbacks c = []"
proof -
  have "owned c = {}" using assms by (auto simp: client_inv_def handles_ok_def partitions_def)
  then show ?thesis by (auto simp: owned_def smap_nodes_def)
qed

end
