(* ===== verification/Server_Session.thy ===== *)
theory Server_Session
  imports Codec Framing "HOL-Library.Multiset"
begin

text \<open>
  \<^verbatim>\<open>strmd::server_session\<close> (\<^verbatim>\<open>coipc/strmd/server_session.h\<close>, \<^verbatim>\<open>src/strmd/server_session.cpp\<close>).
  A handler is code of the user; what matters of it here is which methods of the \<^verbatim>\<open>response\<close> and
  of the session it calls, in which order, so a handler that has its argument is a list of
  actions. The apartment queue belongs to another library: the tasks scheduled there are kept
  as a list, and any of them may be the next to run. The state of the outbound channel is a
  component of the state.
\<close>

text \<open>
  \<open>Respond\<close> is \<^verbatim>\<open>response::operator ()\<close> with a result already serialized, \<open>Notify\<close> the message
  without a token, \<open>Defer\<close> is \<^verbatim>\<open>response::defer\<close>, \<open>Raise\<close> an exception of the handler itself.
\<close>

datatype action =
    Respond int bytes
  | Notify int bytes
  | Defer "action list"
  | Raise exn

record response =
  resp_token :: u64
  resp_deferral_enabled :: bool
  resp_continuation :: "action list option"

type_synonym handler = "bytes \<Rightarrow> exn + action list"

record 'o server_session =
  ss_outbound :: 'o
  ss_outbound_buffer :: bytes
  ss_disconnect_handler :: bool
  ss_disconnect_calls :: nat
  ss_handlers :: "int \<Rightarrow> handler option"
  ss_apartment_queue :: "(u64 \<times> action list) list option"

definition server_ctor :: "'o \<Rightarrow> bool \<Rightarrow> 'o server_session" where
  "server_ctor outbound apartment = \<lparr>ss_outbound = outbound, ss_outbound_buffer = [],
     ss_disconnect_handler = False, ss_disconnect_calls = 0, ss_handlers = (\<lambda>_. None),
     ss_apartment_queue = (if apartment then Some [] else None)\<rparr>"

definition set_disconnect_handler :: "'o server_session \<Rightarrow> 'o server_session" where
  "set_disconnect_handler s = s\<lparr>ss_disconnect_handler := True\<rparr>"

definition server_disconnect :: "'o server_session \<Rightarrow> 'o server_session" where
  "server_disconnect s =
     (if ss_disconnect_handler s then s\<lparr>ss_disconnect_calls := ss_disconnect_calls s + 1\<rparr> else s)"

text \<open>The two specializations of \<^verbatim>\<open>handler_thunk\<close>; \<open>dec\<close> deserializes the argument.\<close>

definition handler_thunk0 :: "action list \<Rightarrow> handler" where
  "handler_thunk0 underlying = (\<lambda>payload. Inr underlying)"

definition handler_thunk1 :: "(bytes \<Rightarrow> exn + 'a \<times> bytes) \<Rightarrow> ('a \<Rightarrow> action list) \<Rightarrow> handler" where
  "handler_thunk1 dec underlying =
     (\<lambda>payload. bind_result (dec payload) (\<lambda>(arg1, _). Inr (underlying arg1)))"

definition add_handler :: "int \<Rightarrow> handler \<Rightarrow> 'o server_session \<Rightarrow> 'o server_session" where
  "add_handler request_id thunk s = s\<lparr>ss_handlers := (ss_handlers s)(request_id \<mapsto> thunk)\<rparr>"

text \<open>Sending: the writer clears the buffer, the id and what the formatter writes follow.\<close>

definition server_send ::
  "codec \<Rightarrow> 'o channel \<Rightarrow> int \<Rightarrow> bytes \<Rightarrow> 'o server_session \<Rightarrow> exn option \<times> 'o server_session" where
  "server_send cd outbound message_id formatted s =
     (let s1 = s\<lparr>ss_outbound_buffer :=
                  buffer_writer_ctor (ss_outbound_buffer s) @ enc_id cd message_id @ formatted\<rparr>
      in case ch_message outbound (ss_outbound s1) (ss_outbound_buffer s1) of
           Inl x \<Rightarrow> (Some x, s1)
         | Inr o' \<Rightarrow> (None, s1\<lparr>ss_outbound := o'\<rparr>))"

definition respond ::
  "codec \<Rightarrow> 'o channel \<Rightarrow> response \<Rightarrow> int \<Rightarrow> bytes \<Rightarrow> 'o server_session \<Rightarrow>
   exn option \<times> 'o server_session" where
  "respond cd outbound resp response_id formatted s =
     server_send cd outbound response_id (enc_token cd (resp_token resp) @ formatted) s"

definition response_ctor :: "u64 \<Rightarrow> bool \<Rightarrow> response" where
  "response_ctor token deferral_enabled =
     \<lparr>resp_token = token, resp_deferral_enabled = deferral_enabled, resp_continuation = None\<rparr>"

definition response_defer :: "action list \<Rightarrow> response \<Rightarrow> exn + response" where
  "response_defer continuation_handler resp =
     (if \<not> resp_deferral_enabled resp
      then Inl (Std_logic_error ''deferring is disabled - no queue'')
      else Inr (resp\<lparr>resp_continuation := Some continuation_handler\<rparr>))"

text \<open>Running a handler, up to the first exception.\<close>

fun run_actions ::
  "codec \<Rightarrow> 'o channel \<Rightarrow> action list \<Rightarrow> response \<Rightarrow> 'o server_session \<Rightarrow>
   exn option \<times> response \<times> 'o server_session" where
  "run_actions cd out [] resp s = (None, resp, s)"
| "run_actions cd out (Respond i b # as) resp s =
     (case respond cd out resp i b s of
        (Some x, s') \<Rightarrow> (Some x, resp, s')
      | (None, s') \<Rightarrow> run_actions cd out as resp s')"
| "run_actions cd out (Notify i b # as) resp s =
     (case server_send cd out i b s of
        (Some x, s') \<Rightarrow> (Some x, resp, s')
      | (None, s') \<Rightarrow> run_actions cd out as resp s')"
| "run_actions cd out (Defer k # as) resp s =
     (case response_defer k resp of
        Inl x \<Rightarrow> (Some x, resp, s)
      | Inr resp' \<Rightarrow> run_actions cd out as resp' s)"
| "run_actions cd out (Raise x # as) resp s = (Some x, resp, s)"

definition schedule_continuation ::
    "u64 \<Rightarrow> action list \<Rightarrow> 'o server_session \<Rightarrow> 'o server_session" where
  "schedule_continuation token continuation_handler s =
     s\<lparr>ss_apartment_queue :=
        map_option (\<lambda>q. q @ [(token, continuation_handler)]) (ss_apartment_queue s)\<rparr>"

text \<open>What \<^verbatim>\<open>message\<close> and the scheduled task have in common: run, then schedule what was deferred.\<close>

definition run_and_schedule ::
  "codec \<Rightarrow> 'o channel \<Rightarrow> action list \<Rightarrow> response \<Rightarrow> 'o server_session \<Rightarrow>
   exn option \<times> 'o server_session" where
  "run_and_schedule cd out as resp s =
     (case run_actions cd out as resp s of
        (Some x, _, s') \<Rightarrow> (Some x, s')
      | (None, resp', s') \<Rightarrow>
          (case resp_continuation resp' of
             None \<Rightarrow> (None, s')
           | Some k \<Rightarrow> (None, schedule_continuation (resp_token resp') k s')))"

definition server_message ::
  "codec \<Rightarrow> 'o channel \<Rightarrow> 'o server_session \<Rightarrow> bytes \<Rightarrow> exn option \<times> 'o server_session" where
  "server_message cd out s payload =
     (case bind_result (dec_id cd payload) (\<lambda>(request_id, d).
             bind_result (dec_token cd d) (\<lambda>(token, d2). Inr (request_id, token, d2))) of
        Inl x \<Rightarrow> (Some x, s)
      | Inr (request_id, token, d2) \<Rightarrow>
          (case ss_handlers s request_id of
             None \<Rightarrow> (None, s)
           | Some h \<Rightarrow>
               (case h d2 of
                  Inl x \<Rightarrow> (Some x, s)
                | Inr as \<Rightarrow> run_and_schedule cd out as
                    (response_ctor token (ss_apartment_queue s \<noteq> None)) s)))"

text \<open>The queue runs the \<open>i\<close>-th of its tasks.\<close>

definition server_task ::
  "codec \<Rightarrow> 'o channel \<Rightarrow> nat \<Rightarrow> 'o server_session \<Rightarrow> (exn option \<times> 'o server_session) option" where
  "server_task cd out i s =
     (case ss_apartment_queue s of
        None \<Rightarrow> None
      | Some q \<Rightarrow>
          if i < length q
          then Some (run_and_schedule cd out (snd (q ! i)) (response_ctor (fst (q ! i)) True)
                 (s\<lparr>ss_apartment_queue := Some (take i q @ drop (Suc i) q)\<rparr>))
          else None)"

inductive task_step :: "codec \<Rightarrow> 'o channel \<Rightarrow> 'o server_session \<Rightarrow> 'o server_session \<Rightarrow> bool"
  for cd out where
  "server_task cd out i s = Some (None, t) \<Longrightarrow> task_step cd out s t"

inductive_cases task_stepE: "task_step cd out s t"

section \<open>What a handler sends in all\<close>

text \<open>The messages of one run, the continuation it leaves, and all that follows from it.\<close>

fun sends :: "codec \<Rightarrow> u64 \<Rightarrow> action list \<Rightarrow> bytes list" where
  "sends cd t [] = []"
| "sends cd t (Respond i b # as) = (enc_id cd i @ enc_token cd t @ b) # sends cd t as"
| "sends cd t (Notify i b # as) = (enc_id cd i @ b) # sends cd t as"
| "sends cd t (Defer k # as) = sends cd t as"
| "sends cd t (Raise x # as) = []"

fun last_defer :: "action list \<Rightarrow> action list option" where
  "last_defer [] = None"
| "last_defer (Defer k # as) = (case last_defer as of None \<Rightarrow> Some k | Some k' \<Rightarrow> Some k')"
| "last_defer (Respond i b # as) = last_defer as"
| "last_defer (Notify i b # as) = last_defer as"
| "last_defer (Raise x # as) = last_defer as"

lemma last_defer_size: "last_defer as = Some k \<Longrightarrow> size_list size k < size_list size as"
  by (induction as rule: last_defer.induct) (auto split: option.splits)

function all_sends :: "codec \<Rightarrow> u64 \<Rightarrow> action list \<Rightarrow> bytes list" where
  "all_sends cd t as =
     sends cd t as @ (case last_defer as of None \<Rightarrow> [] | Some k \<Rightarrow> all_sends cd t k)"
  by pat_completeness auto
termination
  by (relation "measure (\<lambda>(_, _, as). size_list size as)") (simp_all add: last_defer_size)

text \<open>How many runs it takes.\<close>

function runs :: "action list \<Rightarrow> nat" where
  "runs as = Suc (case last_defer as of None \<Rightarrow> 0 | Some k \<Rightarrow> runs k)"
  by pat_completeness auto
termination
  by (relation "measure (size_list size)") (simp_all add: last_defer_size)

declare all_sends.simps [simp del] runs.simps [simp del]

text \<open>No exception is raised, neither now nor in a continuation that is left.\<close>

function calm :: "action list \<Rightarrow> bool" where
  "calm as \<longleftrightarrow> (\<forall>x. Raise x \<notin> set as) \<and> (case last_defer as of None \<Rightarrow> True | Some k \<Rightarrow> calm k)"
  by pat_completeness auto
termination
  by (relation "measure (size_list size)") (simp_all add: last_defer_size)

declare calm.simps [simp del]

section \<open>Runs\<close>

lemma response_ctor_simps [simp]:
  "resp_token (response_ctor t d) = t"
  "resp_deferral_enabled (response_ctor t d) = d"
  "resp_continuation (response_ctor t d) = None"
  by (simp_all add: response_ctor_def)

lemma server_send_recorder:
  "server_send cd recorder i b s =
     (None, s\<lparr>ss_outbound_buffer := enc_id cd i @ b,
              ss_outbound := ss_outbound s @ [Message (enc_id cd i @ b)]\<rparr>)"
  by (simp add: server_send_def recorder_def buffer_writer_ctor_def Let_def)

lemma run_actions_recorder:
  assumes "\<forall>x. Raise x \<notin> set as" and "last_defer as = None \<or> resp_deferral_enabled resp"
  shows "\<exists>b. run_actions cd recorder as resp s =
    (None,
     resp\<lparr>resp_continuation :=
       (case last_defer as of None \<Rightarrow> resp_continuation resp | Some k \<Rightarrow> Some k)\<rparr>,
     s\<lparr>ss_outbound := ss_outbound s @ map Message (sends cd (resp_token resp) as),
       ss_outbound_buffer := b\<rparr>)"
  using assms
proof (induction as arbitrary: resp s rule: last_defer.induct)
  case 1
  show ?case by (intro exI [of _ "ss_outbound_buffer s"]) simp
next
  case (2 k as)
  have "resp_deferral_enabled resp" using 2(3) by (auto split: option.splits)
  moreover have "\<forall>x. Raise x \<notin> set as" using 2(2) by simp
  ultimately show ?case
    using 2(1) [of "resp\<lparr>resp_continuation := Some k\<rparr>" s]
    by (cases "last_defer as") (simp_all add: response_defer_def)
next
  case (3 i b as)
  then show ?case
    using "3.IH" [of resp "s\<lparr>ss_outbound_buffer := enc_id cd i @ enc_token cd (resp_token resp) @ b,
        ss_outbound := ss_outbound s @ [Message (enc_id cd i @ enc_token cd (resp_token resp) @ b)]\<rparr>"]
    by (simp add: respond_def server_send_recorder)
next
  case (4 i b as)
  then show ?case
    using "4.IH" [of resp "s\<lparr>ss_outbound_buffer := enc_id cd i @ b,
        ss_outbound := ss_outbound s @ [Message (enc_id cd i @ b)]\<rparr>"]
    by (simp add: server_send_recorder)
next
  case (5 x as)
  then show ?case by auto
qed

lemma run_and_schedule_recorder:
  assumes "\<forall>x. Raise x \<notin> set as" and "last_defer as = None \<or> resp_deferral_enabled resp"
    and "resp_continuation resp = None"
  shows "\<exists>b. run_and_schedule cd recorder as resp s =
    (None, s\<lparr>ss_outbound := ss_outbound s @ map Message (sends cd (resp_token resp) as),
       ss_outbound_buffer := b,
       ss_apartment_queue := (case last_defer as of
           None \<Rightarrow> ss_apartment_queue s
         | Some k \<Rightarrow> map_option (\<lambda>q. q @ [(resp_token resp, k)]) (ss_apartment_queue s))\<rparr>)"
  using run_actions_recorder [OF assms(1,2), of cd s] assms(3)
  by (auto simp: run_and_schedule_def schedule_continuation_def split: option.splits)

text \<open>A request for which there is no handler is ignored.\<close>

lemma server_message_unknown:
  assumes "codec_ok cd" and "int32 i" and "ss_handlers s i = None"
  shows "server_message cd out s (enc_id cd i @ enc_token cd t @ body) = (None, s)"
  using assms by (simp add: server_message_def codec_id codec_token)

lemma server_message_known:
  assumes "codec_ok cd" and "int32 i" and "ss_handlers s i = Some h" and "h body = Inr as"
  shows "server_message cd out s (enc_id cd i @ enc_token cd t @ body) =
    run_and_schedule cd out as (response_ctor t (ss_apartment_queue s \<noteq> None)) s"
  using assms by (simp add: server_message_def codec_id codec_token)

text \<open>Without a queue, the first deferral ends the handler; what it has sent by then is sent.\<close>

lemma run_actions_no_queue:
  assumes "\<forall>a \<in> set pre. \<exists>i b. a = Respond i b \<or> a = Notify i b"
    and "\<not> resp_deferral_enabled resp"
  shows "\<exists>b. run_actions cd recorder (pre @ Defer k # as) resp s =
    (Some (Std_logic_error ''deferring is disabled - no queue''), resp,
     s\<lparr>ss_outbound := ss_outbound s @ map Message (sends cd (resp_token resp) pre),
       ss_outbound_buffer := b\<rparr>)"
  using assms(1)
proof (induction pre arbitrary: s)
  case Nil
  show ?case
    using assms(2) by (intro exI [of _ "ss_outbound_buffer s"]) (simp add: response_defer_def)
next
  case (Cons a pre)
  let ?m = "hd (sends cd (resp_token resp) [a])"
  have "run_actions cd recorder ((a # pre) @ Defer k # as) resp s =
      run_actions cd recorder (pre @ Defer k # as) resp
        (s\<lparr>ss_outbound_buffer := ?m, ss_outbound := ss_outbound s @ [Message ?m]\<rparr>)"
    and "sends cd (resp_token resp) (a # pre) = ?m # sends cd (resp_token resp) pre"
    using Cons.prems by (auto simp: respond_def server_send_recorder)
  with Cons.IH [of "s\<lparr>ss_outbound_buffer := ?m, ss_outbound := ss_outbound s @ [Message ?m]\<rparr>"]
    Cons.prems show ?case by simp
qed

section \<open>The queue\<close>

text \<open>
  What the session has sent and what its queue still holds: the sum does not change, whichever
  task runs next, and the number of runs left goes down by one.
\<close>

fun task_sends :: "codec \<Rightarrow> u64 \<times> action list \<Rightarrow> bytes multiset" where
  "task_sends cd (t, as) = mset (all_sends cd t as)"

definition pending_sends :: "codec \<Rightarrow> 'o server_session \<Rightarrow> bytes multiset" where
  "pending_sends cd s =
     (case ss_apartment_queue s of None \<Rightarrow> {#} | Some q \<Rightarrow> sum_list (map (task_sends cd) q))"

definition pending_runs :: "'o server_session \<Rightarrow> nat" where
  "pending_runs s =
     (case ss_apartment_queue s of None \<Rightarrow> 0 | Some q \<Rightarrow> sum_list (map (runs \<circ> snd) q))"

definition queue_calm :: "'o server_session \<Rightarrow> bool" where
  "queue_calm s \<longleftrightarrow>
     (case ss_apartment_queue s of None \<Rightarrow> False | Some q \<Rightarrow> (\<forall>e \<in> set q. calm (snd e)))"

lemma sum_list_remove_nth:
  fixes f :: "'a \<Rightarrow> 'b::comm_monoid_add"
  assumes "i < length q"
  shows "sum_list (map f q) = f (q ! i) + sum_list (map f (take i q @ drop (Suc i) q))"
proof -
  have "sum_list (map f q) = sum_list (map f (take i q @ q ! i # drop (Suc i) q))"
    using id_take_nth_drop [OF assms] by simp
  then show ?thesis by (simp add: ac_simps)
qed

lemma task_sends_unfold:
  "task_sends cd e = mset (sends cd (fst e) (snd e)) +
     (case last_defer (snd e) of None \<Rightarrow> {#} | Some k \<Rightarrow> task_sends cd (fst e, k))"
proof (cases e)
  case (Pair t as)
  then show ?thesis
    using all_sends.simps [of cd t as] by (cases "last_defer as") simp_all
qed

lemma calm_last_defer: "calm as \<Longrightarrow> last_defer as = Some k \<Longrightarrow> calm k"
  by (simp add: calm.simps [of as])

lemma server_task_recorder:
  assumes calm: "queue_calm s" and q: "ss_apartment_queue s = Some q" and i: "i < length q"
  obtains t where "server_task cd recorder i s = Some (None, t)"
    and "ss_outbound t = ss_outbound s @ map Message (sends cd (fst (q ! i)) (snd (q ! i)))"
    and "ss_apartment_queue t = Some (take i q @ drop (Suc i) q @
      (case last_defer (snd (q ! i)) of None \<Rightarrow> [] | Some k \<Rightarrow> [(fst (q ! i), k)]))"
proof -
  let ?r = "response_ctor (fst (q ! i)) True"
  let ?s = "s\<lparr>ss_apartment_queue := Some (take i q @ drop (Suc i) q)\<rparr>"
  have "calm (snd (q ! i))" using calm q nth_mem [OF i] by (simp add: queue_calm_def)
  then have "\<forall>x. Raise x \<notin> set (snd (q ! i))" by (simp add: calm.simps [of "snd (q ! i)"])
  then obtain b where run: "run_and_schedule cd recorder (snd (q ! i)) ?r ?s =
    (None, ?s\<lparr>ss_outbound := ss_outbound ?s @ map Message (sends cd (resp_token ?r) (snd (q ! i))),
       ss_outbound_buffer := b,
       ss_apartment_queue := (case last_defer (snd (q ! i)) of
           None \<Rightarrow> ss_apartment_queue ?s
         | Some k \<Rightarrow> map_option (\<lambda>q. q @ [(resp_token ?r, k)]) (ss_apartment_queue ?s))\<rparr>)"
    (is "_ = (None, ?t)")
    using run_and_schedule_recorder [of "snd (q ! i)" ?r cd ?s] by (auto simp: response_ctor_def)
  show thesis
  proof (rule that)
    show "server_task cd recorder i s = Some (None, ?t)"
      using q i run by (simp only: server_task_def option.case if_True)
    show "ss_outbound ?t = ss_outbound s @ map Message (sends cd (fst (q ! i)) (snd (q ! i)))"
      by (simp add: response_ctor_def)
    show "ss_apartment_queue ?t = Some (take i q @ drop (Suc i) q @
      (case last_defer (snd (q ! i)) of None \<Rightarrow> [] | Some k \<Rightarrow> [(fst (q ! i), k)]))"
      by (simp add: response_ctor_def split: option.split)
  qed
qed

lemma server_task_conserves:
  assumes calm: "queue_calm s" and task: "server_task cd recorder i s = Some (x, t)"
  shows "x = None \<and> queue_calm t \<and> pending_runs s = Suc (pending_runs t) \<and>
    mset (ss_outbound t) + image_mset Message (pending_sends cd t) =
      mset (ss_outbound s) + image_mset Message (pending_sends cd s)"
proof -
  obtain q where q: "ss_apartment_queue s = Some q" and i: "i < length q"
    using task by (auto simp: server_task_def split: option.splits if_splits)
  let ?tok = "fst (q ! i)"
  let ?as = "snd (q ! i)"
  let ?rest = "take i q @ drop (Suc i) q"
  obtain t' where t': "server_task cd recorder i s = Some (None, t')"
    and out: "ss_outbound t' = ss_outbound s @ map Message (sends cd ?tok ?as)"
    and queue: "ss_apartment_queue t' = Some (take i q @ drop (Suc i) q @
      (case last_defer ?as of None \<Rightarrow> [] | Some k \<Rightarrow> [(?tok, k)]))"
    using server_task_recorder [OF calm q i] by blast
  have tt: "x = None" "t' = t" using task t' by simp_all
  have calm_all: "\<forall>e \<in> set q. calm (snd e)" using calm q by (simp add: queue_calm_def)
  then have calm_as: "calm ?as" using nth_mem [OF i] by blast
  have "queue_calm t"
    using calm_all calm_last_defer [OF calm_as] queue tt
    by (auto simp: queue_calm_def split: option.splits dest: in_set_takeD in_set_dropD)
  moreover have "runs ?as = Suc (case last_defer ?as of None \<Rightarrow> 0 | Some k \<Rightarrow> runs k)"
    by (rule runs.simps)
  then have "pending_runs s = Suc (pending_runs t)"
    using queue tt sum_list_remove_nth [OF i, of "runs \<circ> snd"] q
    by (simp add: pending_runs_def split: option.split)
  moreover have "task_sends cd (q ! i) = mset (sends cd ?tok ?as) +
      (case last_defer ?as of None \<Rightarrow> {#} | Some k \<Rightarrow> task_sends cd (?tok, k))"
    by (rule task_sends_unfold)
  then have "pending_sends cd s = mset (sends cd ?tok ?as) + pending_sends cd t"
    using queue tt sum_list_remove_nth [OF i, of "task_sends cd"] q
    by (simp add: pending_sends_def ac_simps split: option.split)
  then have "mset (ss_outbound t) + image_mset Message (pending_sends cd t) =
      mset (ss_outbound s) + image_mset Message (pending_sends cd s)"
    using out tt by simp
  ultimately show ?thesis using tt by blast
qed

lemma task_steps_conserve:
  "(task_step cd recorder)\<^sup>*\<^sup>* s t \<Longrightarrow> queue_calm s \<Longrightarrow>
   queue_calm t \<and>
   mset (ss_outbound t) + image_mset Message (pending_sends cd t) =
     mset (ss_outbound s) + image_mset Message (pending_sends cd s)"
proof (induction rule: rtranclp_induct)
  case (step t u)
  from step(2) obtain i where "server_task cd recorder i t = Some (None, u)"
    by (rule task_stepE)
  with step show ?case using server_task_conserves [of t cd i None u] by auto
qed simp

text \<open>A queue that still holds a task can run it, so every schedule gets to the end.\<close>

lemma task_step_progress:
  assumes "queue_calm s" and "ss_apartment_queue s \<noteq> Some []"
  shows "\<exists>t. task_step cd recorder s t"
proof -
  obtain q where q: "ss_apartment_queue s = Some q" "0 < length q"
    using assms by (auto simp: queue_calm_def split: option.splits)
  obtain t where "server_task cd recorder 0 s = Some (None, t)"
    by (rule server_task_recorder [OF assms(1) q, of cd])
  then show ?thesis by (intro exI) (rule task_step.intros)
qed

lemma task_steps_bounded:
  "(task_step cd recorder ^^ n) s t \<Longrightarrow> queue_calm s \<Longrightarrow>
   queue_calm t \<and> pending_runs s = n + pending_runs t"
proof (induction n arbitrary: t)
  case (Suc n)
  from Suc.prems(1) obtain u where u: "(task_step cd recorder ^^ n) s u" "task_step cd recorder u t"
    by auto
  from u(2) obtain i where "server_task cd recorder i u = Some (None, t)" by (rule task_stepE)
  with Suc.IH [OF u(1) Suc.prems(2)] server_task_conserves [of u cd i None t] show ?case by simp
qed simp

lemma runs_not_0 [simp]: "runs as \<noteq> 0"
  by (subst runs.simps) simp

lemma pending_runs_0: "queue_calm s \<Longrightarrow> pending_runs s = 0 \<longleftrightarrow> ss_apartment_queue s = Some []"
  by (cases "ss_apartment_queue s"; cases "the (ss_apartment_queue s)")
    (simp_all add: queue_calm_def pending_runs_def)

section \<open>Deferring without a queue\<close>

text \<open>
  A handler that defers although the session has no queue ends there, with a
  \<^verbatim>\<open>logic_error\<close>; what it has sent before is sent, what comes after is not.
\<close>

lemma defer_without_queue:
  assumes "codec_ok cd" and "int32 i" and "ss_handlers s i = Some h"
    and "h body = Inr (pre @ Defer k # as)" and "ss_apartment_queue s = None"
    and "\<forall>a \<in> set pre. \<exists>j b. a = Respond j b \<or> a = Notify j b"
  shows "\<exists>s'. server_message cd recorder s (enc_id cd i @ enc_token cd t @ body) =
      (Some (Std_logic_error ''deferring is disabled - no queue''), s') \<and>
    ss_outbound s' = ss_outbound s @ map Message (sends cd t pre) \<and> ss_apartment_queue s' = None"
  using run_actions_no_queue [OF assms(6), of "response_ctor t False" cd k as s] assms(5)
  by (auto simp: server_message_known [OF assms(1-4)] run_and_schedule_def response_ctor_def)

end
