(* ===== verification/Handler_Thunks.thy ===== *)
theory Handler_Thunks
  imports Server_Session
begin

text \<open>
  How a handler of the user becomes an entry of the session's table (\<^verbatim>\<open>coipc/argument_traits.h\<close>, and
  \<^verbatim>\<open>add_handler\<close>, \<^verbatim>\<open>handler_thunk\<close> and \<^verbatim>\<open>response\<close> of \<^verbatim>\<open>coipc/strmd/server_session.h\<close>). The type of
  its call operator decides which thunk wraps it. The thunk for a handler with an argument keeps
  that argument as a mutable member, into which each request is deserialized anew: the entry is an
  object with a state. \<open>Server_Session\<close> takes entries for functions of the request; here it is
  shown when that is right.
\<close>

section \<open>The types of handlers\<close>

text \<open>
  The types that matter, and the type of a call operator: what it returns, what it takes, and
  whether it is \<^verbatim>\<open>const\<close>.
\<close>

datatype cxx_type = Void | Response_reference | Other_type string

datatype call_operator =
  Call_operator (op_return: cxx_type) (op_arguments: "cxx_type list") (op_const: bool)

record arguments_pack =
  pack_count :: nat
  pack_return_type :: cxx_type
  pack_argument_types :: "cxx_type list"

text \<open>The overloads of \<^verbatim>\<open>argtype_helper\<close>; \<open>None\<close> is a call operator that fits none, which does not compile.\<close>

fun argtype_helper :: "call_operator \<Rightarrow> arguments_pack option" where
  "argtype_helper (Call_operator r [] False) =
     Some \<lparr>pack_count = 0, pack_return_type = r, pack_argument_types = []\<rparr>"
| "argtype_helper (Call_operator r [] True) =
     Some \<lparr>pack_count = 0, pack_return_type = r, pack_argument_types = []\<rparr>"
| "argtype_helper (Call_operator r [t1] False) =
     Some \<lparr>pack_count = 1, pack_return_type = r, pack_argument_types = [t1]\<rparr>"
| "argtype_helper (Call_operator r [t1] True) =
     Some \<lparr>pack_count = 1, pack_return_type = r, pack_argument_types = [t1]\<rparr>"
| "argtype_helper (Call_operator r [t1, t2] False) =
     Some \<lparr>pack_count = 2, pack_return_type = r, pack_argument_types = [t1, t2]\<rparr>"
| "argtype_helper (Call_operator r [t1, t2] True) =
     Some \<lparr>pack_count = 2, pack_return_type = r, pack_argument_types = [t1, t2]\<rparr>"
| "argtype_helper (Call_operator r (t1 # t2 # t3 # ts) c) = None"

datatype thunk_kind = No_argument | One_argument cxx_type

text \<open>The specializations of \<^verbatim>\<open>handler_thunk\<close>; the primary template has no definition.\<close>

definition thunk_kind_of :: "arguments_pack \<Rightarrow> thunk_kind option" where
  "thunk_kind_of p =
     (if pack_return_type p = Void \<and> pack_argument_types p = [Response_reference] then Some No_argument
      else case pack_argument_types p of
          [t, t1] \<Rightarrow>
            if pack_return_type p = Void \<and> t = Response_reference then Some (One_argument t1) else None
        | _ \<Rightarrow> None)"

definition handler_accepted :: "call_operator \<Rightarrow> thunk_kind option" where
  "handler_accepted f = Option.bind (argtype_helper f) thunk_kind_of"

text \<open>Whether the call operator is \<^verbatim>\<open>const\<close> makes no difference; the count is that of the arguments.\<close>

lemma argtype_helper_eq:
  "argtype_helper f =
     (if length (op_arguments f) \<le> 2
      then Some \<lparr>pack_count = length (op_arguments f), pack_return_type = op_return f,
                 pack_argument_types = op_arguments f\<rparr>
      else None)"
  by (cases f rule: argtype_helper.cases) simp_all

lemma handler_accepted_iff:
  "handler_accepted f = Some No_argument \<longleftrightarrow>
     op_return f = Void \<and> op_arguments f = [Response_reference]"
  "handler_accepted f = Some (One_argument t) \<longleftrightarrow>
     op_return f = Void \<and> op_arguments f = [Response_reference, t]"
  by (cases f rule: argtype_helper.cases; auto simp: handler_accepted_def thunk_kind_of_def)+

section \<open>Responding\<close>

text \<open>The two call operators of \<^verbatim>\<open>response\<close>; \<open>enc\<close> serializes the result.\<close>

definition response_call :: "codec \<Rightarrow> 'o channel \<Rightarrow> response \<Rightarrow> int \<Rightarrow> 'o server_session \<Rightarrow>
    exn option \<times> 'o server_session" where
  "response_call cd out resp response_id s = respond cd out resp response_id [] s"

definition response_call_with :: "codec \<Rightarrow> 'o channel \<Rightarrow> ('r \<Rightarrow> bytes) \<Rightarrow> response \<Rightarrow> int \<Rightarrow> 'r \<Rightarrow>
    'o server_session \<Rightarrow> exn option \<times> 'o server_session" where
  "response_call_with cd out enc resp response_id result s = respond cd out resp response_id (enc result) s"

text \<open>They are what the action \<open>Respond\<close> stands for.\<close>

lemma run_actions_calls:
  "run_actions cd out [Respond i []] resp s = (fst (response_call cd out resp i s), resp, snd (response_call cd out resp i s))"
  "run_actions cd out [Respond i (enc r)] resp s =
     (fst (response_call_with cd out enc resp i r s), resp, snd (response_call_with cd out enc resp i r s))"
  by (auto simp: response_call_def response_call_with_def split: prod.split option.split)

section \<open>Entries with a state\<close>

text \<open>
  An entry takes the payload of a request; it throws, or calls the user's handler, and is another
  entry afterwards.
\<close>

codatatype handler_object =
  Handler_object (handle_request: "bytes \<Rightarrow> (exn + action list) \<times> handler_object")

primcorec thunk0_object :: "action list \<Rightarrow> handler_object" where
  "handle_request (thunk0_object underlying) =
     (\<lambda>payload. map_prod id (\<lambda>_. thunk0_object underlying) (Inr underlying, ()))"

text \<open>
  \<open>into\<close> deserializes into a value that is there already; when it throws, what it has done to the
  value stays. \<open>underlying\<close> is the handler: what it does with the argument, and what it leaves of it
  (a handler that takes its argument by reference can change it).
\<close>

type_synonym 'a reader = "'a \<Rightarrow> bytes \<Rightarrow> (exn \<times> 'a) + ('a \<times> bytes)"

definition thunk1_call ::
    "'a reader \<Rightarrow> ('a \<Rightarrow> action list \<times> 'a) \<Rightarrow> 'a \<Rightarrow> bytes \<Rightarrow> (exn + action list) \<times> 'a" where
  "thunk1_call into underlying arg1 payload =
     (case into arg1 payload of
        Inl (x, arg1') \<Rightarrow> (Inl x, arg1')
      | Inr (arg1', rest) \<Rightarrow> (Inr (fst (underlying arg1')), snd (underlying arg1')))"

primcorec thunk1_object :: "'a reader \<Rightarrow> ('a \<Rightarrow> action list \<times> 'a) \<Rightarrow> 'a \<Rightarrow> handler_object" where
  "handle_request (thunk1_object into underlying arg1) =
     (\<lambda>payload. map_prod id (thunk1_object into underlying) (thunk1_call into underlying arg1 payload))"

text \<open>A handler as it is registered, and the value its argument starts from.\<close>

datatype 'a registration =
    Plain "action list"
  | With_argument "'a reader" "'a \<Rightarrow> action list \<times> 'a" 'a

fun make_thunk :: "'a registration \<Rightarrow> handler_object" where
  "make_thunk (Plain underlying) = thunk0_object underlying"
| "make_thunk (With_argument into underlying initial) = thunk1_object into underlying initial"

type_synonym 'o object_session = "'o server_session \<times> (int \<Rightarrow> handler_object option)"

definition add_handler_object :: "int \<Rightarrow> 'a registration \<Rightarrow> 'o object_session \<Rightarrow> 'o object_session" where
  "add_handler_object request_id handler s = (fst s, (snd s)(request_id \<mapsto> make_thunk handler))"

text \<open>\<^verbatim>\<open>message\<close> with such entries: the entry that was called is replaced by what it has become.\<close>

definition object_message ::
  "codec \<Rightarrow> 'o channel \<Rightarrow> 'o object_session \<Rightarrow> bytes \<Rightarrow> exn option \<times> 'o object_session" where
  "object_message cd out s payload =
     (case bind_result (dec_id cd payload) (\<lambda>(request_id, d).
             bind_result (dec_token cd d) (\<lambda>(token, d2). Inr (request_id, token, d2))) of
        Inl x \<Rightarrow> (Some x, s)
      | Inr (request_id, token, d2) \<Rightarrow>
          (case snd s request_id of
             None \<Rightarrow> (None, s)
           | Some h \<Rightarrow>
               (let H = (snd s)(request_id \<mapsto> snd (handle_request h d2))
                in case fst (handle_request h d2) of
                     Inl x \<Rightarrow> (Some x, fst s, H)
                   | Inr as \<Rightarrow>
                       (let (x, t) = run_and_schedule cd out as
                              (response_ctor token (ss_apartment_queue (fst s) \<noteq> None)) (fst s)
                        in (x, t, H)))))"

text \<open>A sequence of requests, with what each of them throws.\<close>

fun object_messages ::
  "codec \<Rightarrow> 'o channel \<Rightarrow> 'o object_session \<Rightarrow> bytes list \<Rightarrow> exn option list \<times> 'o object_session" where
  "object_messages cd out s [] = ([], s)"
| "object_messages cd out s (p # ps) =
     (let (x, s1) = object_message cd out s p; (xs, s2) = object_messages cd out s1 ps in (x # xs, s2))"

fun server_messages ::
  "codec \<Rightarrow> 'o channel \<Rightarrow> 'o server_session \<Rightarrow> bytes list \<Rightarrow> exn option list \<times> 'o server_session" where
  "server_messages cd out s [] = ([], s)"
| "server_messages cd out s (p # ps) =
     (let (x, s1) = server_message cd out s p; (xs, s2) = server_messages cd out s1 ps in (x # xs, s2))"

section \<open>When an entry is a function of the request\<close>

coinductive behaves_as :: "handler_object \<Rightarrow> handler \<Rightarrow> bool" where
  "(\<And>p. fst (handle_request obj p) = h p) \<Longrightarrow> (\<And>p. behaves_as (snd (handle_request obj p)) h) \<Longrightarrow>
   behaves_as obj h"

inductive_cases behaves_asE: "behaves_as obj h"

lemma behaves_asD:
  "behaves_as obj h \<Longrightarrow> fst (handle_request obj p) = h p"
  "behaves_as obj h \<Longrightarrow> behaves_as (snd (handle_request obj p)) h"
  by (auto elim: behaves_asE)

text \<open>A reader whose result does not depend on the value it reads into.\<close>

definition overwrites :: "'a reader \<Rightarrow> bool" where
  "overwrites into \<longleftrightarrow> (\<forall>a a' p. map_sum fst id (into a p) = map_sum fst id (into a' p))"

fun stateless :: "'a registration \<Rightarrow> handler" where
  "stateless (Plain underlying) = handler_thunk0 underlying"
| "stateless (With_argument into underlying initial) =
     handler_thunk1 (\<lambda>p. map_sum fst id (into initial p)) (fst \<circ> underlying)"

fun registration_ok :: "'a registration \<Rightarrow> bool" where
  "registration_ok (Plain underlying) = True"
| "registration_ok (With_argument into underlying initial) = overwrites into"

lemma thunk0_behaves: "behaves_as (thunk0_object underlying) (handler_thunk0 underlying)"
  by (coinduction) (auto simp: handler_thunk0_def)

lemma thunk1_behaves:
  assumes "overwrites into"
  shows "behaves_as (thunk1_object into underlying a)
    (handler_thunk1 (\<lambda>p. map_sum fst id (into initial p)) (fst \<circ> underlying))"
proof (coinduction arbitrary: a)
  case behaves_as
  have same: "map_sum fst id (into a p) = map_sum fst id (into initial p)" for p
    using assms unfolding overwrites_def by blast
  have "fst (thunk1_call into underlying a p) =
      handler_thunk1 (\<lambda>p. map_sum fst id (into initial p)) (fst \<circ> underlying) p" for p
    unfolding handler_thunk1_def same [symmetric]
    by (auto simp: thunk1_call_def split: sum.split)
  then show ?case by (auto simp: fst_map_prod)
qed

lemma make_thunk_behaves: "registration_ok r \<Longrightarrow> behaves_as (make_thunk r) (stateless r)"
  by (cases r) (simp_all add: thunk0_behaves thunk1_behaves)

section \<open>Sessions\<close>

text \<open>The session with functions in place of entries; nothing but the lookup depends on the table.\<close>

definition with_table :: "(int \<Rightarrow> handler option) \<Rightarrow> 'o server_session \<Rightarrow> 'o server_session" where
  "with_table T s = s\<lparr>ss_handlers := T\<rparr>"

lemma with_table_simps [simp]:
  "ss_handlers (with_table T s) = T"
  "ss_apartment_queue (with_table T s) = ss_apartment_queue s"
  "ss_outbound (with_table T s) = ss_outbound s"
  by (simp_all add: with_table_def)

lemma server_send_table:
  "server_send cd out i b (with_table T s) = map_prod id (with_table T) (server_send cd out i b s)"
  by (simp add: server_send_def with_table_def Let_def split: sum.split)

lemma run_actions_table:
  "run_actions cd out as resp (with_table T s) =
     map_prod id (map_prod id (with_table T)) (run_actions cd out as resp s)"
proof (induction cd out as resp s rule: run_actions.induct)
  case (2 cd out i b as resp s)
  then show ?case
    by (cases "respond cd out resp i b s"; cases "fst (respond cd out resp i b s)")
      (auto simp: respond_def server_send_table)
next
  case (3 cd out i b as resp s)
  then show ?case
    by (cases "server_send cd out i b s"; cases "fst (server_send cd out i b s)")
      (auto simp: server_send_table)
next
  case (4 cd out k as resp s)
  then show ?case by (simp split: sum.split)
qed simp_all

lemma schedule_continuation_table:
  "schedule_continuation token k (with_table T s) = with_table T (schedule_continuation token k s)"
  by (simp add: schedule_continuation_def with_table_def)

lemma add_handler_table:
  "add_handler i h (with_table T s) = with_table (T(i \<mapsto> h)) s"
  by (simp add: add_handler_def with_table_def)

lemma run_and_schedule_table:
  "run_and_schedule cd out as resp (with_table T s) =
     map_prod id (with_table T) (run_and_schedule cd out as resp s)"
  by (cases "run_actions cd out as resp s"; cases "fst (run_actions cd out as resp s)")
    (auto simp: run_and_schedule_def run_actions_table schedule_continuation_table split: option.split)

definition behave_as :: "(int \<Rightarrow> handler_object option) \<Rightarrow> (int \<Rightarrow> handler option) \<Rightarrow> bool" where
  "behave_as H T \<longleftrightarrow> (\<forall>i. rel_option behaves_as (H i) (T i))"

lemma object_message_refines:
  assumes "behave_as H T"
  shows "\<exists>x t H'. object_message cd out (s, H) p = (x, t, H') \<and> behave_as H' T \<and>
    server_message cd out (with_table T s) p = (x, with_table T t)"
proof (cases "bind_result (dec_id cd p) (\<lambda>(request_id, d).
             bind_result (dec_token cd d) (\<lambda>(token, d2). Inr (request_id, token, d2)))")
  case (Inl x)
  then show ?thesis using assms by (simp add: object_message_def server_message_def)
next
  case (Inr v)
  obtain i token d where v: "v = (i, token, d)" by (cases v)
  have rel: "rel_option behaves_as (H i) (T i)" using assms by (simp add: behave_as_def)
  show ?thesis
  proof (cases "H i")
    case None
    then show ?thesis using rel assms Inr by (simp add: object_message_def server_message_def v)
  next
    case (Some obj)
    then obtain h where h: "T i = Some h" "behaves_as obj h" using rel by (auto simp: option_rel_Some1)
    let ?H = "H(i \<mapsto> snd (handle_request obj d))"
    have H': "behave_as ?H T"
      using assms h behaves_asD(2) [OF h(2)] by (simp add: behave_as_def)
    have call: "fst (handle_request obj d) = h d" using h(2) by (rule behaves_asD)
    show ?thesis
    proof (cases "h d")
      case (Inl x)
      then show ?thesis
        using \<open>bind_result _ _ = Inr v\<close> Some h call H' by (simp add: object_message_def server_message_def v)
    next
      case (Inr as)
      obtain x t where run: "run_and_schedule cd out as
          (response_ctor token (ss_apartment_queue s \<noteq> None)) s = (x, t)" by fastforce
      show ?thesis
        using \<open>bind_result _ _ = Inr v\<close> Some h call H' Inr run
        by (simp add: object_message_def server_message_def v run_and_schedule_table)
    qed
  qed
qed

lemma object_messages_refine:
  "behave_as H T \<Longrightarrow> \<exists>xs t H'. object_messages cd out (s, H) ps = (xs, t, H') \<and> behave_as H' T \<and>
    server_messages cd out (with_table T s) ps = (xs, with_table T t)"
proof (induction ps arbitrary: s H)
  case (Cons p ps)
  obtain x t H' where m: "object_message cd out (s, H) p = (x, t, H')" "behave_as H' T"
    "server_message cd out (with_table T s) p = (x, with_table T t)"
    using object_message_refines [OF Cons.prems, of cd out s p] by blast
  with Cons.IH [OF m(2), of t] show ?case by auto
qed simp

text \<open>Registering: the last registration of an id counts.\<close>

definition register_objects :: "(int \<times> 'a registration) list \<Rightarrow> 'o object_session \<Rightarrow> 'o object_session" where
  "register_objects rs s = fold (\<lambda>(i, r). add_handler_object i r) rs s"

definition register_functions :: "(int \<times> 'a registration) list \<Rightarrow> 'o server_session \<Rightarrow> 'o server_session" where
  "register_functions rs s = fold (\<lambda>(i, r). add_handler i (stateless r)) rs s"

lemma register_behaves:
  assumes "behave_as (snd s) (ss_handlers t)" and "\<forall>(i, r) \<in> set rs. registration_ok r"
    and "t = with_table (ss_handlers t) (fst s)"
  shows "behave_as (snd (register_objects rs s)) (ss_handlers (register_functions rs t)) \<and>
    fst (register_objects rs s) = fst s \<and>
    register_functions rs t = with_table (ss_handlers (register_functions rs t)) (fst s)"
  using assms
proof (induction rs arbitrary: s t)
  case (Cons ir rs)
  obtain i r where ir: "ir = (i, r)" by (cases ir)
  let ?s = "add_handler_object i r s" and ?t = "add_handler i (stateless r) t"
  have "behave_as (snd ?s) (ss_handlers ?t)"
    using Cons.prems(1,2) make_thunk_behaves [of r]
    by (simp add: behave_as_def add_handler_object_def add_handler_def ir)
  moreover have "?t = with_table (ss_handlers ?t) (fst ?s)"
    using Cons.prems(3) add_handler_table [of i "stateless r" "ss_handlers t" "fst s"]
    by (simp add: add_handler_object_def)
  moreover have "\<forall>(i, r) \<in> set rs. registration_ok r" using Cons.prems(2) by simp
  moreover have "register_objects (ir # rs) s = register_objects rs ?s"
    and "register_functions (ir # rs) t = register_functions rs ?t" and "fst ?s = fst s"
    by (simp_all add: register_objects_def register_functions_def ir add_handler_object_def)
  ultimately show ?case using Cons.IH [of ?s ?t] by simp
qed (simp add: register_objects_def register_functions_def)

section \<open>When it is not\<close>

text \<open>
  A reader that appends to the value (as one for a container would that does not clear it): the
  handler of a request is given the arguments of all requests before it as well.
\<close>

definition appends :: "'b list reader \<Rightarrow> (bytes \<Rightarrow> exn + 'b list \<times> bytes) \<Rightarrow> bool" where
  "appends into dec \<longleftrightarrow> (\<forall>a p. into a p = (case dec p of Inl x \<Rightarrow> Inl (x, a) | Inr (v, rest) \<Rightarrow> Inr (a @ v, rest)))"

fun successive_calls :: "handler_object \<Rightarrow> bytes list \<Rightarrow> (exn + action list) list" where
  "successive_calls obj [] = []"
| "successive_calls obj (p # ps) =
     fst (handle_request obj p) # successive_calls (snd (handle_request obj p)) ps"

lemma appending_reader_accumulates:
  assumes "appends into dec" and "dec p1 = Inr (v1, r1)" and "dec p2 = Inr (v2, r2)"
    and "\<forall>a. snd (underlying a) = a"
  shows "successive_calls (thunk1_object into underlying []) [p1, p2] =
    [Inr (fst (underlying v1)), Inr (fst (underlying (v1 @ v2)))]"
  using assms by (simp add: appends_def thunk1_call_def)

text \<open>What is kept of an argument when deserializing it has thrown, the next request starts from.\<close>

lemma failed_reader_leaves_its_part:
  assumes "into initial p1 = Inl (x, a)" and "into a p2 = Inr (v, r)"
  shows "successive_calls (thunk1_object into underlying initial) [p1, p2] =
    [Inl x, Inr (fst (underlying v))]"
  using assms by (simp add: thunk1_call_def)

end
