(* ===== verification/Server_Reentrancy.thy ===== *)
theory Server_Reentrancy
  imports Handler_Thunks
begin

text \<open>
  Handlers of a server session (\<^verbatim>\<open>coipc/strmd/server_session.h\<close>, \<^verbatim>\<open>src/strmd/server_session.cpp\<close>) that
  use the session while they run: they respond step by step, they register handlers, and while the
  outbound channel sends what they respond, further requests may come in (a COM apartment dispatches
  the calls it receives while it waits for one of its own). Handlers under way are a stack of frames.
  Three things are shared by them: the table's entries, in which the code of a handler lives together
  with the argument of its last request; the one buffer into which everything is serialized; and the
  queue. What this makes undefined is made out, and handlers that keep clear of it do not
  disturb each other.
\<close>

section \<open>Handlers\<close>

text \<open>
  A handler is what it does next: it returns or throws, looks at what its thunk keeps (its captures,
  and the argument if it takes that by reference; one that takes it by value looks once, at
  the beginning), responds, sends a message, defers (the continuation has a value of its own), or
  registers a handler, with the reader and the initial value of its argument.
\<close>

datatype 'a body =
    Finish
  | Throws exn
  | Look "'a \<Rightarrow> 'a body"
  | Responds int bytes "'a body"
  | Notifies int bytes "'a body"
  | Defers 'a "'a body" "'a body"
  | Registers int "'a reader option" "'a body" 'a "'a body"

text \<open>What the handler does when what it looks at does not change, as a list of actions.\<close>

primrec body_actions :: "'a body \<Rightarrow> 'a \<Rightarrow> action list" where
  "body_actions Finish = (\<lambda>v. [])"
| "body_actions (Throws x) = (\<lambda>v. [Raise x])"
| "body_actions (Look g) = (\<lambda>v. body_actions (g v) v)"
| "body_actions (Responds i p b) = (\<lambda>v. Respond i p # body_actions b v)"
| "body_actions (Notifies i p b) = (\<lambda>v. Notify i p # body_actions b v)"
| "body_actions (Defers w k b) = (\<lambda>v. Defer (body_actions k w) # body_actions b v)"
| "body_actions (Registers i into h w b) = (\<lambda>v. body_actions b v)"

text \<open>It has no more need of its thunk.\<close>

primrec settled_body :: "'a body \<Rightarrow> bool" where
  "settled_body Finish = True"
| "settled_body (Throws x) = True"
| "settled_body (Look g) = False"
| "settled_body (Responds i p b) = settled_body b"
| "settled_body (Notifies i p b) = settled_body b"
| "settled_body (Defers w k b) = settled_body b"
| "settled_body (Registers i into h w b) = settled_body b"

lemma settled_body_actions: "settled_body b \<Longrightarrow> body_actions b v = body_actions b w"
  by (induction b) auto

section \<open>Sessions with handlers under way\<close>

text \<open>
  An entry of the table. Each thunk that \<^verbatim>\<open>add_handler\<close> puts there is another object, with another
  serial number. \<open>None\<close> for a reader is the thunk of a handler without an argument.
\<close>

record 'a thunk =
  th_serial :: nat
  th_reader :: "'a reader option"
  th_underlying :: "'a body"
  th_arg1 :: 'a

datatype home = In_table int nat | In_task

datatype sending = Not_sending | Is_read nat | Was_read

text \<open>
  A frame: the number of the run, the \<^verbatim>\<open>response\<close> (token, whether deferral is enabled, continuation),
  where the code lives, the value it was entered with, what is left to do, and how far
  the outbound channel is when the handler waits for it.
\<close>

record 'a handler_frame =
  hf_run :: nat
  hf_token :: u64
  hf_deferral_enabled :: bool
  hf_continuation :: "('a \<times> 'a body) option"
  hf_home :: home
  hf_value :: 'a
  hf_body :: "'a body"
  hf_sending :: sending

text \<open>
  The log is what an observer sees: runs that begin (\<open>True\<close> for a task of the queue), messages
  that the outbound channel takes, continuations that are scheduled, runs that end by returning.
\<close>

datatype run_event =
    Began nat u64 "action list" bool
  | Sent nat bytes
  | Scheduled nat u64 "action list"
  | Returned nat

record 'a handler_machine =
  hm_handlers :: "int \<Rightarrow> 'a thunk option"
  hm_outbound_buffer :: bytes
  hm_written :: nat
  hm_apartment_queue :: "(u64 \<times> 'a \<times> 'a body) list option"
  hm_frames :: "'a handler_frame list"
  hm_raising :: "exn option"
  hm_serials :: nat
  hm_runs :: nat
  hm_log :: "run_event list"

definition handler_machine_init :: "bool \<Rightarrow> 'a handler_machine" where
  "handler_machine_init apartment = \<lparr>hm_handlers = (\<lambda>_. None), hm_outbound_buffer = [], hm_written = 0,
     hm_apartment_queue = (if apartment then Some [] else None), hm_frames = [], hm_raising = None,
     hm_serials = 0, hm_runs = 0, hm_log = []\<rparr>"

text \<open>The value that a frame sees when it looks; \<open>None\<close> when its thunk has been replaced.\<close>

definition seen_value :: "'a handler_machine \<Rightarrow> 'a handler_frame \<Rightarrow> 'a option" where
  "seen_value m f =
     (case hf_home f of
        In_task \<Rightarrow> Some (hf_value f)
      | In_table i n \<Rightarrow>
          (case hm_handlers m i of
             None \<Rightarrow> None
           | Some th \<Rightarrow> if th_serial th = n then Some (th_arg1 th) else None))"

section \<open>Entering a handler\<close>

definition enter_run :: "u64 \<Rightarrow> bool \<Rightarrow> home \<Rightarrow> 'a \<Rightarrow> 'a body \<Rightarrow> 'a handler_machine \<Rightarrow> 'a handler_machine" where
  "enter_run token deferral home v b m = m\<lparr>
     hm_frames := \<lparr>hf_run = hm_runs m, hf_token = token, hf_deferral_enabled = deferral,
       hf_continuation = None, hf_home = home, hf_value = v, hf_body = b, hf_sending = Not_sending\<rparr>
       # hm_frames m,
     hm_runs := Suc (hm_runs m),
     hm_log := hm_log m @ [Began (hm_runs m) token (body_actions b v) (home = In_task)]\<rparr>"

text \<open>The two thunks: the argument is deserialized into the member, or there is none.\<close>

definition load_argument :: "'a thunk \<Rightarrow> bytes \<Rightarrow> exn option \<times> 'a" where
  "load_argument th payload =
     (case th_reader th of
        None \<Rightarrow> (None, th_arg1 th)
      | Some into \<Rightarrow>
          (case into (th_arg1 th) payload of
             Inl (x, arg1) \<Rightarrow> (Some x, arg1)
           | Inr (arg1, rest) \<Rightarrow> (None, arg1)))"

definition request_of :: "codec \<Rightarrow> bytes \<Rightarrow> exn + int \<times> u64 \<times> bytes" where
  "request_of cd payload =
     bind_result (dec_id cd payload) (\<lambda>(request_id, d).
       bind_result (dec_token cd d) (\<lambda>(token, d2). Inr (request_id, token, d2)))"

lemma request_of_enc:
  "codec_ok cd \<Longrightarrow> int32 i \<Longrightarrow> request_of cd (enc_id cd i @ enc_token cd t @ body) = Inr (i, t, body)"
  by (simp add: request_of_def codec_id codec_token)

definition request_arrives :: "codec \<Rightarrow> bytes \<Rightarrow> 'a handler_machine \<Rightarrow> 'a handler_machine" where
  "request_arrives cd payload m =
     (case request_of cd payload of
        Inl x \<Rightarrow> m\<lparr>hm_raising := Some x\<rparr>
      | Inr (request_id, token, d) \<Rightarrow>
          (case hm_handlers m request_id of
             None \<Rightarrow> m
           | Some th \<Rightarrow>
               (let (x, arg1) = load_argument th d;
                    m1 = m\<lparr>hm_handlers := (hm_handlers m)(request_id \<mapsto> th\<lparr>th_arg1 := arg1\<rparr>)\<rparr>
                in case x of
                     Some e \<Rightarrow> m1\<lparr>hm_raising := Some e\<rparr>
                   | None \<Rightarrow> enter_run token (hm_apartment_queue m \<noteq> None)
                       (In_table request_id (th_serial th)) arg1 (th_underlying th) m1)))"

definition task_runs :: "nat \<Rightarrow> 'a handler_machine \<Rightarrow> 'a handler_machine" where
  "task_runs i m =
     (case hm_apartment_queue m of
        None \<Rightarrow> m
      | Some q \<Rightarrow>
          if i < length q
          then (case q ! i of (token, v, b) \<Rightarrow>
            enter_run token True In_task v b
              (m\<lparr>hm_apartment_queue := Some (take i q @ drop (Suc i) q)\<rparr>))
          else m)"

text \<open>Nothing is being thrown, and nobody runs or the handler that does waits for its channel.\<close>

definition can_enter :: "'a handler_machine \<Rightarrow> bool" where
  "can_enter m \<longleftrightarrow> hm_raising m = None \<and>
     (case hm_frames m of [] \<Rightarrow> True | f # fs \<Rightarrow> hf_sending f \<noteq> Not_sending)"

section \<open>What a handler does\<close>

text \<open>Serializing into the session's buffer, and handing that to the channel.\<close>

definition start_sending ::
    "bytes \<Rightarrow> 'a handler_frame \<Rightarrow> 'a handler_frame list \<Rightarrow> 'a handler_machine \<Rightarrow> 'a handler_machine" where
  "start_sending message f fs m = m\<lparr>
     hm_outbound_buffer := buffer_writer_ctor (hm_outbound_buffer m) @ message,
     hm_written := Suc (hm_written m),
     hm_frames := f\<lparr>hf_sending := Is_read (Suc (hm_written m))\<rparr> # fs\<rparr>"

definition put_thunk ::
    "int \<Rightarrow> 'a reader option \<Rightarrow> 'a body \<Rightarrow> 'a \<Rightarrow> 'a handler_machine \<Rightarrow> 'a handler_machine" where
  "put_thunk request_id into h v m = m\<lparr>
     hm_handlers := (hm_handlers m)(request_id \<mapsto>
       \<lparr>th_serial = hm_serials m, th_reader = into, th_underlying = h, th_arg1 = v\<rparr>),
     hm_serials := Suc (hm_serials m)\<rparr>"

text \<open>Handlers that are registered before anything comes in.\<close>

definition with_handlers ::
    "(int \<times> 'a reader option \<times> 'a body \<times> 'a) list \<Rightarrow> 'a handler_machine \<Rightarrow> 'a handler_machine" where
  "with_handlers hs m = fold (\<lambda>(i, into, h, v). put_thunk i into h v) hs m"

text \<open>
  When the handler returns, its continuation is scheduled, be it a handler of the table or a task.
\<close>

definition return_from ::
    "'a handler_frame \<Rightarrow> 'a handler_frame list \<Rightarrow> 'a handler_machine \<Rightarrow> 'a handler_machine" where
  "return_from f fs m =
     (case hf_continuation f of
        None \<Rightarrow> m\<lparr>hm_frames := fs, hm_log := hm_log m @ [Returned (hf_run f)]\<rparr>
      | Some (v, k) \<Rightarrow> m\<lparr>
          hm_apartment_queue := map_option (\<lambda>q. q @ [(hf_token f, v, k)]) (hm_apartment_queue m),
          hm_frames := fs,
          hm_log := hm_log m @ [Scheduled (hf_run f) (hf_token f) (body_actions k v), Returned (hf_run f)]\<rparr>)"

text \<open>An exception leaves the handler at once.\<close>

definition leave_with ::
    "exn \<Rightarrow> 'a handler_frame list \<Rightarrow> 'a handler_machine \<Rightarrow> 'a handler_machine" where
  "leave_with x fs m = m\<lparr>hm_frames := fs, hm_raising := Some x\<rparr>"

definition handler_performs :: "codec \<Rightarrow> 'a handler_machine \<Rightarrow> 'a handler_machine option" where
  "handler_performs cd m =
     (case hm_frames m of
        [] \<Rightarrow> Some m
      | f # fs \<Rightarrow>
          if hm_raising m \<noteq> None \<or> hf_sending f \<noteq> Not_sending then Some m
          else case hf_body f of
            Finish \<Rightarrow> Some (return_from f fs m)
          | Throws x \<Rightarrow> Some (leave_with x fs m)
          | Look g \<Rightarrow>
              map_option (\<lambda>v. m\<lparr>hm_frames := f\<lparr>hf_body := g v\<rparr> # fs\<rparr>) (seen_value m f)
          | Responds i p b \<Rightarrow>
              Some (start_sending (enc_id cd i @ enc_token cd (hf_token f) @ p) (f\<lparr>hf_body := b\<rparr>) fs m)
          | Notifies i p b \<Rightarrow> Some (start_sending (enc_id cd i @ p) (f\<lparr>hf_body := b\<rparr>) fs m)
          | Defers v k b \<Rightarrow>
              Some (if hf_deferral_enabled f
                then m\<lparr>hm_frames := f\<lparr>hf_continuation := Some (v, k), hf_body := b\<rparr> # fs\<rparr>
                else leave_with (Std_logic_error ''deferring is disabled - no queue'') fs m)
          | Registers i into h v b \<Rightarrow>
              Some (put_thunk i into h v (m\<lparr>hm_frames := f\<lparr>hf_body := b\<rparr> # fs\<rparr>)))"

section \<open>The outbound channel\<close>

text \<open>
  The channel reads the bytes it has been given, once. The writer of a later message has
  invalidated all pointers into the buffer: reading through them is undefined.
\<close>

definition channel_reads :: "'a handler_machine \<Rightarrow> 'a handler_machine option" where
  "channel_reads m =
     (case hm_frames m of
        [] \<Rightarrow> Some m
      | f # fs \<Rightarrow>
          (case hf_sending f of
             Is_read n \<Rightarrow>
               if hm_raising m \<noteq> None then Some m
               else if n = hm_written m
               then Some (m\<lparr>hm_frames := f\<lparr>hf_sending := Was_read\<rparr> # fs,
                      hm_log := hm_log m @ [Sent (hf_run f) (hm_outbound_buffer m)]\<rparr>)
               else None
           | _ \<Rightarrow> Some m))"

text \<open>
  Then its method returns, or throws at any time. What is thrown by a request that came in meanwhile
  may be caught by the channel (with nobody running, by the caller of \<^verbatim>\<open>message\<close>); otherwise it goes on
  through the handler that sends.
\<close>

definition channel_returns :: "'a handler_machine \<Rightarrow> 'a handler_machine" where
  "channel_returns m =
     (case hm_frames m of
        [] \<Rightarrow> m
      | f # fs \<Rightarrow>
          if hm_raising m = None \<and> hf_sending f = Was_read
          then m\<lparr>hm_frames := f\<lparr>hf_sending := Not_sending\<rparr> # fs\<rparr> else m)"

definition channel_throws :: "exn \<Rightarrow> 'a handler_machine \<Rightarrow> 'a handler_machine" where
  "channel_throws x m =
     (case hm_frames m of
        [] \<Rightarrow> m
      | f # fs \<Rightarrow>
          if hm_raising m = None \<and> hf_sending f \<noteq> Not_sending
          then leave_with x fs m else m)"

definition frame_unwinds :: "'a handler_machine \<Rightarrow> 'a handler_machine" where
  "frame_unwinds m = (if hm_raising m \<noteq> None then m\<lparr>hm_frames := tl (hm_frames m)\<rparr> else m)"

definition caller_catches :: "'a handler_machine \<Rightarrow> 'a handler_machine" where
  "caller_catches m = m\<lparr>hm_raising := None\<rparr>"

section \<open>Turns\<close>

datatype handler_event =
    Request_arrives bytes
  | Task_runs nat
  | Handler_performs
  | Channel_reads
  | Channel_returns
  | Channel_throws exn
  | Frame_unwinds
  | Caller_catches

fun handler_turn :: "codec \<Rightarrow> handler_event \<Rightarrow> 'a handler_machine \<Rightarrow> 'a handler_machine option" where
  "handler_turn cd (Request_arrives payload) m = Some (if can_enter m then request_arrives cd payload m else m)"
| "handler_turn cd (Task_runs i) m = Some (if can_enter m then task_runs i m else m)"
| "handler_turn cd Handler_performs m = handler_performs cd m"
| "handler_turn cd Channel_reads m = channel_reads m"
| "handler_turn cd Channel_returns m = Some (channel_returns m)"
| "handler_turn cd (Channel_throws x) m = Some (channel_throws x m)"
| "handler_turn cd Frame_unwinds m = Some (frame_unwinds m)"
| "handler_turn cd Caller_catches m = Some (caller_catches m)"

fun handler_turns :: "codec \<Rightarrow> handler_event list \<Rightarrow> 'a handler_machine \<Rightarrow> 'a handler_machine option" where
  "handler_turns cd [] m = Some m"
| "handler_turns cd (e # es) m = Option.bind (handler_turn cd e m) (handler_turns cd es)"

section \<open>Runs in order\<close>

text \<open>
  A frame that still needs the thunk it lives in. A turn is in order if it lets nobody in before the
  channel has read its bytes, reads no argument into a thunk that such a frame lives in, and
  replaces none.
\<close>

fun needs_thunk :: "int \<Rightarrow> 'a handler_frame \<Rightarrow> bool" where
  "needs_thunk i f =
     (case hf_home f of In_task \<Rightarrow> False | In_table j n \<Rightarrow> j = i \<and> \<not> settled_body (hf_body f))"

definition bytes_unread :: "'a handler_machine \<Rightarrow> bool" where
  "bytes_unread m \<longleftrightarrow>
     (case hm_frames m of
        [] \<Rightarrow> False
      | f # fs \<Rightarrow> (case hf_sending f of Is_read n \<Rightarrow> True | _ \<Rightarrow> False))"

fun orderly :: "codec \<Rightarrow> handler_event \<Rightarrow> 'a handler_machine \<Rightarrow> bool" where
  "orderly cd (Request_arrives payload) m \<longleftrightarrow> \<not> bytes_unread m \<and>
     (case request_of cd payload of
        Inl x \<Rightarrow> True
      | Inr (i, token, d) \<Rightarrow>
          (case hm_handlers m i of
             None \<Rightarrow> True
           | Some th \<Rightarrow> th_reader th = None \<or> (\<forall>f \<in> set (hm_frames m). \<not> needs_thunk i f)))"
| "orderly cd (Task_runs n) m \<longleftrightarrow> \<not> bytes_unread m"
| "orderly cd Handler_performs m \<longleftrightarrow>
     (case hm_frames m of
        [] \<Rightarrow> True
      | f # fs \<Rightarrow>
          (case hf_body f of
             Registers i into h v b \<Rightarrow> (\<forall>g \<in> set (f\<lparr>hf_body := b\<rparr> # fs). \<not> needs_thunk i g)
           | _ \<Rightarrow> True))"
| "orderly cd _ m \<longleftrightarrow> True"

fun orderly_turns :: "codec \<Rightarrow> handler_event list \<Rightarrow> 'a handler_machine \<Rightarrow> bool" where
  "orderly_turns cd [] m = True"
| "orderly_turns cd (e # es) m \<longleftrightarrow>
     orderly cd e m \<and> (case handler_turn cd e m of None \<Rightarrow> True | Some m' \<Rightarrow> orderly_turns cd es m')"

section \<open>What a run has done\<close>

fun event_run :: "run_event \<Rightarrow> nat" where
  "event_run (Began r t as q) = r"
| "event_run (Sent r p) = r"
| "event_run (Scheduled r t k) = r"
| "event_run (Returned r) = r"

definition of_run :: "nat \<Rightarrow> run_event list \<Rightarrow> run_event list" where
  "of_run r log = filter (\<lambda>e. event_run e = r) log"

fun sent_in :: "run_event list \<Rightarrow> bytes list" where
  "sent_in [] = []"
| "sent_in (Sent r p # es) = p # sent_in es"
| "sent_in (e # es) = sent_in es"

fun scheduled_in :: "run_event list \<Rightarrow> (u64 \<times> action list) list" where
  "scheduled_in [] = []"
| "scheduled_in (Scheduled r t k # es) = (t, k) # scheduled_in es"
| "scheduled_in (e # es) = scheduled_in es"

fun tasks_in :: "run_event list \<Rightarrow> (u64 \<times> action list) list" where
  "tasks_in [] = []"
| "tasks_in (Began r t as q # es) = (if q then (t, as) # tasks_in es else tasks_in es)"
| "tasks_in (e # es) = tasks_in es"

lemma of_run_append [simp]:
  "of_run r (log @ log') = of_run r log @ of_run r log'"
  "of_run r [] = []"
  "of_run r (e # es) = (if event_run e = r then e # of_run r es else of_run r es)"
  by (simp_all add: of_run_def)

lemma in_append [simp]:
  "sent_in (l @ l') = sent_in l @ sent_in l'"
  "scheduled_in (l @ l') = scheduled_in l @ scheduled_in l'"
  "tasks_in (l @ l') = tasks_in l @ tasks_in l'"
  by (induction l rule: sent_in.induct; simp)+

text \<open>
  A run that is not disturbed: what it has sent is what its actions send under its token, from the
  beginning on, all of it once it has returned; it schedules what it deferred last, once, when
  it returns.
\<close>

definition undisturbed :: "codec \<Rightarrow> run_event list \<Rightarrow> bool" where
  "undisturbed cd l \<longleftrightarrow> (\<forall>r t as q. Began r t as q \<in> set l \<longrightarrow>
     (\<exists>rest. sends cd t as = sent_in l @ rest \<and> (Returned r \<in> set l \<longrightarrow> rest = [])) \<and>
     scheduled_in l =
       (if Returned r \<in> set l then case last_defer as of None \<Rightarrow> [] | Some k \<Rightarrow> [(t, k)] else []))"

section \<open>The invariant\<close>

definition unread_bytes :: "'a handler_machine \<Rightarrow> 'a handler_frame \<Rightarrow> bytes list" where
  "unread_bytes m f = (case hf_sending f of Is_read n \<Rightarrow> [hm_outbound_buffer m] | _ \<Rightarrow> [])"

definition frame_value_ok :: "'a handler_machine \<Rightarrow> 'a handler_frame \<Rightarrow> bool" where
  "frame_value_ok m f \<longleftrightarrow> settled_body (hf_body f) \<or> seen_value m f = Some (hf_value f)"

definition frame_log_ok :: "codec \<Rightarrow> 'a handler_frame \<Rightarrow> bytes list \<Rightarrow> run_event list \<Rightarrow> bool" where
  "frame_log_ok cd f unread l \<longleftrightarrow> scheduled_in l = [] \<and> Returned (hf_run f) \<notin> set l \<and>
     (\<forall>t as q. Began (hf_run f) t as q \<in> set l \<longrightarrow> t = hf_token f \<and>
        sends cd t as = sent_in l @ unread @ sends cd t (body_actions (hf_body f) (hf_value f)) \<and>
        last_defer as =
          (case last_defer (body_actions (hf_body f) (hf_value f)) of
             None \<Rightarrow> map_option (\<lambda>(v, k). body_actions k v) (hf_continuation f)
           | Some k \<Rightarrow> Some k))"

definition handlers_inv :: "codec \<Rightarrow> 'a handler_machine \<Rightarrow> bool" where
  "handlers_inv cd m \<longleftrightarrow>
     (\<forall>f \<in> set (hm_frames m). hf_run f < hm_runs m \<and> frame_value_ok m f \<and>
        frame_log_ok cd f (unread_bytes m f) (of_run (hf_run f) (hm_log m))) \<and>
     distinct (map hf_run (hm_frames m)) \<and>
     (\<forall>f \<in> set (tl (hm_frames m)). hf_sending f = Was_read) \<and>
     (\<forall>f \<in> set (hm_frames m). \<forall>n. hf_sending f = Is_read n \<longrightarrow> n = hm_written m) \<and>
     (\<forall>e \<in> set (hm_log m). event_run e < hm_runs m) \<and>
     (\<forall>r. undisturbed cd (of_run r (hm_log m)))"

lemma of_run_other: "\<forall>e \<in> set es. event_run e \<noteq> r \<Longrightarrow> of_run r es = []"
  by (simp add: of_run_def)

lemma of_run_own: "\<forall>e \<in> set es. event_run e = r \<Longrightarrow> of_run r es = es"
  by (simp add: of_run_def)

lemma of_run_event: "e \<in> set (of_run r log) \<Longrightarrow> event_run e = r"
  by (simp add: of_run_def)

lemma frame_undisturbed:
  assumes "frame_log_ok cd f u (of_run (hf_run f) log)"
  shows "undisturbed cd (of_run (hf_run f) log)"
  unfolding undisturbed_def
proof (intro allI impI)
  fix r t as q
  assume in_log: "Began r t as q \<in> set (of_run (hf_run f) log)"
  then have r: "r = hf_run f" using of_run_event by force
  with in_log assms show "(\<exists>rest. sends cd t as = sent_in (of_run (hf_run f) log) @ rest \<and>
      (Returned r \<in> set (of_run (hf_run f) log) \<longrightarrow> rest = [])) \<and>
     scheduled_in (of_run (hf_run f) log) =
       (if Returned r \<in> set (of_run (hf_run f) log)
        then case last_defer as of None \<Rightarrow> [] | Some k \<Rightarrow> [(t, k)] else [])"
    by (auto simp: frame_log_ok_def)
qed

lemma unread_bytes_read [simp]: "hf_sending f = Was_read \<Longrightarrow> unread_bytes m f = []"
  by (simp add: unread_bytes_def)

lemma handlers_inv_init [simp]: "handlers_inv cd (handler_machine_init apartment)"
  by (simp add: handlers_inv_def handler_machine_init_def undisturbed_def)

lemma frame_value_ok_same:
  "hm_handlers m' = hm_handlers m \<Longrightarrow> hf_home f' = hf_home f \<Longrightarrow> hf_value f' = hf_value f \<Longrightarrow>
   hf_body f' = hf_body f \<Longrightarrow> frame_value_ok m' f' = frame_value_ok m f"
  by (cases "hf_home f") (simp_all add: frame_value_ok_def seen_value_def)

lemma frame_value_ok_body:
  "frame_value_ok m f \<Longrightarrow> hm_handlers m' = hm_handlers m \<Longrightarrow> hf_home f' = hf_home f \<Longrightarrow>
   hf_value f' = hf_value f \<Longrightarrow> (settled_body (hf_body f) \<Longrightarrow> settled_body (hf_body f')) \<Longrightarrow>
   frame_value_ok m' f'"
  by (cases "hf_home f") (auto simp: frame_value_ok_def seen_value_def)

lemmas frame_value_ok_cong = frame_value_ok_same [OF _ refl refl refl]

lemmas handlers_inv_parts =
  handlers_inv_def [THEN iffD1, THEN conjunct1, rule_format]
  handlers_inv_def [THEN iffD1, THEN conjunct2, THEN conjunct1]
  handlers_inv_def [THEN iffD1, THEN conjunct2, THEN conjunct2, THEN conjunct1, rule_format]
  handlers_inv_def [THEN iffD1, THEN conjunct2, THEN conjunct2, THEN conjunct2, THEN conjunct1, rule_format]
  handlers_inv_def [THEN iffD1, THEN conjunct2, THEN conjunct2, THEN conjunct2, THEN conjunct2, THEN conjunct1, rule_format]
  handlers_inv_def [THEN iffD1, THEN conjunct2, THEN conjunct2, THEN conjunct2, THEN conjunct2, THEN conjunct2, rule_format]

lemma handlers_invI:
  assumes "\<And>f. f \<in> set (hm_frames m) \<Longrightarrow> hf_run f < hm_runs m"
    and "\<And>f. f \<in> set (hm_frames m) \<Longrightarrow> frame_value_ok m f"
    and "\<And>f. f \<in> set (hm_frames m) \<Longrightarrow>
      frame_log_ok cd f (unread_bytes m f) (of_run (hf_run f) (hm_log m))"
    and "distinct (map hf_run (hm_frames m))"
    and "\<And>f. f \<in> set (tl (hm_frames m)) \<Longrightarrow> hf_sending f = Was_read"
    and "\<And>f n. f \<in> set (hm_frames m) \<Longrightarrow> hf_sending f = Is_read n \<Longrightarrow> n = hm_written m"
    and "\<And>e. e \<in> set (hm_log m) \<Longrightarrow> event_run e < hm_runs m"
    and "\<And>r. undisturbed cd (of_run r (hm_log m))"
  shows "handlers_inv cd m"
  using assms by (auto simp: handlers_inv_def)

lemma handlers_inv_below:
  assumes "handlers_inv cd m" and "hm_frames m = f # fs" and "g \<in> set fs"
  shows "hf_run g \<noteq> hf_run f" and "hf_sending g = Was_read" and "hf_run g < hm_runs m"
    and "frame_value_ok m g" and "frame_log_ok cd g [] (of_run (hf_run g) (hm_log m))"
proof -
  show "hf_run g \<noteq> hf_run f" using handlers_inv_parts(2) [OF assms(1)] assms(2,3) by (auto simp: image_iff)
  show read: "hf_sending g = Was_read" using handlers_inv_parts(3) [OF assms(1)] assms(2,3) by simp
  show "hf_run g < hm_runs m" and "frame_value_ok m g"
    using handlers_inv_parts(1) [OF assms(1), of g] assms(2,3) by simp_all
  show "frame_log_ok cd g [] (of_run (hf_run g) (hm_log m))"
    using handlers_inv_parts(1) [OF assms(1), of g] assms(2,3) read by simp
qed

text \<open>What concerns one run does not change what is known of the others.\<close>

lemma of_run_extend:
  assumes "hm_log m' = hm_log m @ es" and "\<forall>e \<in> set es. event_run e = r"
  shows "of_run r (hm_log m') = of_run r (hm_log m) @ es"
    and "r' \<noteq> r \<Longrightarrow> of_run r' (hm_log m') = of_run r' (hm_log m)"
  using assms of_run_own [of es r] of_run_other [of es r'] by auto

lemma undisturbed_extend:
  assumes "handlers_inv cd m" and "hm_log m' = hm_log m @ es" and "\<forall>e \<in> set es. event_run e = r"
    and "undisturbed cd (of_run r (hm_log m'))"
  shows "undisturbed cd (of_run r' (hm_log m'))"
  using assms(4) of_run_extend(2) [OF assms(2,3), of r'] handlers_inv_parts(6) [OF assms(1), of r']
  by (cases "r' = r") simp_all

text \<open>The innermost frame does something, perhaps seen in the log; those below stay as they are.\<close>

lemma handlers_inv_top:
  assumes inv: "handlers_inv cd m" and m: "hm_frames m = f # fs"
    and m': "hm_frames m' = f' # fs" "hm_log m' = hm_log m @ es" "hm_runs m' = hm_runs m"
    and f': "hf_run f' = hf_run f" "frame_value_ok m' f'"
      "frame_log_ok cd f' (unread_bytes m' f') (of_run (hf_run f) (hm_log m) @ es)"
      "\<forall>n. hf_sending f' = Is_read n \<longrightarrow> n = hm_written m'"
    and fs: "\<forall>g \<in> set fs. frame_value_ok m' g"
    and es: "\<forall>e \<in> set es. event_run e = hf_run f"
  shows "handlers_inv cd m'"
proof (rule handlers_invI)
  note below = handlers_inv_below [OF inv m]
  have own: "frame_log_ok cd f' (unread_bytes m' f') (of_run (hf_run f') (hm_log m'))"
    using f'(1,3) of_run_extend(1) [OF m'(2) es] by simp
  show "undisturbed cd (of_run r (hm_log m'))" for r
    using undisturbed_extend [OF inv m'(2) es] frame_undisturbed [OF own] f'(1) by simp
  show "frame_log_ok cd g (unread_bytes m' g) (of_run (hf_run g) (hm_log m'))" if "g \<in> set (hm_frames m')" for g
    using that own below(1,2,5) of_run_extend(2) [OF m'(2) es, of "hf_run g"] by (auto simp: m'(1))
  show "distinct (map hf_run (hm_frames m'))"
    using handlers_inv_parts(2) [OF inv] m m'(1) f'(1) by simp
  show "event_run e < hm_runs m'" if "e \<in> set (hm_log m')" for e
    using that handlers_inv_parts(5) [OF inv, of e] handlers_inv_parts(1) [OF inv, of f] m m'(2,3) es by auto
  show "hf_run g < hm_runs m'" if "g \<in> set (hm_frames m')" for g
    using that handlers_inv_parts(1) [OF inv] m m' f'(1) by auto
qed (use f' fs m' handlers_inv_below(2) [OF inv m] in auto)

text \<open>The innermost frame is left.\<close>

lemma handlers_inv_pop:
  assumes inv: "handlers_inv cd m" and m: "hm_frames m = f # fs"
    and m': "hm_frames m' = fs" "hm_log m' = hm_log m @ es" "hm_runs m' = hm_runs m"
      "hm_handlers m' = hm_handlers m"
    and es: "\<forall>e \<in> set es. event_run e = hf_run f"
    and over: "undisturbed cd (of_run (hf_run f) (hm_log m) @ es)"
  shows "handlers_inv cd m'"
proof (rule handlers_invI)
  note below = handlers_inv_below [OF inv m]
  show "undisturbed cd (of_run r (hm_log m'))" for r
    using undisturbed_extend [OF inv m'(2) es] of_run_extend(1) [OF m'(2) es] over by simp
  show "frame_log_ok cd g (unread_bytes m' g) (of_run (hf_run g) (hm_log m'))" if "g \<in> set (hm_frames m')" for g
    using that below(1,2,5) of_run_extend(2) [OF m'(2) es, of "hf_run g"] by (auto simp: m'(1))
  show "distinct (map hf_run (hm_frames m'))"
    using handlers_inv_parts(2) [OF inv] m m'(1) by simp
  show "event_run e < hm_runs m'" if "e \<in> set (hm_log m')" for e
    using that handlers_inv_parts(5) [OF inv, of e] handlers_inv_parts(1) [OF inv, of f] m m'(2,3) es by auto
  show "frame_value_ok m' g" if "g \<in> set (hm_frames m')" for g
    using below(4) [of g] that m'(1) frame_value_ok_cong [OF m'(4)] by simp
  show "hf_sending g = Was_read" if "g \<in> set (tl (hm_frames m'))" for g
    using below(2) [of g] that m'(1) by (cases fs) auto
qed (use m' handlers_inv_below [OF inv m] in auto)

text \<open>A handler or a task is entered.\<close>

lemma handlers_inv_enter:
  assumes inv: "handlers_inv cd m"
    and fs: "\<forall>g \<in> set (hm_frames m). hf_sending g = Was_read \<and> frame_value_ok m' g"
    and m': "hm_frames m' = hm_frames m" "hm_log m' = hm_log m" "hm_runs m' = hm_runs m"
    and seen: "\<And>f. hf_home f = home \<Longrightarrow> hf_value f = v \<Longrightarrow> seen_value m' f = Some v"
  shows "handlers_inv cd (enter_run token deferral home v b m')"
proof (rule handlers_invI)
  let ?m = "enter_run token deferral home v b m'"
  let ?f = "\<lparr>hf_run = hm_runs m, hf_token = token, hf_deferral_enabled = deferral,
       hf_continuation = None, hf_home = home, hf_value = v, hf_body = b, hf_sending = Not_sending\<rparr>"
  have frames: "hm_frames ?m = ?f # hm_frames m" and runs: "hm_runs ?m = Suc (hm_runs m)"
    and log: "hm_log ?m = hm_log m @ [Began (hm_runs m) token (body_actions b v) (home = In_task)]"
    and es: "\<forall>e \<in> set [Began (hm_runs m) token (body_actions b v) (home = In_task)]. event_run e = hm_runs m"
    using m' by (simp_all add: enter_run_def)
  have fresh: "of_run (hm_runs m) (hm_log m) = []"
    using handlers_inv_parts(5) [OF inv] by (fastforce intro: of_run_other)
  have eq: "frame_value_ok ?m g \<longleftrightarrow> frame_value_ok m' g" for g
    by (rule frame_value_ok_cong) (simp add: enter_run_def)
  have own: "frame_log_ok cd ?f (unread_bytes ?m ?f) (of_run (hf_run ?f) (hm_log ?m))"
    by (simp add: frame_log_ok_def log fresh unread_bytes_def split: option.split)
  show "undisturbed cd (of_run r (hm_log ?m))" for r
    using undisturbed_extend [OF inv log es] frame_undisturbed [OF own] by simp
  have less: "hf_run g < hm_runs m" if "g \<in> set (hm_frames m)" for g
    using handlers_inv_parts(1) [OF inv that] by simp
  show "frame_log_ok cd g (unread_bytes ?m g) (of_run (hf_run g) (hm_log ?m))" if "g \<in> set (hm_frames ?m)" for g
  proof (cases "g = ?f")
    case False
    with that have g: "g \<in> set (hm_frames m)" by (simp add: frames)
    then show ?thesis
      using handlers_inv_parts(1) [OF inv g] fs less [OF g] of_run_extend(2) [OF log es, of "hf_run g"] by simp
  qed (use own in simp)
  show "frame_value_ok ?m g" if "g \<in> set (hm_frames ?m)" for g
    using that fs seen [of ?f] m'(1,3) unfolding eq by (auto simp: enter_run_def frame_value_ok_def)
  show "hf_run g < hm_runs ?m" if "g \<in> set (hm_frames ?m)" for g
    using that less by (auto simp: frames runs less_Suc_eq)
  show "distinct (map hf_run (hm_frames ?m))"
    using handlers_inv_parts(2) [OF inv] less by (fastforce simp: frames)
  show "event_run e < hm_runs ?m" if "e \<in> set (hm_log ?m)" for e
    using that handlers_inv_parts(5) [OF inv, of e] by (auto simp: log runs less_Suc_eq)
qed (use fs m' in \<open>auto simp: enter_run_def\<close>)

section \<open>Turns in order\<close>

text \<open>Only the table changes, or what is being thrown.\<close>

lemma handlers_inv_same:
  assumes "handlers_inv cd m" and "\<forall>g \<in> set (hm_frames m). frame_value_ok m' g"
    and "hm_frames m' = hm_frames m" and "hm_log m' = hm_log m" and "hm_runs m' = hm_runs m"
    and "hm_written m' = hm_written m" and "hm_outbound_buffer m' = hm_outbound_buffer m"
  shows "handlers_inv cd m'"
proof -
  have "unread_bytes m' g = unread_bytes m g" for g
    using assms(7) by (cases "hf_sending g") (simp_all add: unread_bytes_def)
  then show ?thesis using assms unfolding handlers_inv_def by simp
qed

lemma handlers_inv_raising: "handlers_inv cd m \<Longrightarrow> handlers_inv cd (m\<lparr>hm_raising := x\<rparr>)"
  by (rule handlers_inv_same) (simp_all add: handlers_inv_parts(1) frame_value_ok_cong [of "m\<lparr>hm_raising := x\<rparr>" m])

lemma frame_value_ok_update:
  assumes "hm_handlers m' = (hm_handlers m)(i \<mapsto> th)" and "\<not> needs_thunk i f" and "frame_value_ok m f"
  shows "frame_value_ok m' f"
  using assms by (cases "hf_home f") (auto simp: frame_value_ok_def seen_value_def)

lemma all_were_read:
  assumes "handlers_inv cd m" and "can_enter m" and "\<not> bytes_unread m"
  shows "\<forall>g \<in> set (hm_frames m). hf_sending g = Was_read"
proof (cases "hm_frames m")
  case (Cons f fs)
  then show ?thesis
    using assms(2,3) handlers_inv_parts(3) [OF assms(1)]
    by (cases "hf_sending f") (simp_all add: can_enter_def bytes_unread_def)
qed simp

lemma request_arrives_inv:
  assumes inv: "handlers_inv cd m" and enter: "can_enter m" and orderly: "orderly cd (Request_arrives payload) m"
  shows "handlers_inv cd (request_arrives cd payload m)"
proof (cases "request_of cd payload")
  case (Inl x)
  then show ?thesis using handlers_inv_raising [OF inv] by (simp add: request_arrives_def)
next
  case (Inr req)
  obtain i token d where req: "request_of cd payload = Inr (i, token, d)" using Inr prod_cases3 by metis
  show ?thesis
  proof (cases "hm_handlers m i")
    case (Some th)
    obtain x arg1 where load: "load_argument th d = (x, arg1)" by (cases "load_argument th d")
    let ?th = "th\<lparr>th_arg1 := arg1\<rparr>"
    let ?m = "m\<lparr>hm_handlers := (hm_handlers m)(i \<mapsto> ?th)\<rparr>"
    have read: "\<forall>g \<in> set (hm_frames m). hf_sending g = Was_read"
      using all_were_read [OF inv enter] orderly by simp
    have ok: "frame_value_ok ?m g" if g: "g \<in> set (hm_frames m)" for g
    proof (cases "th_reader th")
      case None
      then have "?th = th" using load by (simp add: load_argument_def)
      then have "hm_handlers ?m = hm_handlers m" using Some by (simp add: fun_upd_idem)
      then show ?thesis
        using frame_value_ok_cong [of ?m m] handlers_inv_parts(1) [OF inv g] by simp
    next
      case (Some into)
      then have "\<not> needs_thunk i g" using orderly req \<open>hm_handlers m i = Some th\<close> g by simp
      then show ?thesis
        using frame_value_ok_update [of ?m m i ?th g] handlers_inv_parts(1) [OF inv g] by simp
    qed
    have "handlers_inv cd (enter_run token (hm_apartment_queue m \<noteq> None)
        (In_table i (th_serial th)) arg1 (th_underlying th) ?m)"
      by (rule handlers_inv_enter [OF inv]) (simp_all add: read ok seen_value_def)
    moreover have "handlers_inv cd ?m" using handlers_inv_same [OF inv, of ?m] ok by simp
    ultimately show ?thesis
      using handlers_inv_raising [of cd ?m]
      by (cases x) (simp_all add: request_arrives_def req Some load Let_def)
  qed (use inv in \<open>simp add: request_arrives_def req\<close>)
qed

lemma task_runs_inv:
  assumes inv: "handlers_inv cd m" and "can_enter m" and "\<not> bytes_unread m"
  shows "handlers_inv cd (task_runs i m)"
proof -
  have read: "\<forall>g \<in> set (hm_frames m). hf_sending g = Was_read"
    using all_were_read [OF inv assms(2,3)] .
  have "handlers_inv cd (enter_run token True In_task v b (m\<lparr>hm_apartment_queue := q\<rparr>))" for token v b q
    using frame_value_ok_cong [of "m\<lparr>hm_apartment_queue := q\<rparr>" m] handlers_inv_parts(1) [OF inv]
    by (intro handlers_inv_enter [OF inv]) (simp_all add: read seen_value_def)
  then show ?thesis using inv by (auto simp: task_runs_def split: option.split prod.split)
qed

text \<open>What the innermost handler does.\<close>

lemma frame_log_ok_sending [simp]: "frame_log_ok cd (f\<lparr>hf_sending := x\<rparr>) = frame_log_ok cd f"
  unfolding frame_log_ok_def by (intro ext) (simp cong: option.case_cong)

lemma undisturbed_return:
  assumes "frame_log_ok cd f [] (of_run (hf_run f) log)" and "hf_body f = Finish"
    and "es = (case hf_continuation f of None \<Rightarrow> [] | Some (v, k) \<Rightarrow>
        [Scheduled (hf_run f) (hf_token f) (body_actions k v)]) @ [Returned (hf_run f)]"
  shows "undisturbed cd (of_run (hf_run f) log @ es)"
  unfolding undisturbed_def
proof (intro allI impI)
  fix r t as q
  assume "Began r t as q \<in> set (of_run (hf_run f) log @ es)"
  then have in_log: "Began r t as q \<in> set (of_run (hf_run f) log)"
    by (auto simp: assms(3) split: option.splits)
  then have "r = hf_run f" using of_run_event by force
  with in_log assms(1,2) have "t = hf_token f" and "sends cd t as = sent_in (of_run (hf_run f) log)"
    and "last_defer as = map_option (\<lambda>(v, k). body_actions k v) (hf_continuation f)"
    by (auto simp: frame_log_ok_def)
  with \<open>r = hf_run f\<close> assms show "(\<exists>rest. sends cd t as = sent_in (of_run (hf_run f) log @ es) @ rest \<and>
      (Returned r \<in> set (of_run (hf_run f) log @ es) \<longrightarrow> rest = [])) \<and>
     scheduled_in (of_run (hf_run f) log @ es) =
       (if Returned r \<in> set (of_run (hf_run f) log @ es)
        then case last_defer as of None \<Rightarrow> [] | Some k \<Rightarrow> [(t, k)] else [])"
    by (auto simp: frame_log_ok_def split: option.splits)
qed

lemma start_sending_inv:
  assumes inv: "handlers_inv cd m" and m: "hm_frames m = f # fs"
    and f': "hf_run f' = hf_run f" "frame_value_ok m f'"
    and log: "frame_log_ok cd f' [message] (of_run (hf_run f) (hm_log m))"
  shows "handlers_inv cd (start_sending message f' fs m)"
proof (rule handlers_inv_top [OF inv m, where es = "[]"])
  let ?f = "f'\<lparr>hf_sending := Is_read (Suc (hm_written m))\<rparr>"
  let ?m = "start_sending message f' fs m"
  have same: "hm_handlers ?m = hm_handlers m" by (simp add: start_sending_def)
  show "frame_value_ok ?m ?f"
    using f'(2) by (simp add: frame_value_ok_same [OF same, of ?f f'])
  show "frame_log_ok cd ?f (unread_bytes ?m ?f) (of_run (hf_run f) (hm_log m) @ [])"
    using log by (simp add: unread_bytes_def start_sending_def buffer_writer_ctor_def)
  show "\<forall>g \<in> set fs. frame_value_ok ?m g"
    using handlers_inv_below(4) [OF inv m] by (simp add: frame_value_ok_cong [OF same])
qed (use f'(1) in \<open>simp_all add: start_sending_def\<close>)

lemma frame_log_ok_cong:
  assumes "frame_log_ok cd f u l" and "hf_run f' = hf_run f" and "hf_token f' = hf_token f"
    and "\<And>t. u @ sends cd t (body_actions (hf_body f) (hf_value f)) =
      u' @ sends cd t (body_actions (hf_body f') (hf_value f'))"
    and "(case last_defer (body_actions (hf_body f) (hf_value f)) of
          None \<Rightarrow> map_option (\<lambda>(v, k). body_actions k v) (hf_continuation f) | Some k \<Rightarrow> Some k) =
        (case last_defer (body_actions (hf_body f') (hf_value f')) of
          None \<Rightarrow> map_option (\<lambda>(v, k). body_actions k v) (hf_continuation f') | Some k \<Rightarrow> Some k)"
  shows "frame_log_ok cd f' u' l"
  using assms unfolding frame_log_ok_def by auto

text \<open>A step of the handler that sends nothing.\<close>

lemma quiet_step_inv:
  assumes inv: "handlers_inv cd m" and m: "hm_frames m = f # fs"
    and m': "hm_frames m' = f' # fs" "hm_log m' = hm_log m" "hm_runs m' = hm_runs m"
    and f': "hf_run f' = hf_run f" "hf_sending f = Not_sending" "hf_sending f' = Not_sending"
      "frame_log_ok cd f' [] (of_run (hf_run f) (hm_log m))"
    and ok: "\<forall>g \<in> set (f' # fs). frame_value_ok m' g"
  shows "handlers_inv cd m'"
  using assms by (intro handlers_inv_top [OF inv m m'(1), where es = "[]"]) (simp_all add: unread_bytes_def)

lemma handler_performs_inv:
  assumes inv: "handlers_inv cd m" and orderly: "orderly cd Handler_performs m"
  shows "\<exists>m'. handler_performs cd m = Some m' \<and> handlers_inv cd m'"
proof (cases "hm_frames m")
  case m: (Cons f fs)
  show ?thesis
  proof (cases "hm_raising m \<noteq> None \<or> hf_sending f \<noteq> Not_sending")
    case False
    then have idle: "hf_sending f = Not_sending" by simp
    have f: "f \<in> set (hm_frames m)" using m by simp
    have ok: "frame_value_ok m f" using handlers_inv_parts(1) [OF inv f] by simp
    have log: "frame_log_ok cd f [] (of_run (hf_run f) (hm_log m))"
      using handlers_inv_parts(1) [OF inv f] idle by (simp add: unread_bytes_def)
    have below: "\<forall>g \<in> set fs. frame_value_ok m g" using handlers_inv_below(4) [OF inv m] by simp
    have leave: "handlers_inv cd (leave_with x fs m)" for x
      by (rule handlers_inv_pop [OF inv m, where es = "[]"])
        (use frame_undisturbed [OF log] in \<open>simp_all add: leave_with_def\<close>)
    have performs: "handler_performs cd m = (case hf_body f of
            Finish \<Rightarrow> Some (return_from f fs m)
          | Throws x \<Rightarrow> Some (leave_with x fs m)
          | Look g \<Rightarrow> map_option (\<lambda>v. m\<lparr>hm_frames := f\<lparr>hf_body := g v\<rparr> # fs\<rparr>) (seen_value m f)
          | Responds i p b \<Rightarrow>
              Some (start_sending (enc_id cd i @ enc_token cd (hf_token f) @ p) (f\<lparr>hf_body := b\<rparr>) fs m)
          | Notifies i p b \<Rightarrow> Some (start_sending (enc_id cd i @ p) (f\<lparr>hf_body := b\<rparr>) fs m)
          | Defers v k b \<Rightarrow>
              Some (if hf_deferral_enabled f
                then m\<lparr>hm_frames := f\<lparr>hf_continuation := Some (v, k), hf_body := b\<rparr> # fs\<rparr>
                else leave_with (Std_logic_error ''deferring is disabled - no queue'') fs m)
          | Registers i into h v b \<Rightarrow>
              Some (put_thunk i into h v (m\<lparr>hm_frames := f\<lparr>hf_body := b\<rparr> # fs\<rparr>)))"
      using False m by (simp add: handler_performs_def)
    show ?thesis
    proof (cases "hf_body f")
      case Finish
      let ?es = "(case hf_continuation f of None \<Rightarrow> [] | Some (v, k) \<Rightarrow>
        [Scheduled (hf_run f) (hf_token f) (body_actions k v)]) @ [Returned (hf_run f)]"
      have "handlers_inv cd (return_from f fs m)"
        by (rule handlers_inv_pop [OF inv m, where es = ?es])
          (use undisturbed_return [OF log Finish refl] in \<open>auto simp: return_from_def split: option.splits\<close>)
      then show ?thesis by (simp add: performs Finish)
    next
      case (Throws x)
      then show ?thesis using leave by (simp add: performs)
    next
      case (Look g)
      then have seen: "seen_value m f = Some (hf_value f)" using ok by (simp add: frame_value_ok_def)
      let ?f = "f\<lparr>hf_body := g (hf_value f)\<rparr>"
      let ?m = "m\<lparr>hm_frames := ?f # fs\<rparr>"
      have "frame_value_ok ?m ?f" using ok by (rule frame_value_ok_body) (simp_all add: Look)
      moreover have "frame_log_ok cd ?f [] (of_run (hf_run f) (hm_log m))"
        using log by (rule frame_log_ok_cong) (simp_all add: Look cong: option.case_cong)
      ultimately have "handlers_inv cd ?m"
        using idle below by (intro quiet_step_inv [OF inv m]) (simp_all add: frame_value_ok_cong [of ?m m])
      then show ?thesis by (simp add: performs Look seen)
    next
      case (Responds i p b)
      let ?f = "f\<lparr>hf_body := b\<rparr>"
      let ?p = "enc_id cd i @ enc_token cd (hf_token f) @ p"
      have "frame_value_ok m ?f" using ok by (rule frame_value_ok_body) (simp_all add: Responds)
      moreover have "frame_log_ok cd ?f [?p] (of_run (hf_run f) (hm_log m))"
        using log by (auto simp: frame_log_ok_def Responds cong: option.case_cong)
      ultimately have "handlers_inv cd (start_sending ?p ?f fs m)"
        by (intro start_sending_inv [OF inv m]) simp_all
      then show ?thesis by (simp add: performs Responds)
    next
      case (Notifies i p b)
      let ?f = "f\<lparr>hf_body := b\<rparr>"
      let ?p = "enc_id cd i @ p"
      have "frame_value_ok m ?f" using ok by (rule frame_value_ok_body) (simp_all add: Notifies)
      moreover have "frame_log_ok cd ?f [?p] (of_run (hf_run f) (hm_log m))"
        using log by (rule frame_log_ok_cong) (simp_all add: Notifies cong: option.case_cong)
      ultimately have "handlers_inv cd (start_sending ?p ?f fs m)"
        by (intro start_sending_inv [OF inv m]) simp_all
      then show ?thesis by (simp add: performs Notifies)
    next
      case (Defers v k b)
      let ?f = "f\<lparr>hf_continuation := Some (v, k), hf_body := b\<rparr>"
      let ?m = "m\<lparr>hm_frames := ?f # fs\<rparr>"
      have "frame_value_ok ?m ?f" using ok by (rule frame_value_ok_body) (simp_all add: Defers)
      moreover have "frame_log_ok cd ?f [] (of_run (hf_run f) (hm_log m))"
        using log by (rule frame_log_ok_cong) (simp_all add: Defers split: option.split)
      ultimately have "handlers_inv cd ?m"
        using idle below by (intro quiet_step_inv [OF inv m]) (simp_all add: frame_value_ok_cong [of ?m m])
      then show ?thesis using leave by (simp add: performs Defers)
    next
      case (Registers i into h v b)
      let ?f = "f\<lparr>hf_body := b\<rparr>"
      let ?m = "put_thunk i into h v (m\<lparr>hm_frames := ?f # fs\<rparr>)"
      have "frame_value_ok m ?f" using ok by (rule frame_value_ok_body) (simp_all add: Registers)
      then have "\<forall>g \<in> set (?f # fs). frame_value_ok ?m g"
        using below orderly m Registers frame_value_ok_update [of ?m m i]
        by (auto simp: put_thunk_def simp del: needs_thunk.simps)
      moreover have "frame_log_ok cd ?f [] (of_run (hf_run f) (hm_log m))"
        using log by (rule frame_log_ok_cong) (simp_all add: Registers cong: option.case_cong)
      ultimately have "handlers_inv cd ?m"
        using idle by (intro quiet_step_inv [OF inv m, where f' = ?f]) (simp_all add: put_thunk_def)
      then show ?thesis by (simp add: performs Registers)
    qed
  qed (use m inv in \<open>simp add: handler_performs_def\<close>)
qed (use inv in \<open>simp add: handler_performs_def\<close>)

lemma channel_reads_inv:
  assumes inv: "handlers_inv cd m"
  shows "\<exists>m'. channel_reads m = Some m' \<and> handlers_inv cd m'"
proof (cases "hm_frames m")
  case m: (Cons f fs)
  then have f: "f \<in> set (hm_frames m)" by simp
  show ?thesis
  proof (cases "hf_sending f")
    case (Is_read n)
    show ?thesis
    proof (cases "hm_raising m")
      case None
      let ?f = "f\<lparr>hf_sending := Was_read\<rparr>"
      let ?m = "m\<lparr>hm_frames := ?f # fs, hm_log := hm_log m @ [Sent (hf_run f) (hm_outbound_buffer m)]\<rparr>"
      have current: "n = hm_written m" using handlers_inv_parts(4) [OF inv f Is_read] .
      have ok: "frame_value_ok ?m ?f"
        using handlers_inv_parts(1) [OF inv f] by (simp add: frame_value_ok_body [of m f])
      have "frame_log_ok cd f [hm_outbound_buffer m] (of_run (hf_run f) (hm_log m))"
        using handlers_inv_parts(1) [OF inv f] Is_read by (simp add: unread_bytes_def)
      then have "frame_log_ok cd f [] (of_run (hf_run f) (hm_log m) @ [Sent (hf_run f) (hm_outbound_buffer m)])"
        by (auto simp: frame_log_ok_def)
      moreover have "\<forall>g \<in> set fs. frame_value_ok ?m g"
        using handlers_inv_below(4) [OF inv m] frame_value_ok_cong [of ?m m] by simp
      ultimately have "handlers_inv cd ?m"
        using ok
        by (intro handlers_inv_top [OF inv m, where f' = ?f and
              es = "[Sent (hf_run f) (hm_outbound_buffer m)]"]) simp_all
      then show ?thesis using m current Is_read None by (simp add: channel_reads_def)
    qed (use m inv Is_read in \<open>simp add: channel_reads_def\<close>)
  qed (use m inv in \<open>simp_all add: channel_reads_def\<close>)
qed (use inv in \<open>simp add: channel_reads_def\<close>)

lemma channel_returns_inv:
  assumes inv: "handlers_inv cd m"
  shows "handlers_inv cd (channel_returns m)"
proof (cases "hm_frames m")
  case m: (Cons f fs)
  then have f: "f \<in> set (hm_frames m)" by simp
  show ?thesis
  proof (cases "hm_raising m = None \<and> hf_sending f = Was_read")
    case True
    let ?f = "f\<lparr>hf_sending := Not_sending\<rparr>"
    let ?m = "m\<lparr>hm_frames := ?f # fs\<rparr>"
    have "frame_value_ok ?m ?f"
      using handlers_inv_parts(1) [OF inv f] by (simp add: frame_value_ok_body [of m f])
    moreover have "frame_log_ok cd f [] (of_run (hf_run f) (hm_log m))"
      using handlers_inv_parts(1) [OF inv f] True by simp
    moreover have "\<forall>g \<in> set fs. frame_value_ok ?m g"
      using handlers_inv_below(4) [OF inv m] frame_value_ok_cong [of ?m m] by simp
    ultimately have "handlers_inv cd ?m"
      by (intro handlers_inv_top [OF inv m, where f' = ?f and es = "[]"]) (simp_all add: unread_bytes_def)
    then show ?thesis using m True by (simp add: channel_returns_def)
  qed (use m inv in \<open>auto simp: channel_returns_def\<close>)
qed (use inv in \<open>simp add: channel_returns_def\<close>)

text \<open>What an exception leaves behind.\<close>

lemma handlers_inv_drop:
  assumes inv: "handlers_inv cd m" and m: "hm_frames m = f # fs"
  shows "handlers_inv cd (m\<lparr>hm_frames := fs, hm_raising := x\<rparr>)"
  by (rule handlers_inv_pop [OF inv m, where es = "[]"])
    (simp_all add: handlers_inv_parts(6) [OF inv])

lemma channel_throws_inv: "handlers_inv cd m \<Longrightarrow> handlers_inv cd (channel_throws x m)"
  by (auto simp: channel_throws_def leave_with_def handlers_inv_drop split: list.split)

lemma frame_unwinds_inv: "handlers_inv cd m \<Longrightarrow> handlers_inv cd (frame_unwinds m)"
  using handlers_inv_drop [of cd m "hd (hm_frames m)" "tl (hm_frames m)" "hm_raising m"]
  by (cases "hm_frames m") (auto simp: frame_unwinds_def handlers_inv_raising intro: handlers_inv_same)

lemma handler_turn_inv:
  assumes inv: "handlers_inv cd m" and orderly: "orderly cd e m"
  shows "\<exists>m'. handler_turn cd e m = Some m' \<and> handlers_inv cd m'"
proof (cases e)
  case (Request_arrives payload)
  then show ?thesis using request_arrives_inv [OF inv, of payload] orderly inv by simp
next
  case (Task_runs i)
  then show ?thesis using task_runs_inv [OF inv, of i] orderly inv by simp
next
  case Handler_performs
  then show ?thesis using handler_performs_inv [OF inv] orderly by simp
next
  case Caller_catches
  then show ?thesis using handlers_inv_raising [OF inv] by (simp add: caller_catches_def)
qed (simp_all add: channel_reads_inv channel_returns_inv channel_throws_inv frame_unwinds_inv inv)

lemma handler_turns_inv:
  "handlers_inv cd m \<Longrightarrow> orderly_turns cd es m \<Longrightarrow>
   \<exists>m'. handler_turns cd es m = Some m' \<and> handlers_inv cd m'"
proof (induction es arbitrary: m)
  case (Cons e es)
  then obtain m1 where "handler_turn cd e m = Some m1" "handlers_inv cd m1"
    using handler_turn_inv [of cd m e] by auto
  then show ?case using Cons.IH [of m1] Cons.prems by simp
qed simp

section \<open>The queue\<close>

text \<open>
  Whatever happens, in order or not: what is scheduled is run once, under the token of the run that
  scheduled it, or still in the queue.
\<close>

definition queued_actions :: "'a handler_machine \<Rightarrow> (u64 \<times> action list) list" where
  "queued_actions m =
     (case hm_apartment_queue m of
        None \<Rightarrow> [] | Some q \<Rightarrow> map (\<lambda>(t, v, b). (t, body_actions b v)) q)"

definition queue_inv :: "'a handler_machine \<Rightarrow> bool" where
  "queue_inv m \<longleftrightarrow>
     mset (scheduled_in (hm_log m)) = mset (tasks_in (hm_log m)) + mset (queued_actions m) \<and>
     (hm_apartment_queue m = None \<longrightarrow>
        (\<forall>f \<in> set (hm_frames m). \<not> hf_deferral_enabled f \<and> hf_continuation f = None))"

lemma queue_inv_init [simp]: "queue_inv (handler_machine_init apartment)"
  by (simp add: queue_inv_def handler_machine_init_def queued_actions_def)

text \<open>Turns that concern neither the queue nor what is seen of it.\<close>

lemma queue_inv_same:
  assumes "queue_inv m" and "hm_apartment_queue m' = hm_apartment_queue m"
    and "scheduled_in (hm_log m') = scheduled_in (hm_log m)" and "tasks_in (hm_log m') = tasks_in (hm_log m)"
    and "hm_apartment_queue m = None \<Longrightarrow>
      \<forall>f \<in> set (hm_frames m'). \<not> hf_deferral_enabled f \<and> hf_continuation f = None"
  shows "queue_inv m'"
  using assms by (simp add: queue_inv_def queued_actions_def)

lemma queue_inv_frame:
  "queue_inv m \<Longrightarrow> hm_apartment_queue m = None \<Longrightarrow>
   \<forall>f \<in> set (hm_frames m). \<not> hf_deferral_enabled f \<and> hf_continuation f = None"
  by (simp add: queue_inv_def)

lemma queue_inv_return:
  assumes inv: "queue_inv m" and m: "hm_frames m = f # fs"
  shows "queue_inv (return_from f fs m)"
proof (cases "hf_continuation f")
  case None
  then show ?thesis
    using m queue_inv_frame [OF inv] by (intro queue_inv_same [OF inv]) (simp_all add: return_from_def)
next
  case (Some k)
  then obtain q where "hm_apartment_queue m = Some q" using inv m by (auto simp: queue_inv_def)
  with Some show ?thesis
    using inv m by (cases k) (auto simp: return_from_def queue_inv_def queued_actions_def)
qed

lemma queue_inv_task:
  assumes inv: "queue_inv m"
  shows "queue_inv (task_runs i m)"
proof (cases "\<exists>q. hm_apartment_queue m = Some q \<and> i < length q")
  case True
  then obtain q where q: "hm_apartment_queue m = Some q" "i < length q" by blast
  obtain t v b where task: "q ! i = (t, v, b)" by (cases "q ! i")
  let ?a = "\<lambda>(t, v, b). (t, body_actions b v)"
  have "q = take i q @ (t, v, b) # drop (Suc i) q" using id_take_nth_drop [OF q(2)] task by simp
  then have "mset (map ?a q) = mset (map ?a (take i q @ (t, v, b) # drop (Suc i) q))" by simp
  then have "mset (map ?a q) = add_mset (t, body_actions b v) (mset (map ?a (take i q @ drop (Suc i) q)))"
    by simp
  then show ?thesis
    using inv q task by (auto simp: task_runs_def enter_run_def queue_inv_def queued_actions_def)
qed (use inv in \<open>auto simp: task_runs_def split: option.split\<close>)

lemma handler_turn_queue:
  assumes inv: "queue_inv m" and turn: "handler_turn cd e m = Some m'"
  shows "queue_inv m'"
proof -
  note frame = queue_inv_frame [OF inv]
  show ?thesis
  proof (cases e)
    case (Request_arrives payload)
    then show ?thesis
      using turn inv frame
      by (intro queue_inv_same [OF inv])
        (auto simp: request_arrives_def enter_run_def Let_def split: if_splits sum.splits option.splits prod.splits)
  next
    case (Task_runs i)
    then show ?thesis using turn inv queue_inv_task [OF inv, of i] by (auto split: if_splits)
  next
    case Handler_performs
    show ?thesis
    proof (cases "hm_frames m")
      case (Cons f fs)
      show ?thesis
        using turn Handler_performs Cons queue_inv_return [OF inv Cons] frame
        by (cases "hf_body f"; cases "hm_raising m = None \<and> hf_sending f = Not_sending")
          (auto simp: handler_performs_def leave_with_def start_sending_def put_thunk_def inv
            intro!: queue_inv_same [OF inv] split: if_splits)
    qed (use turn inv Handler_performs in \<open>simp add: handler_performs_def\<close>)
  next
    case Channel_reads
    then show ?thesis
      using turn frame by (intro queue_inv_same [OF inv])
        (auto simp: channel_reads_def split: list.splits sending.splits if_splits)
  next
    case Frame_unwinds
    have "set (tl (hm_frames m)) \<subseteq> set (hm_frames m)" by (cases "hm_frames m") auto
    with Frame_unwinds show ?thesis
      using turn frame by (intro queue_inv_same [OF inv]) (auto simp: frame_unwinds_def split: if_splits)
  qed (use turn frame in \<open>auto simp: inv channel_returns_def channel_throws_def leave_with_def caller_catches_def
    intro!: queue_inv_same [OF inv] split: list.splits if_splits\<close>)
qed

lemma handler_turns_queue:
  "queue_inv m \<Longrightarrow> handler_turns cd es m = Some m' \<Longrightarrow> queue_inv m'"
proof (induction es arbitrary: m)
  case (Cons e es)
  then show ?case using handler_turn_queue [of m cd e] by (auto split: Option.bind_split_asm)
qed simp

section \<open>From the construction on\<close>

lemma with_handlers_inv:
  "hm_frames m = [] \<Longrightarrow> handlers_inv cd m \<Longrightarrow> queue_inv m \<Longrightarrow>
   handlers_inv cd (with_handlers hs m) \<and> queue_inv (with_handlers hs m)"
proof (induction hs arbitrary: m)
  case (Cons x hs)
  obtain i into h v where x: "x = (i, into, h, v)" by (cases x)
  let ?m = "put_thunk i into h v m"
  have "handlers_inv cd ?m"
    using Cons.prems(1) by (intro handlers_inv_same [OF Cons.prems(2)]) (simp_all add: put_thunk_def)
  moreover have "queue_inv ?m"
    using Cons.prems(1) by (intro queue_inv_same [OF Cons.prems(3)]) (simp_all add: put_thunk_def)
  ultimately show ?case
    using Cons.IH [of ?m] Cons.prems(1) by (simp add: with_handlers_def x put_thunk_def)
qed (simp add: with_handlers_def)

lemma with_handlers_init:
  "handlers_inv cd (with_handlers hs (handler_machine_init apartment))"
  "queue_inv (with_handlers hs (handler_machine_init apartment))"
proof -
  have "hm_frames (handler_machine_init apartment) = []" by (simp add: handler_machine_init_def)
  from with_handlers_inv [OF this handlers_inv_init queue_inv_init]
  show "handlers_inv cd (with_handlers hs (handler_machine_init apartment))"
    "queue_inv (with_handlers hs (handler_machine_init apartment))" by blast+
qed

section \<open>What is undefined\<close>

text \<open>
  Two things: a handler looks at what its thunk keeps although its entry has been replaced, and a
  channel reads bytes that have been overwritten.
\<close>

lemma handler_turn_undefined:
  "handler_turn cd e m = None \<longleftrightarrow>
     hm_raising m = None \<and> (\<exists>f fs. hm_frames m = f # fs \<and>
       (e = Handler_performs \<and> hf_sending f = Not_sending \<and> (\<exists>g. hf_body f = Look g) \<and> seen_value m f = None \<or>
        e = Channel_reads \<and> (\<exists>n. hf_sending f = Is_read n \<and> n \<noteq> hm_written m)))"
proof (cases e)
  case Handler_performs
  then show ?thesis
    by (cases "hm_frames m"; cases "hf_body (hd (hm_frames m))")
      (auto simp: handler_performs_def)
next
  case Channel_reads
  then show ?thesis
    by (cases "hm_frames m"; cases "hf_sending (hd (hm_frames m))")
      (auto simp: channel_reads_def)
qed auto

section \<open>A handler that is left alone\<close>

text \<open>
  The turns of one handler that nothing comes in between, for a handler that registers none. It does what
  \<open>run_and_schedule\<close> does with its actions.
\<close>

primrec registers_none :: "'a body \<Rightarrow> bool" where
  "registers_none Finish = True"
| "registers_none (Throws x) = True"
| "registers_none (Look g) = (\<forall>v. registers_none (g v))"
| "registers_none (Responds i p b) = registers_none b"
| "registers_none (Notifies i p b) = registers_none b"
| "registers_none (Defers w k b) = registers_none b"
| "registers_none (Registers i into h w b) = False"

primrec alone_turns :: "'a body \<Rightarrow> 'a \<Rightarrow> handler_event list" where
  "alone_turns Finish = (\<lambda>v. [Handler_performs])"
| "alone_turns (Throws x) = (\<lambda>v. [Handler_performs])"
| "alone_turns (Look g) = (\<lambda>v. Handler_performs # alone_turns (g v) v)"
| "alone_turns (Responds i p b) =
     (\<lambda>v. Handler_performs # Channel_reads # Channel_returns # alone_turns b v)"
| "alone_turns (Notifies i p b) =
     (\<lambda>v. Handler_performs # Channel_reads # Channel_returns # alone_turns b v)"
| "alone_turns (Defers w k b) = (\<lambda>v. Handler_performs # alone_turns b v)"
| "alone_turns (Registers i into h w b) = (\<lambda>v. Handler_performs # alone_turns b v)"

definition scheduled_after :: "'a handler_frame \<Rightarrow> (u64 \<times> action list) list" where
  "scheduled_after f =
     (case last_defer (body_actions (hf_body f) (hf_value f)) of
        Some k \<Rightarrow> [(hf_token f, k)]
      | None \<Rightarrow> (case hf_continuation f of None \<Rightarrow> [] | Some (v, k) \<Rightarrow> [(hf_token f, body_actions k v)]))"

text \<open>From a frame, and from one that it has become, to the same end.\<close>

definition left_alone :: "codec \<Rightarrow> 'a handler_machine \<Rightarrow> 'a handler_frame \<Rightarrow> 'a handler_frame list \<Rightarrow> bool" where
  "left_alone cd m f fs \<longleftrightarrow> hm_frames m = f # fs \<and> hm_raising m = None \<and> hf_sending f = Not_sending \<and>
     frame_value_ok m f \<and> registers_none (hf_body f) \<and>
     (\<forall>x. Raise x \<notin> set (body_actions (hf_body f) (hf_value f))) \<and>
     (hf_deferral_enabled f \<longleftrightarrow> hm_apartment_queue m \<noteq> None) \<and>
     (hf_deferral_enabled f \<or>
        last_defer (body_actions (hf_body f) (hf_value f)) = None \<and> hf_continuation f = None)"

definition completed :: "codec \<Rightarrow> 'a handler_machine \<Rightarrow> 'a handler_frame \<Rightarrow> 'a handler_frame list \<Rightarrow>
    'a handler_machine \<Rightarrow> bool" where
  "completed cd m f fs m' \<longleftrightarrow> hm_frames m' = fs \<and> hm_raising m' = None \<and> hm_handlers m' = hm_handlers m \<and>
    sent_in (hm_log m') = sent_in (hm_log m) @ sends cd (hf_token f) (body_actions (hf_body f) (hf_value f)) \<and>
    map_option (map (\<lambda>(t, v, b). (t, body_actions b v))) (hm_apartment_queue m') =
      map_option (\<lambda>q. map (\<lambda>(t, v, b). (t, body_actions b v)) q @ scheduled_after f) (hm_apartment_queue m)"

lemma send_turns:
  assumes "hm_raising m = None"
  shows "handler_turns cd (Channel_reads # Channel_returns # es) (start_sending p f fs m) =
    handler_turns cd es (m\<lparr>hm_outbound_buffer := p, hm_written := Suc (hm_written m),
      hm_log := hm_log m @ [Sent (hf_run f) p], hm_frames := f\<lparr>hf_sending := Not_sending\<rparr> # fs\<rparr>)"
  using assms by (simp add: start_sending_def channel_reads_def channel_returns_def buffer_writer_ctor_def)

lemma sending_alone:
  assumes alone: "left_alone cd m f fs" and body: "hf_body f = Responds i p b \<or> hf_body f = Notifies i p b"
    and sends: "sends cd (hf_token f) (body_actions (hf_body f) (hf_value f)) =
      q # sends cd (hf_token f) (body_actions b (hf_value f))"
    and m1: "m1 = m\<lparr>hm_outbound_buffer := q, hm_written := Suc (hm_written m),
      hm_log := hm_log m @ [Sent (hf_run f) q], hm_frames := f\<lparr>hf_body := b, hf_sending := Not_sending\<rparr> # fs\<rparr>"
  shows "left_alone cd m1 (f\<lparr>hf_body := b, hf_sending := Not_sending\<rparr>) fs"
    and "completed cd m1 (f\<lparr>hf_body := b, hf_sending := Not_sending\<rparr>) fs m' \<Longrightarrow> completed cd m f fs m'"
proof -
  let ?f = "f\<lparr>hf_body := b, hf_sending := Not_sending\<rparr>"
  have ok: "frame_value_ok m f" using alone by (simp add: left_alone_def)
  have "frame_value_ok m1 ?f" using ok by (rule frame_value_ok_body) (use body in \<open>auto simp: m1\<close>)
  then show "left_alone cd m1 ?f fs" using alone body by (auto simp: left_alone_def m1)
  have "scheduled_after ?f = scheduled_after f"
    using body by (auto simp: scheduled_after_def cong: option.case_cong)
  then show "completed cd m1 ?f fs m' \<Longrightarrow> completed cd m f fs m'"
    by (simp add: completed_def m1 sends)
qed

lemma alone_turns_run:
  "left_alone cd m f fs \<Longrightarrow>
   \<exists>m'. handler_turns cd (alone_turns (hf_body f) (hf_value f)) m = Some m' \<and> completed cd m f fs m'"
proof (induction "hf_body f" arbitrary: f m)
  case Finish
  note body = Finish(1) [symmetric]
  have "handler_turns cd (alone_turns (hf_body f) (hf_value f)) m = Some (return_from f fs m)"
    using Finish.prems body by (simp add: left_alone_def handler_performs_def)
  moreover have "completed cd m f fs (return_from f fs m)"
    using Finish.prems body
    by (cases "hf_continuation f")
      (auto simp: left_alone_def completed_def return_from_def scheduled_after_def option.map_comp comp_def)
  ultimately show ?case by blast
next
  case (Throws x)
  note body = Throws(1) [symmetric]
  then show ?case using Throws.prems by (simp add: left_alone_def)
next
  case (Look g)
  note body = Look(2) [symmetric]
  let ?f = "f\<lparr>hf_body := g (hf_value f)\<rparr>"
  let ?m = "m\<lparr>hm_frames := ?f # fs\<rparr>"
  have seen: "seen_value m f = Some (hf_value f)"
    using Look.prems body by (simp add: left_alone_def frame_value_ok_def)
  then have "handler_turns cd (alone_turns (hf_body f) (hf_value f)) m =
      handler_turns cd (alone_turns (hf_body ?f) (hf_value ?f)) ?m"
    using Look.prems body by (simp add: left_alone_def handler_performs_def)
  moreover have "frame_value_ok m f" using Look.prems by (simp add: left_alone_def)
  then have "frame_value_ok ?m ?f" by (rule frame_value_ok_body) (simp_all add: body)
  then have "left_alone cd ?m ?f fs" using Look.prems body by (auto simp: left_alone_def)
  moreover have "scheduled_after ?f = scheduled_after f"
    using body by (simp add: scheduled_after_def cong: option.case_cong)
  then have "completed cd ?m ?f fs m' \<Longrightarrow> completed cd m f fs m'" for m'
    by (simp add: completed_def body)
  moreover have "g (hf_value f) = hf_body ?f" by simp
  ultimately show ?case using Look(1) [of ?f ?m] by auto
next
  case (Responds i p b)
  note body = Responds(2) [symmetric]
  let ?q = "enc_id cd i @ enc_token cd (hf_token f) @ p"
  let ?f = "f\<lparr>hf_body := b, hf_sending := Not_sending\<rparr>"
  let ?m = "m\<lparr>hm_outbound_buffer := ?q, hm_written := Suc (hm_written m),
      hm_log := hm_log m @ [Sent (hf_run f) ?q], hm_frames := ?f # fs\<rparr>"
  have "handler_turns cd (alone_turns (hf_body f) (hf_value f)) m =
      handler_turns cd (Channel_reads # Channel_returns # alone_turns (hf_body ?f) (hf_value ?f))
        (start_sending ?q (f\<lparr>hf_body := b\<rparr>) fs m)"
    using Responds.prems body by (simp add: left_alone_def handler_performs_def)
  also have "\<dots> = handler_turns cd (alone_turns (hf_body ?f) (hf_value ?f)) ?m"
    using Responds.prems by (subst send_turns) (simp_all add: left_alone_def)
  finally show ?case
    using sending_alone [OF Responds.prems, of i p b ?q ?m] body Responds(1) [of ?f ?m] by auto
next
  case (Notifies i p b)
  note body = Notifies(2) [symmetric]
  let ?q = "enc_id cd i @ p"
  let ?f = "f\<lparr>hf_body := b, hf_sending := Not_sending\<rparr>"
  let ?m = "m\<lparr>hm_outbound_buffer := ?q, hm_written := Suc (hm_written m),
      hm_log := hm_log m @ [Sent (hf_run f) ?q], hm_frames := ?f # fs\<rparr>"
  have "handler_turns cd (alone_turns (hf_body f) (hf_value f)) m =
      handler_turns cd (Channel_reads # Channel_returns # alone_turns (hf_body ?f) (hf_value ?f))
        (start_sending ?q (f\<lparr>hf_body := b\<rparr>) fs m)"
    using Notifies.prems body by (simp add: left_alone_def handler_performs_def)
  also have "\<dots> = handler_turns cd (alone_turns (hf_body ?f) (hf_value ?f)) ?m"
    using Notifies.prems by (subst send_turns) (simp_all add: left_alone_def)
  finally show ?case
    using sending_alone [OF Notifies.prems, of i p b ?q ?m] body Notifies(1) [of ?f ?m] by auto
next
  case (Defers w k b)
  note body = Defers(3) [symmetric]
  let ?f = "f\<lparr>hf_continuation := Some (w, k), hf_body := b\<rparr>"
  let ?m = "m\<lparr>hm_frames := ?f # fs\<rparr>"
  have enabled: "hf_deferral_enabled f"
    using Defers.prems body by (auto simp: left_alone_def split: option.splits)
  then have "handler_turns cd (alone_turns (hf_body f) (hf_value f)) m =
      handler_turns cd (alone_turns (hf_body ?f) (hf_value ?f)) ?m"
    using Defers.prems body by (simp add: left_alone_def handler_performs_def)
  moreover have "frame_value_ok m f" using Defers.prems by (simp add: left_alone_def)
  then have "frame_value_ok ?m ?f" by (rule frame_value_ok_body) (simp_all add: body)
  then have "left_alone cd ?m ?f fs" using Defers.prems body enabled by (simp add: left_alone_def)
  moreover have "scheduled_after ?f = scheduled_after f"
    using body by (simp add: scheduled_after_def split: option.split)
  then have "completed cd ?m ?f fs m' \<Longrightarrow> completed cd m f fs m'" for m'
    by (simp add: completed_def body)
  ultimately show ?case using Defers(2) [of ?f ?m] by auto
next
  case (Registers i into h w b)
  note body = Registers(3) [symmetric]
  with Registers.prems show ?case by (simp add: left_alone_def)
qed

text \<open>The session of \<open>Server_Session\<close> that has sent the same, with the same in its queue.\<close>

definition same_session :: "'a handler_machine \<Rightarrow> channel_event list server_session \<Rightarrow> bool" where
  "same_session m s \<longleftrightarrow> ss_outbound s = map Message (sent_in (hm_log m)) \<and>
     ss_apartment_queue s = map_option (map (\<lambda>(t, v, b). (t, body_actions b v))) (hm_apartment_queue m)"

lemma entered_left_alone:
  assumes "hm_frames m = []" and "hm_raising m = None" and "hm_handlers m i = Some th"
    and "registers_none (th_underlying th)" and "\<forall>x. Raise x \<notin> set (body_actions (th_underlying th) v)"
    and "last_defer (body_actions (th_underlying th) v) = None \<or> hm_apartment_queue m \<noteq> None"
    and "m1 = m\<lparr>hm_handlers := (hm_handlers m)(i \<mapsto> th\<lparr>th_arg1 := v\<rparr>)\<rparr>"
    and "m2 = enter_run t (hm_apartment_queue m \<noteq> None) (In_table i (th_serial th)) v (th_underlying th) m1"
  shows "left_alone cd m2 (hd (hm_frames m2)) [] \<and> hf_body (hd (hm_frames m2)) = th_underlying th \<and>
    hf_value (hd (hm_frames m2)) = v \<and> hf_token (hd (hm_frames m2)) = t \<and>
    hf_continuation (hd (hm_frames m2)) = None"
  using assms by (auto simp: left_alone_def enter_run_def frame_value_ok_def seen_value_def)

lemma request_alone_refines:
  assumes same: "same_session m s" and idle: "hm_frames m = []" "hm_raising m = None"
    and req: "request_of cd payload = Inr (i, t, d)"
    and th: "hm_handlers m i = Some th" "load_argument th d = (None, v)" "registers_none (th_underlying th)"
    and h: "ss_handlers s i = Some h" "h d = Inr (body_actions (th_underlying th) v)"
    and acts: "\<forall>x. Raise x \<notin> set (body_actions (th_underlying th) v)"
      "last_defer (body_actions (th_underlying th) v) = None \<or> hm_apartment_queue m \<noteq> None"
  shows "\<exists>m' s'. handler_turns cd (Request_arrives payload # alone_turns (th_underlying th) v) m = Some m' \<and>
    server_message cd recorder s payload = (None, s') \<and> same_session m' s' \<and> hm_frames m' = []"
proof -
  let ?as = "body_actions (th_underlying th) v"
  let ?m1 = "m\<lparr>hm_handlers := (hm_handlers m)(i \<mapsto> th\<lparr>th_arg1 := v\<rparr>)\<rparr>"
  let ?m2 = "enter_run t (hm_apartment_queue m \<noteq> None) (In_table i (th_serial th)) v (th_underlying th) ?m1"
  let ?f = "hd (hm_frames ?m2)"
  have f: "left_alone cd ?m2 ?f []" "hf_body ?f = th_underlying th" "hf_value ?f = v" "hf_token ?f = t"
    "hf_continuation ?f = None"
    using entered_left_alone [OF idle th(1,3) acts refl refl] by blast+
  have "request_arrives cd payload m = ?m2"
    by (simp add: request_arrives_def req th)
  moreover obtain m' where m': "handler_turns cd (alone_turns (th_underlying th) v) ?m2 = Some m'"
    "completed cd ?m2 ?f [] m'"
    using alone_turns_run [OF f(1)] unfolding f(2,3) by blast
  ultimately have turns: "handler_turns cd (Request_arrives payload # alone_turns (th_underlying th) v) m = Some m'"
    using idle by (simp add: can_enter_def)
  have queue: "ss_apartment_queue s \<noteq> None \<longleftrightarrow> hm_apartment_queue m \<noteq> None"
    using same by (simp add: same_session_def)
  have "last_defer ?as = None \<or> resp_deferral_enabled (response_ctor t (ss_apartment_queue s \<noteq> None))"
    using acts(2) queue by simp
  from run_and_schedule_recorder [OF acts(1) this, of cd s] obtain s' where
    "run_and_schedule cd recorder ?as (response_ctor t (ss_apartment_queue s \<noteq> None)) s = (None, s')"
    and s': "ss_outbound s' = ss_outbound s @ map Message (sends cd t ?as)"
      "ss_apartment_queue s' = (case last_defer ?as of
         None \<Rightarrow> ss_apartment_queue s | Some k \<Rightarrow> map_option (\<lambda>q. q @ [(t, k)]) (ss_apartment_queue s))"
    by (auto split: option.splits)
  then have server: "server_message cd recorder s payload = (None, s')"
    using req h by (simp add: server_message_def request_of_def)
  have "same_session m' s'"
    using m'(2) same f(2-5) s'
    by (cases "last_defer ?as"; cases "hm_apartment_queue m")
      (auto simp: same_session_def completed_def scheduled_after_def enter_run_def)
  moreover have "hm_frames m' = []" using m'(2) by (simp add: completed_def)
  ultimately show ?thesis using turns server by blast
qed

section \<open>What goes wrong\<close>

text \<open>
  A handler that registers another one for its own request, and looks at what it has captured afterwards.
\<close>

lemma replaced_handler_is_undefined:
  assumes "hm_frames m = f # fs" and "hm_raising m = None" and "hf_sending f = Not_sending"
    and "hf_home f = In_table i n" and "n < hm_serials m" and "hf_body f = Registers i into h v (Look g)"
  shows "handler_turns cd [Handler_performs, Handler_performs] m = None"
  using assms by (simp add: handler_performs_def put_thunk_def seen_value_def)

text \<open>
  A second request of the same kind arrives while the handler of the first one responds: the first one
  finds the argument of the second.
\<close>

lemma nested_request_changes_argument:
  assumes "hm_frames m = f # fs" and "hm_raising m = None" and "hf_sending f = Was_read"
    and "hf_home f = In_table i n" and "request_of cd payload = Inr (i, t, d)"
    and "hm_handlers m i = Some th" and "th_serial th = n" and "load_argument th d = (None, w)"
  shows "\<exists>m'. handler_turn cd (Request_arrives payload) m = Some m' \<and> f \<in> set (hm_frames m') \<and>
    seen_value m' f = Some w"
  using assms by (simp add: can_enter_def request_arrives_def enter_run_def seen_value_def)

text \<open>
  A request arrives before the channel has read the bytes of a response, and is responded to: when the
  channel reads on, its bytes are gone.
\<close>

lemma nested_response_overwrites:
  assumes "hm_frames m = f # g # fs" and "hm_raising m = None" and "hf_sending f = Not_sending"
    and "hf_sending g = Is_read n" and "n \<le> hm_written m" and "hf_body f = Responds i p Finish"
    and "hf_continuation f = None"
  shows "handler_turns cd [Handler_performs, Channel_reads, Channel_returns, Handler_performs, Channel_reads] m = None"
  using assms
  by (simp add: handler_performs_def start_sending_def channel_reads_def channel_returns_def return_from_def)

end
