(* ===== verification/Socket_Address.thy ===== *)
theory Socket_Address
  imports Selector
begin

text \<open>
  From the text of a host and a port to the address the socket calls are given: \<^verbatim>\<open>make_sockaddr_in\<close>
  of \<^verbatim>\<open>src/socket_helpers.h\<close>. \<^verbatim>\<open>inet_addr\<close> and \<^verbatim>\<open>htons\<close> are written out as POSIX documents them:
  one to four parts between dots, each decimal, octal or hexadecimal, the last of which fills the
  bytes that are left; \<open>-1\<close> is \<^verbatim>\<open>INADDR_NONE\<close>, the result for any other text. The fields of the
  address are the integers that the host stores, whose bytes in memory are in network order.
\<close>

section \<open>The system's conversions\<close>

fun read_digits :: "nat \<Rightarrow> nat \<Rightarrow> string \<Rightarrow> nat option" where
  "read_digits base acc [] = Some acc"
| "read_digits base acc (c # s) =
     (case hex_val c of
        Some d \<Rightarrow> if d < base then read_digits base (base * acc + d) s else None
      | None \<Rightarrow> None)"

definition inet_number :: "string \<Rightarrow> nat option" where
  "inet_number s =
     (if s = [] then None
      else if take 2 s = ''0x'' \<or> take 2 s = ''0X''
      then (if drop 2 s = [] then None else read_digits 16 0 (drop 2 s))
      else if hd s = CHR ''0'' then read_digits 8 0 (tl s)
      else read_digits 10 0 s)"

fun split_dots :: "string \<Rightarrow> string list" where
  "split_dots [] = [[]]"
| "split_dots (c # s) =
     (if c = CHR ''.'' then [] # split_dots s
      else (c # hd (split_dots s)) # tl (split_dots s))"

text \<open>A text ends at the first white space.\<close>

definition inet_value :: "string \<Rightarrow> nat option" where
  "inet_value cp =
     (case map inet_number (split_dots (takeWhile (\<lambda>c. \<not> is_space c) cp)) of
        [Some a] \<Rightarrow> if a < 2 ^ 32 then Some a else None
      | [Some a, Some b] \<Rightarrow> if a < 256 \<and> b < 2 ^ 24 then Some (a * 2 ^ 24 + b) else None
      | [Some a, Some b, Some c] \<Rightarrow>
          if a < 256 \<and> b < 256 \<and> c < 2 ^ 16 then Some (a * 2 ^ 24 + b * 2 ^ 16 + c) else None
      | [Some a, Some b, Some c, Some d] \<Rightarrow>
          if a < 256 \<and> b < 256 \<and> c < 256 \<and> d < 256
          then Some (a * 2 ^ 24 + b * 2 ^ 16 + c * 2 ^ 8 + d) else None
      | _ \<Rightarrow> None)"

definition inet_addr :: "endian \<Rightarrow> string \<Rightarrow> u32" where
  "inet_addr e cp =
     (case inet_value cp of
        Some v \<Rightarrow> word_of_nat (load_value e (network_bytes 4 v))
      | None \<Rightarrow> - 1)"

definition htons :: "endian \<Rightarrow> u16 \<Rightarrow> u16" where
  "htons e hostshort = word_of_nat (load_value e (network_bytes 2 (unat hostshort)))"

section \<open>The address\<close>

record sockaddr_in =
  sin_family :: u16
  sin_port :: u16
  sin_addr :: u32
  sin_zero :: bytes

definition AF_INET :: u16 where
  "AF_INET = 2"

definition make_sockaddr_in :: "endian \<Rightarrow> string \<Rightarrow> u16 \<Rightarrow> sockaddr_in" where
  "make_sockaddr_in e ip_address port =
     \<lparr>sin_family = AF_INET, sin_port = htons e port, sin_addr = inet_addr e (c_str ip_address),
      sin_zero = replicate 8 0\<rparr>"

text \<open>The bytes of the two fields, as the network gets them.\<close>

definition port_bytes :: "endian \<Rightarrow> sockaddr_in \<Rightarrow> bytes" where
  "port_bytes e a = store_value e 2 (unat (sin_port a))"

definition address_bytes :: "endian \<Rightarrow> sockaddr_in \<Rightarrow> bytes" where
  "address_bytes e a = store_value e 4 (unat (sin_addr a))"

fun ip_bytes :: "ip_v4 \<Rightarrow> bytes" where
  "ip_bytes (Ip_v4 a b c d) = [a, b, c, d]"

section \<open>Reading what was printed\<close>

lemma read_digits_append:
  "read_digits base acc (s @ t) = Option.bind (read_digits base acc s) (\<lambda>a. read_digits base a t)"
  by (induction s arbitrary: acc) (auto split: option.split)

lemma read_digits_print_dec: "read_digits 10 0 (print_dec n) = Some n"
proof (induction n rule: print_dec.induct)
  case (1 n)
  show ?case
  proof (cases "n < 10")
    case False
    then show ?thesis by (subst print_dec.simps) (simp add: read_digits_append 1)
  qed (subst print_dec.simps, simp)
qed

lemma print_dec_hd: "0 < n \<Longrightarrow> hd (print_dec n) \<noteq> CHR ''0''"
proof (induction n rule: print_dec.induct)
  case (1 n)
  show ?case
  proof (cases "n < 10")
    case True
    then have "hex_val (digit_char n) \<noteq> Some 0" using 1 by simp
    then have "digit_char n \<noteq> CHR ''0''" by (auto simp: hex_val_def)
    then show ?thesis using True by (subst print_dec.simps) simp
  next
    case False
    then show ?thesis using 1 by (subst print_dec.simps) simp
  qed
qed

lemma digit_zero: "digit_char 0 = CHR ''0''"
  by code_simp

lemma inet_number_print_dec: "inet_number (print_dec n) = Some n"
proof (cases "n = 0")
  case True
  then show ?thesis by (simp add: inet_number_def print_dec.simps digit_zero)
next
  case False
  then have "hd (print_dec n) \<noteq> CHR ''0''" by (simp add: print_dec_hd)
  moreover from this have "take 2 (print_dec n) \<noteq> ''0x''" "take 2 (print_dec n) \<noteq> ''0X''"
    by (cases "print_dec n"; auto)+
  ultimately show ?thesis by (simp add: inet_number_def read_digits_print_dec)
qed

lemma split_dots_nonempty [simp]: "split_dots s \<noteq> []"
  by (cases s) simp_all

lemma split_dots_append: "CHR ''.'' \<notin> set xs \<Longrightarrow> split_dots (xs @ CHR ''.'' # ys) = xs # split_dots ys"
  by (induction xs) auto

lemma split_dots_none: "CHR ''.'' \<notin> set xs \<Longrightarrow> split_dots xs = [xs]"
  by (induction xs) auto

lemma print_ip_no_space: "takeWhile (\<lambda>c. \<not> is_space c) (print_ip host) = print_ip host"
proof -
  have "\<not> is_space c" if "c \<in> set (print_ip host)" for c
    using that by (cases host) (auto dest!: print_dec_hex hex_val_not_special(1), simp_all add: is_space_def)
  then show ?thesis by (simp add: takeWhile_eq_all_conv)
qed

lemma inet_value_print_ip:
  "inet_value (print_ip (Ip_v4 a b c d)) =
     Some (unat a * 2 ^ 24 + unat b * 2 ^ 16 + unat c * 2 ^ 8 + unat d)"
proof -
  have dot: "CHR ''.'' \<notin> set (print_dec n)" for n using print_dec_not_special(3) [of _ n] by auto
  have "split_dots (print_ip (Ip_v4 a b c d)) =
      [print_dec (unat a), print_dec (unat b), print_dec (unat c), print_dec (unat d)]"
    using dot by (simp add: split_dots_append split_dots_none)
  then show ?thesis
    by (simp add: inet_value_def print_ip_no_space inet_number_print_dec del: print_ip.simps)
qed

lemma stored_word: "unat (word_of_nat (load_value e bs) :: 'a::len word) = load_value e bs"
  if "256 ^ length bs \<le> (2 :: nat) ^ LENGTH('a)"
  using less_le_trans [OF load_value_less that] by (rule unat_of_nat_small)

lemma address_bytes_inet:
  "inet_value (c_str host) = Some v \<Longrightarrow>
   address_bytes e (make_sockaddr_in e host port) = network_bytes 4 v"
  using store_load_value [of e "network_bytes 4 v"]
  by (simp add: address_bytes_def make_sockaddr_in_def inet_addr_def stored_word)

lemma network_bytes_ip:
  "network_bytes 4 (unat a * 2 ^ 24 + unat b * 2 ^ 16 + unat c * 2 ^ 8 + unat d) = [a, b, c, d]"
  for a b c d :: byte
proof -
  have "le_bytes n (le_value bs) = bs" if "n = length bs" for n bs
    using that by (simp only: le_bytes_le_value)
  from this [of 4 "[d, c, b, a]"] have "le_bytes 4 (le_value [d, c, b, a]) = [d, c, b, a]"
    by (simp only: list.size One_nat_def) simp
  moreover have "le_value [d, c, b, a] = unat a * 2 ^ 24 + unat b * 2 ^ 16 + unat c * 2 ^ 8 + unat d"
    by simp
  ultimately have "le_bytes 4 (unat a * 2 ^ 24 + unat b * 2 ^ 16 + unat c * 2 ^ 8 + unat d) = [d, c, b, a]"
    by (simp only:)
  then show ?thesis by (simp add: network_bytes_def del: le_bytes_numeral)
qed

lemma print_ip_c_str: "c_str (print_ip host) = print_ip host"
  by (rule c_str_id) (auto dest: print_ip_chars)

lemma address_bytes_print_ip:
  "address_bytes e (make_sockaddr_in e (print_ip ip) port) = ip_bytes ip"
proof (cases ip)
  case (Ip_v4 a b c d)
  then have "inet_value (c_str (print_ip ip)) =
      Some (unat a * 2 ^ 24 + unat b * 2 ^ 16 + unat c * 2 ^ 8 + unat d)"
    by (simp only: print_ip_c_str inet_value_print_ip)
  from address_bytes_inet [OF this] show ?thesis by (simp only: network_bytes_ip Ip_v4 ip_bytes.simps)
qed

lemma port_bytes_make:
  "port_bytes e (make_sockaddr_in e host port) = network_bytes 2 (unat port)"
  using store_load_value [of e "network_bytes 2 (unat port)"]
  by (simp add: port_bytes_def make_sockaddr_in_def htons_def stored_word)

text \<open>
  A host that does not begin with a digit, such as a name, is no address: the field holds
  \<^verbatim>\<open>INADDR_NONE\<close>, whose bytes are those of \<^verbatim>\<open>255.255.255.255\<close>.
\<close>

lemma not_decimal: "dec_val c = None \<Longrightarrow> hex_val c = Some d \<Longrightarrow> \<not> d < 10"
  by (auto simp: dec_val_def hex_val_def Let_def split: if_splits)

lemma inet_number_Nil: "inet_number [] = None"
  by (simp add: inet_number_def)

lemma inet_number_name:
  assumes "dec_val (hd s) = None"
  shows "inet_number s = None"
proof (cases s)
  case (Cons c cs)
  then have "c \<noteq> CHR ''0''" using assms by (auto simp: dec_val_def)
  moreover have "read_digits 10 0 s = None"
    using Cons assms not_decimal [of c] by (auto split: option.split)
  ultimately show ?thesis using Cons by (simp add: inet_number_def numeral_2_eq_2)
qed (simp add: inet_number_def)

lemma inet_value_name:
  assumes "dec_val (hd cp) = None"
  shows "inet_value cp = None"
proof -
  let ?s = "takeWhile (\<lambda>c. \<not> is_space c) cp"
  have "dec_val (hd (hd (split_dots ?s))) = None \<or> hd (split_dots ?s) = []"
    using assms by (cases cp) auto
  then have "inet_number (hd (split_dots ?s)) = None"
    using inet_number_name inet_number_Nil by metis
  then obtain ps where "map inet_number (split_dots ?s) = None # ps"
    by (cases "split_dots ?s") auto
  then show ?thesis by (simp add: inet_value_def)
qed

lemma name_is_no_address:
  assumes "dec_val (hd (c_str host)) = None"
  shows "sin_addr (make_sockaddr_in e host port) = - 1"
    and "address_bytes e (make_sockaddr_in e host port) = ip_bytes (Ip_v4 255 255 255 255)"
proof -
  show addr: "sin_addr (make_sockaddr_in e host port) = - 1"
    by (simp add: make_sockaddr_in_def inet_addr_def inet_value_name [OF assms])
  have "unat (- 1 :: u32) = 4294967295" by (simp add: unsigned_minus_1_eq_mask mask_eq_exp_minus_1)
  moreover have "store_value e 4 4294967295 = [255, 255, 255, 255]"
    by (cases e) (simp_all add: store_value_def)
  ultimately show "address_bytes e (make_sockaddr_in e host port) = ip_bytes (Ip_v4 255 255 255 255)"
    by (simp add: address_bytes_def addr)
qed

end
