(* ===== verification/Socket_Server.thy ===== *)
theory Socket_Server
  imports Framing Socket_Address
begin

text \<open>
  The server's end of the socket transport: \<^verbatim>\<open>src/server_endpoint_sockets.cpp\<close>, with the
  \<^verbatim>\<open>socket_handle\<close> of \<^verbatim>\<open>src/socket_helpers.h\<close>. One thread serves all connections: it selects on the
  sockets of a list of handlers and calls those that are ready. The operating system and the
  sessions of the user are an argument, a record of functions on a state \<open>'w\<close> of their own; a
  session is named by the id of the handler it belongs to. \<open>sv_trace\<close> is not in the code: it
  records what is done to sessions.
\<close>

section \<open>What is outside\<close>

datatype recv_option = Msg_peek | Msg_waitall

record 'w env =
  env_socket :: "'w \<Rightarrow> int \<times> 'w"
  env_setsockopt :: "'w \<Rightarrow> int \<Rightarrow> int \<times> 'w"
  env_bind :: "'w \<Rightarrow> int \<Rightarrow> sockaddr_in \<Rightarrow> int \<times> 'w"
  env_listen :: "'w \<Rightarrow> int \<Rightarrow> nat \<Rightarrow> int \<times> 'w"
  env_connect :: "'w \<Rightarrow> int \<Rightarrow> sockaddr_in \<Rightarrow> int \<times> 'w"
  env_ioctl :: "'w \<Rightarrow> int \<Rightarrow> 'w"
  env_accept :: "'w \<Rightarrow> int \<Rightarrow> int \<times> 'w"
  env_close :: "'w \<Rightarrow> int \<Rightarrow> 'w"
  env_recv :: "'w \<Rightarrow> int \<Rightarrow> nat \<Rightarrow> recv_option \<Rightarrow> (int \<times> bytes) \<times> 'w"
  env_send :: "'w \<Rightarrow> int \<Rightarrow> bytes \<Rightarrow> int \<times> 'w"
  env_select :: "'w \<Rightarrow> int list \<Rightarrow> (int \<times> int list) \<times> 'w"
  env_garbage :: "'w \<Rightarrow> u32"
  env_create_session :: "'w \<Rightarrow> u32 \<Rightarrow> exn + 'w"
  env_session_message :: "'w \<Rightarrow> u32 \<Rightarrow> bytes \<Rightarrow> exn + 'w"
  env_session_disconnect :: "'w \<Rightarrow> u32 \<Rightarrow> 'w"
  env_session_release :: "'w \<Rightarrow> u32 \<Rightarrow> 'w"

section \<open>State\<close>

datatype session_event = Created u32 | Got u32 bytes | Disconnected u32 | Released u32

text \<open>The functions that \<^verbatim>\<open>handler\<close> is bound to; a session's inbound channel is its argument.\<close>

datatype handler_fn =
    Accept_preinit | Handle_preinit | Accept_regular | Handle_session u32 | Handle_aux

record socket_handler =
  sh_id :: u32
  sh_handler :: handler_fn
  sh_socket :: int

datatype status = Proceed | Remove_this | Exit

text \<open>
  Where the thread is: before the \<^verbatim>\<open>select\<close>; at a position of the list, with the sockets that are
  ready; gone; with an iterator to an element that is no more; or having written beyond the set of
  descriptors given to \<^verbatim>\<open>select\<close>.
\<close>

datatype loop_pc = Selecting | Visiting "int list" nat | Ended | Dangling_iterator | Fd_set_overrun

record 'w server =
  sv_world :: 'w
  sv_aux_socket :: int
  sv_next_id :: u32
  sv_handlers :: "socket_handler list"
  sv_buffer :: bytes
  sv_pc :: loop_pc
  sv_trace :: "session_event list"

definition init_magic :: u32 where
  "init_magic = 0xFFFFFFFE"

section \<open>Sockets\<close>

text \<open>\<^verbatim>\<open>socket_handle\<close>: zero stands for no socket; the constructor refuses \<^verbatim>\<open>-1\<close>.\<close>

definition socket_handle_ctor :: "int \<Rightarrow> exn + int" where
  "socket_handle_ctor s =
     (if s = - 1 then Inl (Std_invalid_argument ''invalid socket'') else Inr s)"

definition socket_handle_reset :: "'w env \<Rightarrow> int \<Rightarrow> 'w \<Rightarrow> 'w" where
  "socket_handle_reset E s w = (if s \<noteq> 0 then env_close E w s else w)"

text \<open>
  \<^verbatim>\<open>reset(int)\<close>; the copying constructor, which leaves the handle it copies from with no socket; the
  destructor.
\<close>

definition socket_handle_reset_to :: "'w env \<Rightarrow> int \<Rightarrow> int \<Rightarrow> 'w \<Rightarrow> (exn + int) \<times> 'w" where
  "socket_handle_reset_to E current s w =
     (if s = - 1 then (Inl (Std_invalid_argument ''invalid socket''), w)
      else (Inr s, socket_handle_reset E current w))"

definition socket_handle_copy :: "int \<Rightarrow> int \<times> int" where
  "socket_handle_copy other = (other, 0)"

definition socket_handle_dtor :: "'w env \<Rightarrow> int \<Rightarrow> 'w \<Rightarrow> 'w" where
  "socket_handle_dtor E s w = socket_handle_reset E s w"

text \<open>However often a handle is copied, its socket is closed once, by the handle that has it last.\<close>

lemma socket_handle_copy_dtor:
  "socket_handle_copy s = (s', other) \<Longrightarrow>
   socket_handle_dtor E other (socket_handle_dtor E s' w) = socket_handle_dtor E s w \<and>
   socket_handle_dtor E s' (socket_handle_dtor E other w) = socket_handle_dtor E s w"
  by (auto simp: socket_handle_copy_def socket_handle_dtor_def socket_handle_reset_def)

lemma socket_handle_ctor_reset:
  "socket_handle_ctor s = fst (socket_handle_reset_to E 0 s w)"
  "snd (socket_handle_reset_to E 0 s w) = w"
  by (simp_all add: socket_handle_ctor_def socket_handle_reset_to_def socket_handle_reset_def)

definition setup_socket :: "'w env \<Rightarrow> int \<Rightarrow> 'w \<Rightarrow> exn option \<times> 'w" where
  "setup_socket E s w =
     (case env_setsockopt E w s of (r, w1) \<Rightarrow>
        (if r < 0 then Some (Initialization_failed ''setsockopt(..., SO_LINGER, ...) failed'') else None, w1))"

text \<open>
  The local union is not initialised: it holds \<open>env_garbage\<close>. The bytes of that show wherever \<^verbatim>\<open>recv\<close> has
  returned fewer than four.
\<close>

definition recv_scalar ::
    "endian \<Rightarrow> 'w env \<Rightarrow> 'w \<Rightarrow> int \<Rightarrow> recv_option \<Rightarrow> int \<times> u32 \<times> 'w" where
  "recv_scalar e E w s options =
     (case env_recv E w s 4 options of ((result, data), w1) \<Rightarrow>
        (result, word_of_nat (load_value e (reorder e
           (overwrite (store_value e 4 (unat (env_garbage E w))) data))), w1))"

section \<open>Handlers\<close>

definition trace :: "session_event \<Rightarrow> 'w server \<Rightarrow> 'w server" where
  "trace ev s = s\<lparr>sv_trace := sv_trace s @ [ev]\<rparr>"

text \<open>The destructor: first the session, then the socket.\<close>

definition release_handler :: "'w env \<Rightarrow> handler_fn \<Rightarrow> 'w server \<Rightarrow> 'w server" where
  "release_handler E f s =
     (case f of
        Handle_session sid \<Rightarrow>
          trace (Released sid) (s\<lparr>sv_world := env_session_release E (sv_world s) sid\<rparr>)
      | _ \<Rightarrow> s)"

definition socket_handler_dtor :: "'w env \<Rightarrow> socket_handler \<Rightarrow> 'w server \<Rightarrow> 'w server" where
  "socket_handler_dtor E h s =
     (let s1 = release_handler E (sh_handler h) s
      in s1\<lparr>sv_world := socket_handle_reset E (sh_socket h) (sv_world s1)\<rparr>)"

definition erase_handler :: "'w env \<Rightarrow> nat \<Rightarrow> 'w server \<Rightarrow> 'w server" where
  "erase_handler E i s =
     socket_handler_dtor E (sv_handlers s ! i)
       (s\<lparr>sv_handlers := take i (sv_handlers s) @ drop (Suc i) (sv_handlers s)\<rparr>)"

text \<open>
  The constructor takes the socket over from the handle it is given, whose remains are the second
  component.
\<close>

definition socket_handler_ctor :: "u32 \<Rightarrow> int \<Rightarrow> handler_fn \<Rightarrow> socket_handler \<times> int" where
  "socket_handler_ctor i s initial_handler =
     (case socket_handle_copy s of
        (socket, rest) \<Rightarrow> (\<lparr>sh_id = i, sh_handler = initial_handler, sh_socket = socket\<rparr>, rest))"

lemma socket_handler_ctor_simp [simp]:
  "socket_handler_ctor i s f = (\<lparr>sh_id = i, sh_handler = f, sh_socket = s\<rparr>, 0)"
  by (simp add: socket_handler_ctor_def socket_handle_copy_def)

lemma socket_handle_dtor_0 [simp]: "socket_handle_dtor E 0 w = w"
  by (simp add: socket_handle_dtor_def socket_handle_reset_def)

text \<open>The common part of the two accepting functions: a new socket that is set up.\<close>

definition accept_connection :: "'w env \<Rightarrow> int \<Rightarrow> 'w server \<Rightarrow> (exn + int) \<times> 'w server" where
  "accept_connection E fd s =
     (case env_accept E (sv_world s) fd of (c, w1) \<Rightarrow>
        (case socket_handle_ctor c of
           Inl x \<Rightarrow> (Inl x, s\<lparr>sv_world := w1\<rparr>)
         | Inr new_connection \<Rightarrow>
             (case setup_socket E new_connection w1 of
                (Some x, w2) \<Rightarrow> (Inl x, s\<lparr>sv_world := socket_handle_reset E new_connection w2\<rparr>)
              | (None, w2) \<Rightarrow> (Inr new_connection, s\<lparr>sv_world := w2\<rparr>))))"

definition accept_preinit :: "'w env \<Rightarrow> int \<Rightarrow> 'w server \<Rightarrow> (exn + status) \<times> 'w server" where
  "accept_preinit E fd s =
     (case accept_connection E fd s of
        (Inl x, s1) \<Rightarrow> (Inl x, s1)
      | (Inr c, s1) \<Rightarrow>
          (case socket_handler_ctor (sv_next_id s1) c Handle_preinit of
             (h, new_connection) \<Rightarrow>
               (Inr Proceed,
                s1\<lparr>sv_world := socket_handle_dtor E new_connection (sv_world s1),
                   sv_handlers := sv_handlers s1 @ [h], sv_next_id := sv_next_id s1 + 1\<rparr>)))"

definition accept_regular :: "'w env \<Rightarrow> int \<Rightarrow> 'w server \<Rightarrow> (exn + status) \<times> 'w server" where
  "accept_regular E fd s =
     (case accept_connection E fd s of
        (Inl x, s1) \<Rightarrow> (Inl x, s1)
      | (Inr c, s1) \<Rightarrow>
          (let i = sv_next_id s1; s2 = s1\<lparr>sv_next_id := i + 1\<rparr>
           in case env_create_session E (sv_world s2) i of
                Inl x \<Rightarrow> (Inl x, s2\<lparr>sv_world := socket_handle_reset E c (sv_world s2)\<rparr>)
              | Inr w \<Rightarrow>
                  (Inr Proceed,
                   trace (Created i) (s2\<lparr>sv_world := w, sv_handlers := sv_handlers s2 @
                     [\<lparr>sh_id = i, sh_handler = Handle_session i, sh_socket = c\<rparr>]\<rparr>))))"

text \<open>
  The loop of \<^verbatim>\<open>handle_preinit\<close>, from position \<open>i\<close> on; \<open>self\<close> is the position of the handler that
  runs.
\<close>

fun assign_handlers ::
  "'w env \<Rightarrow> nat \<Rightarrow> nat \<Rightarrow> nat \<Rightarrow> 'w server \<Rightarrow> exn option \<times> 'w server" where
  "assign_handlers E self i 0 s = (None, s)"
| "assign_handlers E self i (Suc n) s =
     (let h = sv_handlers s ! i;
          set = (\<lambda>f s. s\<lparr>sv_handlers := (sv_handlers s)[i := h\<lparr>sh_handler := f\<rparr>]\<rparr>)
      in if i = 0 then assign_handlers E self (Suc i) n (set Accept_regular s)
         else if i = self then assign_handlers E self (Suc i) n (set Handle_aux s)
         else (case env_create_session E (sv_world s) (sh_id h) of
                 Inl x \<Rightarrow> (Some x, s)
               | Inr w \<Rightarrow> assign_handlers E self (Suc i) n
                   (trace (Created (sh_id h)) (set (Handle_session (sh_id h)) (s\<lparr>sv_world := w\<rparr>)))))"

definition handle_preinit ::
    "endian \<Rightarrow> 'w env \<Rightarrow> nat \<Rightarrow> int \<Rightarrow> 'w server \<Rightarrow> (exn + status) \<times> 'w server" where
  "handle_preinit e E self fd s =
     (case recv_scalar e E (sv_world s) fd Msg_peek of (r, magic, w1) \<Rightarrow>
        if r = 4 \<and> magic = init_magic
        then (case recv_scalar e E w1 fd Msg_waitall of (_, _, w2) \<Rightarrow>
                (case assign_handlers E self 0 (length (sv_handlers s)) (s\<lparr>sv_world := w2\<rparr>) of
                   (Some x, s1) \<Rightarrow> (Inl x, s1)
                 | (None, s1) \<Rightarrow> (Inr Proceed, s1)))
        else (Inr Proceed, s\<lparr>sv_world := w1\<rparr>))"

text \<open>The count that \<^verbatim>\<open>recv\<close> returns for the payload is not looked at.\<close>

definition handle_session ::
    "endian \<Rightarrow> 'w env \<Rightarrow> int \<Rightarrow> u32 \<Rightarrow> 'w server \<Rightarrow> (exn + status) \<times> 'w server" where
  "handle_session e E fd inbound s =
     (case recv_scalar e E (sv_world s) fd Msg_waitall of (r, sz, w1) \<Rightarrow>
        if r > 0
        then (case env_recv E w1 fd (unat sz) Msg_waitall of ((_, data), w2) \<Rightarrow>
                (let buffer = overwrite (resize (sv_buffer s) (unat sz)) data;
                     s1 = trace (Got inbound buffer) (s\<lparr>sv_world := w2, sv_buffer := buffer\<rparr>)
                 in case env_session_message E w2 inbound buffer of
                      Inl x \<Rightarrow> (Inl x, s1)
                    | Inr w3 \<Rightarrow> (Inr Proceed, s1\<lparr>sv_world := w3\<rparr>)))
        else (Inr Remove_this,
              trace (Disconnected inbound) (s\<lparr>sv_world := env_session_disconnect E w1 inbound\<rparr>)))"

text \<open>The position of the first handler that has an id.\<close>

fun find_handler :: "u32 \<Rightarrow> socket_handler list \<Rightarrow> nat option" where
  "find_handler i [] = None"
| "find_handler i (h # hs) =
     (if sh_id h = i then Some 0 else map_option Suc (find_handler i hs))"

text \<open>The iterator of the loop when another element, or its own, is erased from the list.\<close>

fun erase_beside :: "nat \<Rightarrow> loop_pc \<Rightarrow> loop_pc" where
  "erase_beside i (Visiting fds k) =
     (if i < k then Visiting fds (k - 1) else if i = k then Dangling_iterator else Visiting fds k)"
| "erase_beside i pc = pc"

definition handle_aux ::
    "endian \<Rightarrow> 'w env \<Rightarrow> int \<Rightarrow> 'w server \<Rightarrow> (exn + status) \<times> 'w server" where
  "handle_aux e E fd s =
     (case recv_scalar e E (sv_world s) fd Msg_waitall of (r, i, w1) \<Rightarrow>
        (let s1 = s\<lparr>sv_world := w1\<rparr>
         in if r > 0
            then (case find_handler i (sv_handlers s1) of
                    Some k \<Rightarrow>
                      (Inr Proceed, (erase_handler E k s1)\<lparr>sv_pc := erase_beside k (sv_pc s1)\<rparr>)
                  | None \<Rightarrow> (Inr Exit, s1))
            else (Inr Exit, s1)))"

section \<open>The thread\<close>

definition run_handler ::
    "endian \<Rightarrow> 'w env \<Rightarrow> nat \<Rightarrow> 'w server \<Rightarrow> (exn + status) \<times> 'w server" where
  "run_handler e E k s =
     (let fd = sh_socket (sv_handlers s ! k)
      in case sh_handler (sv_handlers s ! k) of
           Accept_preinit \<Rightarrow> accept_preinit E fd s
         | Handle_preinit \<Rightarrow> handle_preinit e E k fd s
         | Accept_regular \<Rightarrow> accept_regular E fd s
         | Handle_session inbound \<Rightarrow> handle_session e E fd inbound s
         | Handle_aux \<Rightarrow> handle_aux e E fd s)"

text \<open>\<^verbatim>\<open>++i\<close>\<close>

fun advance :: "loop_pc \<Rightarrow> loop_pc" where
  "advance (Visiting fds k) = Visiting fds (Suc k)"
| "advance pc = pc"

text \<open>\<^verbatim>\<open>FD_SET\<close> and \<^verbatim>\<open>FD_ISSET\<close> are defined for the descriptors below \<^verbatim>\<open>FD_SETSIZE\<close> only.\<close>

definition fd_setsize :: int where
  "fd_setsize = 1024"

definition fits_fd_set :: "int list \<Rightarrow> bool" where
  "fits_fd_set fds = list_all (\<lambda>fd. 0 \<le> fd \<and> fd < fd_setsize) fds"

text \<open>
  A turn: the \<^verbatim>\<open>select\<close>, or one element of the list. An exception ends the thread, for it is
  caught around the loop. An element appended in the middle of the pass is asked for with \<^verbatim>\<open>FD_ISSET\<close>
  although nothing has checked its socket yet; the sockets that \<^verbatim>\<open>select\<close> reports are among those that
  it was given, so that only the others need the check.
\<close>

definition server_turn :: "endian \<Rightarrow> 'w env \<Rightarrow> 'w server \<Rightarrow> 'w server" where
  "server_turn e E s =
     (case sv_pc s of
        Selecting \<Rightarrow>
          if \<not> fits_fd_set (map sh_socket (sv_handlers s)) then s\<lparr>sv_pc := Fd_set_overrun\<rparr>
          else (case env_select E (sv_world s) (map sh_socket (sv_handlers s)) of ((r, ready), w1) \<Rightarrow>
             s\<lparr>sv_world := w1, sv_pc := (if r < 0 then Ended else Visiting ready 0)\<rparr>)
      | Visiting fds k \<Rightarrow>
          if k < length (sv_handlers s)
          then if sh_socket (sv_handlers s ! k) \<in> set fds
               then (case run_handler e E k s of
                       (Inl x, s1) \<Rightarrow> s1\<lparr>sv_pc := Ended\<rparr>
                     | (Inr Proceed, s1) \<Rightarrow> s1\<lparr>sv_pc := advance (sv_pc s1)\<rparr>
                     | (Inr Remove_this, s1) \<Rightarrow> erase_handler E k s1
                     | (Inr Exit, s1) \<Rightarrow> s1\<lparr>sv_pc := Ended\<rparr>)
               else if fits_fd_set [sh_socket (sv_handlers s ! k)] then s\<lparr>sv_pc := Visiting fds (Suc k)\<rparr>
               else s\<lparr>sv_pc := Fd_set_overrun\<rparr>
          else s\<lparr>sv_pc := Selecting\<rparr>
      | _ \<Rightarrow> s)"

section \<open>The server object\<close>

definition connect_aux :: "endian \<Rightarrow> 'w env \<Rightarrow> u16 \<Rightarrow> 'w \<Rightarrow> (exn + int) \<times> 'w" where
  "connect_aux e E port w =
     (case env_socket E w of (s, w1) \<Rightarrow>
        if s = - 1 then (Inl (Initialization_failed ''aux socket creation failed''), w1)
        else (case env_connect E w1 s (make_sockaddr_in e c_localhost port) of (r, w2) \<Rightarrow>
          if r \<noteq> 0
          then (Inl (Initialization_failed ''aux socket connection failed''), env_close E w2 s)
          else (Inr s, snd (send_scalar e (\<lambda>w. env_send E w s) (env_ioctl E w2 s) 4 (unat init_magic)))))"

definition max_backlog :: nat where
  "max_backlog = 5"

text \<open>The construction, with the destructors that run when a step of it throws.\<close>

definition listen_on :: "endian \<Rightarrow> 'w env \<Rightarrow> int \<Rightarrow> host_port \<Rightarrow> 'w \<Rightarrow> exn option \<times> 'w" where
  "listen_on e E s hp w =
     (case setup_socket E s w of
        (Some x, w1) \<Rightarrow> (Some x, w1)
      | (None, w1) \<Rightarrow>
          (case env_bind E w1 s (make_sockaddr_in e (hp_host hp) (hp_port hp)) of (r, w2) \<Rightarrow>
             if r \<noteq> 0 then (Some (Initialization_failed ''bind() failed''), w2)
             else (case env_listen E w2 s max_backlog of (r', w3) \<Rightarrow>
               (if r' \<noteq> 0 then Some (Initialization_failed ''listen() failed'') else None, w3))))"

definition server_create ::
    "endian \<Rightarrow> 'w env \<Rightarrow> string \<Rightarrow> 'w \<Rightarrow> (exn + 'w server) \<times> 'w" where
  "server_create e E endpoint_id w =
     (case env_socket E w of (fd, w1) \<Rightarrow>
        (case socket_handle_ctor fd of
           Inl x \<Rightarrow> (Inl x, w1)
         | Inr server_socket \<Rightarrow>
             (let hp = host_port_ctor endpoint_id c_localhost
              in case listen_on e E server_socket hp w1 of
                   (Some x, w2) \<Rightarrow> (Inl x, socket_handle_reset E server_socket w2)
                 | (None, w2) \<Rightarrow>
                     (case connect_aux e E (hp_port hp) w2 of
                        (Inl x, w3) \<Rightarrow> (Inl x, socket_handle_reset E server_socket w3)
                      | (Inr aux, w3) \<Rightarrow>
                          (Inr \<lparr>sv_world = w3, sv_aux_socket = aux, sv_next_id = 101,
                             sv_handlers = [\<lparr>sh_id = 100, sh_handler = Accept_preinit,
                                             sh_socket = server_socket\<rparr>],
                             sv_buffer = [], sv_pc = Selecting, sv_trace = []\<rparr>, w3)))))"

text \<open>\<^verbatim>\<open>disconnect\<close> of an outbound channel.\<close>

definition socket_handler_disconnect :: "endian \<Rightarrow> 'w env \<Rightarrow> int \<Rightarrow> u32 \<Rightarrow> 'w \<Rightarrow> 'w" where
  "socket_handler_disconnect e E aux i w = snd (send_scalar e (\<lambda>w. env_send E w aux) w 4 (unat i))"

text \<open>
  The outbound channel of a session is its \<^verbatim>\<open>socket_handler\<close>, which it has been given a reference to. The
  two methods as the session calls them, from whatever thread: \<open>None\<close> when the handler has been
  destroyed, with which the reference has become invalid.
\<close>

definition outbound_disconnect :: "endian \<Rightarrow> 'w env \<Rightarrow> u32 \<Rightarrow> 'w server \<Rightarrow> 'w server option" where
  "outbound_disconnect e E i s =
     map_option (\<lambda>k. s\<lparr>sv_world :=
         socket_handler_disconnect e E (sv_aux_socket s) (sh_id (sv_handlers s ! k)) (sv_world s)\<rparr>)
       (find_handler i (sv_handlers s))"

definition outbound_message :: "endian \<Rightarrow> 'w env \<Rightarrow> u32 \<Rightarrow> bytes \<Rightarrow> 'w server \<Rightarrow> 'w server option" where
  "outbound_message e E i payload s =
     map_option (\<lambda>k. s\<lparr>sv_world :=
         socket_handler_message e (\<lambda>w. env_send E w (sh_socket (sv_handlers s ! k))) (sv_world s) payload\<rparr>)
       (find_handler i (sv_handlers s))"

text \<open>The two halves of the destructor of the server.\<close>

definition server_stop :: "endian \<Rightarrow> 'w env \<Rightarrow> 'w server \<Rightarrow> 'w server" where
  "server_stop e E s =
     s\<lparr>sv_world := snd (send_scalar e (\<lambda>w. env_send E w (sv_aux_socket s)) (sv_world s) 4 0)\<rparr>"

fun destroy_handlers :: "'w env \<Rightarrow> nat \<Rightarrow> 'w server \<Rightarrow> 'w server" where
  "destroy_handlers E 0 s = s"
| "destroy_handlers E (Suc n) s = destroy_handlers E n (erase_handler E 0 s)"

definition server_dtor :: "'w env \<Rightarrow> 'w server \<Rightarrow> 'w server" where
  "server_dtor E s =
     (let s1 = destroy_handlers E (length (sv_handlers s)) s
      in s1\<lparr>sv_world := socket_handle_reset E (sv_aux_socket s1) (sv_world s1),
            sv_aux_socket := 0\<rparr>)"

text \<open>
  Runs: turns of the thread, and whatever the other threads, the sessions' owners and the peers do
  to the outside world in between. Ids are not reused: fewer than \<open>2 ^ 32 - 101\<close> connections.
\<close>

inductive server_step :: "endian \<Rightarrow> 'w env \<Rightarrow> 'w server \<Rightarrow> 'w server \<Rightarrow> bool" for e E where
  turn: "sv_next_id s \<noteq> - 1 \<Longrightarrow> server_step e E s (server_turn e E s)"
| outside: "server_step e E s (s\<lparr>sv_world := w\<rparr>)"

inductive_cases server_stepE: "server_step e E s t"

inductive server_reach :: "endian \<Rightarrow> 'w env \<Rightarrow> 'w server \<Rightarrow> bool" for e E where
  start: "server_create e E endpoint_id w = (Inr s, w') \<Longrightarrow> server_reach e E s"
| step: "server_reach e E s \<Longrightarrow> server_step e E s t \<Longrightarrow> server_reach e E t"

end
