(* ===== verification/Endpoints.thy ===== *)
theory Endpoints
  imports Socket_Server
begin

text \<open>
  The threads that read for the other endpoints, each one \<^verbatim>\<open>read_messages\<close> with what precedes and
  follows it: \<^verbatim>\<open>main\<close> of a spawned server (\<^verbatim>\<open>src/server_endpoint_spawn.cpp\<close>), the thread of the client
  that spawned it (\<^verbatim>\<open>src/client_endpoint_spawn.cpp\<close>) and the thread of a socket client
  (\<^verbatim>\<open>src/client_endpoint_sockets.cpp\<close>), with that client's construction and destruction. \<open>None\<close> is
  a thread that does not end, an exception is one that leaves the function of the thread.
\<close>

section \<open>A spawned server\<close>

text \<open>\<^verbatim>\<open>for (auto i = 1; i != argc; ++i) arguments.push_back(argv[i]);\<close>\<close>

definition main_arguments :: "string list \<Rightarrow> string list" where
  "main_arguments argv = map (\<lambda>i. argv ! i) [1 ..< length argv]"

definition spawn_server_main ::
  "endian \<Rightarrow> string list \<Rightarrow> (string list \<Rightarrow> 'c \<Rightarrow> exn + 'c) \<Rightarrow> 'c channel \<Rightarrow>
   ('s \<Rightarrow> nat \<Rightarrow> exn + bytes \<times> 's) \<Rightarrow> 's \<Rightarrow> 'c \<Rightarrow> (exn option \<times> 's \<times> 'c) option" where
  "spawn_server_main e argv create_session ch read_stdin s c =
     (case create_session (main_arguments argv) c of
        Inl x \<Rightarrow> Some (Some x, s, c)
      | Inr c1 \<Rightarrow>
          (case read_messages e False read_stdin ch s c1 of
             None \<Rightarrow> None
           | Some (Some x, s', c') \<Rightarrow> Some (Some x, s', c')
           | Some (None, s', c') \<Rightarrow> Some (None, s', ch_disconnect ch c')))"

text \<open>
  The client's thread tells its channel of the disconnection only if the destructor has not taken
  the outbound stream away by the time the reading is over.
\<close>

definition spawn_client_thread ::
  "endian \<Rightarrow> bool \<Rightarrow> 'c channel \<Rightarrow> ('s \<Rightarrow> nat \<Rightarrow> exn + bytes \<times> 's) \<Rightarrow> 's \<Rightarrow> 'c \<Rightarrow>
   (exn option \<times> 's \<times> 'c) option" where
  "spawn_client_thread e outbound ch read_from s c =
     (case read_messages e False read_from ch s c of
        None \<Rightarrow> None
      | Some (Some x, s', c') \<Rightarrow> Some (Some x, s', c')
      | Some (None, s', c') \<Rightarrow> Some (None, s', if outbound then ch_disconnect ch c' else c'))"

lemma main_arguments_eq: "main_arguments argv = tl argv"
proof (cases argv)
  case (Cons a as)
  have "[1 ..< length argv] = map Suc [0 ..< length as]" by (simp add: Cons map_Suc_upt)
  with Cons show ?thesis by (simp add: main_arguments_def comp_def map_nth del: upt_Suc)
qed (simp add: main_arguments_def)

section \<open>A socket client\<close>

definition socket_client_thread ::
  "endian \<Rightarrow> 'c channel \<Rightarrow> ('s \<Rightarrow> nat \<Rightarrow> exn + bytes \<times> 's) \<Rightarrow> 's \<Rightarrow> 'c \<Rightarrow>
   (exn option \<times> 's \<times> 'c) option" where
  "socket_client_thread e ch recv s c =
     (case read_messages e True recv ch s c of
        None \<Rightarrow> None
      | Some (Some x, s', c') \<Rightarrow> Some (Some x, s', c')
      | Some (None, s', c') \<Rightarrow> Some (None, s', ch_disconnect ch c'))"

definition socket_client_open :: "endian \<Rightarrow> 'w env \<Rightarrow> host_port \<Rightarrow> 'w \<Rightarrow> (exn + int) \<times> 'w" where
  "socket_client_open e E hp w =
     (case env_socket E w of (hsocket, w1) \<Rightarrow>
        if hsocket = - 1 then (Inl (Initialization_failed ''socket creation failed''), w1)
        else (case env_connect E w1 hsocket (make_sockaddr_in e (hp_host hp) (hp_port hp)) of (r, w2) \<Rightarrow>
          if r \<noteq> 0 then (Inl (Connection_refused (hp_host hp)), env_close E w2 hsocket)
          else (Inr hsocket, w2)))"

text \<open>
  The thread and the destructor share the member \<^verbatim>\<open>_socket\<close>: each call of \<^verbatim>\<open>recv\<close> reads it anew,
  \<^verbatim>\<open>reset\<close> closes the descriptor and sets the member to zero.
\<close>

datatype client_thread =
    About_to_recv
  | In_recv int
  | Thread_ended

datatype client_dtor = Alive | Shut_down | Closed | Reset_done | Joined

record socket_client =
  sc_socket :: int
  sc_thread :: client_thread
  sc_dtor :: client_dtor

definition socket_connect_client :: "endian \<Rightarrow> 'w env \<Rightarrow> string \<Rightarrow> 'w \<Rightarrow> (exn + socket_client) \<times> 'w" where
  "socket_connect_client e E destination_endpoint_id w =
     (case socket_client_open e E (host_port_ctor destination_endpoint_id c_localhost) w of
        (Inl x, w1) \<Rightarrow> (Inl x, w1)
      | (Inr s, w1) \<Rightarrow>
          (case socket_handle_ctor s of
             Inl x \<Rightarrow> (Inl x, w1)
           | Inr s' \<Rightarrow> (Inr \<lparr>sc_socket = s', sc_thread = About_to_recv, sc_dtor = Alive\<rparr>, w1)))"

text \<open>The steps of the thread, in between two of which messages are handed over, and of the destructor.\<close>

inductive client_step :: "socket_client \<Rightarrow> socket_client \<Rightarrow> bool" where
  recv_call: "sc_thread s = About_to_recv \<Longrightarrow> client_step s (s\<lparr>sc_thread := In_recv (sc_socket s)\<rparr>)"
| recv_data: "sc_thread s = In_recv fd \<Longrightarrow> client_step s (s\<lparr>sc_thread := About_to_recv\<rparr>)"
| recv_end: "sc_thread s = In_recv fd \<Longrightarrow> client_step s (s\<lparr>sc_thread := Thread_ended\<rparr>)"
| dtor_shutdown: "sc_dtor s = Alive \<Longrightarrow> client_step s (s\<lparr>sc_dtor := Shut_down\<rparr>)"
| dtor_close: "sc_dtor s = Shut_down \<Longrightarrow> client_step s (s\<lparr>sc_dtor := Closed\<rparr>)"
| dtor_zero: "sc_dtor s = Closed \<Longrightarrow> client_step s (s\<lparr>sc_socket := 0, sc_dtor := Reset_done\<rparr>)"
| dtor_join: "sc_dtor s = Reset_done \<Longrightarrow> sc_thread s = Thread_ended \<Longrightarrow>
    client_step s (s\<lparr>sc_dtor := Joined\<rparr>)"

inductive_cases client_stepE: "client_step s t"

text \<open>What \<^verbatim>\<open>recv\<close> may be called on: the socket, or zero once the destructor has set it so.\<close>

definition client_fds_ok :: "int \<Rightarrow> socket_client \<Rightarrow> bool" where
  "client_fds_ok fd s \<longleftrightarrow>
     (sc_socket s = (if sc_dtor s \<in> {Reset_done, Joined} then 0 else fd)) \<and>
     (\<forall>d. sc_thread s = In_recv d \<longrightarrow> d = fd \<or> d = 0 \<and> sc_dtor s \<in> {Reset_done, Joined}) \<and>
     (sc_dtor s = Joined \<longrightarrow> sc_thread s = Thread_ended)"

lemma client_step_fds: "client_step s t \<Longrightarrow> client_fds_ok fd s \<Longrightarrow> client_fds_ok fd t"
  by (erule client_stepE) (auto simp: client_fds_ok_def)

lemma client_steps_fds: "client_step\<^sup>*\<^sup>* s t \<Longrightarrow> client_fds_ok fd s \<Longrightarrow> client_fds_ok fd t"
  by (induction rule: rtranclp_induct) (auto dest: client_step_fds)

lemma socket_connect_client_fds:
  "socket_connect_client e E endpoint_id w = (Inr s, w') \<Longrightarrow> client_fds_ok (sc_socket s) s"
  by (auto simp: socket_connect_client_def client_fds_ok_def split: prod.splits sum.splits)

text \<open>
  Between two calls of \<^verbatim>\<open>recv\<close>, while a message is handed over, the destructor may go all the way to
  the join: the next call is on descriptor zero, and the destructor waits for it.
\<close>

lemma client_recv_on_zero:
  assumes "sc_thread s = About_to_recv" and "sc_dtor s = Alive"
  shows "client_step\<^sup>*\<^sup>* s (s\<lparr>sc_socket := 0, sc_dtor := Reset_done, sc_thread := In_recv 0\<rparr>)"
proof -
  let ?s1 = "s\<lparr>sc_dtor := Shut_down\<rparr>"
  let ?s2 = "s\<lparr>sc_dtor := Closed\<rparr>"
  let ?s3 = "s\<lparr>sc_socket := 0, sc_dtor := Reset_done\<rparr>"
  have "client_step s ?s1" using assms(2) by (rule client_step.dtor_shutdown)
  moreover have "client_step ?s1 ?s2" using client_step.dtor_close [of ?s1] by simp
  moreover have "client_step ?s2 ?s3" using client_step.dtor_zero [of ?s2] by simp
  moreover have "client_step ?s3 (s\<lparr>sc_socket := 0, sc_dtor := Reset_done, sc_thread := In_recv 0\<rparr>)"
    using client_step.recv_call [of ?s3] assms(1) by simp
  ultimately show ?thesis by (meson converse_rtranclp_into_rtranclp rtranclp.rtrancl_refl)
qed

section \<open>What the channels are told\<close>

lemma read_then_disconnect:
  assumes "\<exists>s'. read_messages e swap get ch s c = (case deliver_all ch c ms of (x, c') \<Rightarrow> Some (x, s', c'))"
  shows "\<exists>s'. (case read_messages e swap get ch s c of
       None \<Rightarrow> None
     | Some (Some x, s', c') \<Rightarrow> Some (Some x, s', c')
     | Some (None, s', c') \<Rightarrow> Some (None, s', ch_disconnect ch c')) =
    (case then_disconnect ch (deliver_all ch c ms) of (x, c') \<Rightarrow> Some (x, s', c'))"
proof -
  obtain x c' where d: "deliver_all ch c ms = (x, c')" by (cases "deliver_all ch c ms")
  with assms obtain s' where "read_messages e swap get ch s c = Some (x, s', c')" by auto
  with d show ?thesis by (cases x) auto
qed

lemma socket_client_thread_frames:
  assumes "byte_source recv avail" and "avail s = concat (map (frame e True) ms)"
    and "\<forall>m \<in> set ms. length m < 2 ^ 32"
  shows "\<exists>s'. socket_client_thread e ch recv s c =
    (case then_disconnect ch (deliver_all ch c ms) of (x, c') \<Rightarrow> Some (x, s', c'))"
  unfolding socket_client_thread_def
  using byte_source.read_messages_frames [OF assms(1), of s e True ms "[]" ch c] assms(2,3)
  by (intro read_then_disconnect) simp

lemma spawn_client_thread_frames:
  assumes "byte_source get avail" and "avail s = concat (map (frame e False) ms)"
    and "\<forall>m \<in> set ms. length m < 2 ^ 32"
  shows "\<exists>s'. spawn_client_thread e outbound ch get s c =
    (case (if outbound then then_disconnect ch (deliver_all ch c ms) else deliver_all ch c ms) of
       (x, c') \<Rightarrow> Some (x, s', c'))"
proof -
  obtain x c' where d: "deliver_all ch c ms = (x, c')" by (cases "deliver_all ch c ms")
  then obtain s' where "read_messages e False get ch s c = Some (x, s', c')"
    using byte_source.read_messages_frames [OF assms(1), of s e False ms "[]" ch c] assms(2,3) by auto
  with d show ?thesis by (cases x) (auto simp: spawn_client_thread_def)
qed

lemma spawn_server_main_frames:
  assumes "byte_source get avail" and "avail s = concat (map (frame e False) ms)"
    and "\<forall>m \<in> set ms. length m < 2 ^ 32" and "create_session (tl argv) c = Inr c1"
  shows "\<exists>s'. spawn_server_main e argv create_session ch get s c =
    (case then_disconnect ch (deliver_all ch c1 ms) of (x, c') \<Rightarrow> Some (x, s', c'))"
  unfolding spawn_server_main_def main_arguments_eq assms(4) sum.case
  using byte_source.read_messages_frames [OF assms(1), of s e False ms "[]" ch c1] assms(2,3)
  by (intro read_then_disconnect) simp

text \<open>The construction of a socket client closes its socket when it throws.\<close>

lemma socket_client_open_cases:
  assumes "env_socket E w = (fd, w1)"
  shows "socket_client_open e E hp w =
    (if fd = - 1 then (Inl (Initialization_failed ''socket creation failed''), w1)
     else if fst (env_connect E w1 fd (make_sockaddr_in e (hp_host hp) (hp_port hp))) = 0
     then (Inr fd, snd (env_connect E w1 fd (make_sockaddr_in e (hp_host hp) (hp_port hp))))
     else (Inl (Connection_refused (hp_host hp)),
           env_close E (snd (env_connect E w1 fd (make_sockaddr_in e (hp_host hp) (hp_port hp)))) fd))"
  using assms by (simp add: socket_client_open_def split_beta)

end
