(* ===== verification/Remote_Calls.thy ===== *)
theory Remote_Calls
  imports Client_Calls Server_Session Endpoints
begin

text \<open>
  The two session layers over a transport: a client session whose requests go out through the pipe
  to a spawned server, a server session in that server's \<^verbatim>\<open>main\<close>, and the responses on their way
  back to the client's thread. Each session is a channel, as the base class of both is.
\<close>

section \<open>Sessions as channels\<close>

definition client_channel :: "codec \<Rightarrow> 'cb client_session channel" where
  "client_channel cd = \<lparr>ch_disconnect = client_disconnect, ch_message = client_message cd\<rparr>"

definition server_channel :: "codec \<Rightarrow> 'o channel \<Rightarrow> 'o server_session channel" where
  "server_channel cd out = \<lparr>
     ch_disconnect = server_disconnect,
     ch_message = (\<lambda>s m. case server_message cd out s m of (None, s') \<Rightarrow> Inr s' | (Some x, _) \<Rightarrow> Inl x)\<rparr>"

definition pipe_channel :: "endian \<Rightarrow> out_file channel" where
  "pipe_channel e =
     \<lparr>ch_disconnect = (\<lambda>f. f), ch_message = (\<lambda>f m. Inr (pipe_channel_message e f m))\<rparr>"

section \<open>Calls\<close>

text \<open>A call and what the server's handler answers it with.\<close>

record 'cb call =
  cl_handle :: nat
  cl_request :: int
  cl_payload :: bytes
  cl_response :: int
  cl_callback :: 'cb
  cl_body :: bytes

definition request_bytes :: "codec \<Rightarrow> u64 \<Rightarrow> 'cb call \<Rightarrow> bytes" where
  "request_bytes cd t k = enc_id cd (cl_request k) @ enc_token cd t @ cl_payload k"

definition response_bytes :: "codec \<Rightarrow> u64 \<Rightarrow> 'cb call \<Rightarrow> bytes" where
  "response_bytes cd t k = enc_id cd (cl_response k) @ enc_token cd t @ cl_body k"

text \<open>The messages of a list of calls, whose tokens are drawn one after another.\<close>

fun numbered :: "(u64 \<Rightarrow> 'a \<Rightarrow> bytes) \<Rightarrow> u64 \<Rightarrow> 'a list \<Rightarrow> bytes list" where
  "numbered f t [] = []"
| "numbered f t (k # ks) = f t k # numbered f (t + 1) ks"

fun issue :: "codec \<Rightarrow> 'cb call list \<Rightarrow> 'cb client_session \<Rightarrow> fault + 'cb client_session" where
  "issue cd [] c = Inr c"
| "issue cd (k # ks) c =
     bind_result (request cd log_outbound (cl_handle k) (cl_request k) (cl_payload k)
       (cl_response k) (cl_callback k) c) (issue cd ks)"

definition served :: "(int \<Rightarrow> handler option) \<Rightarrow> 'cb call \<Rightarrow> bool" where
  "served handlers k \<longleftrightarrow> (case handlers (cl_request k) of
     None \<Rightarrow> False | Some h \<Rightarrow> h (cl_payload k) = Inr [Respond (cl_response k) (cl_body k)])"

section \<open>The client sends\<close>

text \<open>A callback that is awaited and owned by the handle of its call.\<close>

definition awaits :: "'cb client_session \<Rightarrow> u64 \<Rightarrow> 'cb call \<Rightarrow> bool" where
  "awaits c t k \<longleftrightarrow> (\<exists>n. (n, Cb_key (cl_response k) t, cl_callback k) \<in> set (cs_callbacks c) \<and>
     Erase_callback n \<in> set (cs_handles c (cl_handle k)))"

fun awaits_all :: "'cb client_session \<Rightarrow> u64 \<Rightarrow> 'cb call list \<Rightarrow> bool" where
  "awaits_all c t [] = True"
| "awaits_all c t (k # ks) = (awaits c t k \<and> awaits_all c (t + 1) ks)"

lemma awaits_lookup:
  assumes "client_inv c" and "awaits c t k"
  shows "smap_lookup (cs_callbacks c) (Cb_key (cl_response k) t) = Some (cl_callback k)"
  using assms by (auto simp: awaits_def client_inv_def maps_ok_def intro: smap_lookup_in)

lemma request_log:
  assumes inv: "client_inv c" and token: "cs_token c \<noteq> - 1"
  shows "\<exists>c2. request cd log_outbound (cl_handle k) (cl_request k) (cl_payload k)
      (cl_response k) (cl_callback k) c = Inr c2 \<and>
    client_inv c2 \<and> cs_token c2 = cs_token c + 1 \<and> awaits c2 (cs_token c) k \<and>
    cs_outbound_log c2 = cs_outbound_log c @ [Message (request_bytes cd (cs_token c) k)] \<and>
    cs_calls c2 = cs_calls c \<and>
    (\<forall>t j. awaits c t j \<longrightarrow> cl_handle j \<noteq> cl_handle k \<longrightarrow> awaits c2 t j) \<and>
    (\<forall>r. smap_lookup (cs_message_callbacks c) r = None \<longrightarrow> smap_lookup (cs_message_callbacks c2) r = None)"
proof -
  let ?h = "cl_handle k"
  obtain d where d: "request cd log_outbound ?h (cl_request k) (cl_payload k) (cl_response k) (cl_callback k) c =
        lift_exn (ch_message log_outbound d (request_bytes cd (cs_token c) k))"
      "client_inv d" "cs_token d = cs_token c + 1"
      "cs_handles d = (cs_handles c)(?h := [Erase_callback (cs_next_node c)])"
      "(cs_next_node c, Cb_key (cl_response k) (cs_token c), cl_callback k) \<in> set (cs_callbacks d)"
      "\<forall>e \<in> set (cs_callbacks c). Erase_callback (fst e) \<notin> set (cs_handles c ?h) \<longrightarrow> e \<in> set (cs_callbacks d)"
      "cs_message_callbacks d = cs_message_callbacks (drop_owned (cs_handles c ?h) c)"
      "cs_calls d = cs_calls c" "cs_outbound_log d = cs_outbound_log c"
    using request_ok [OF inv token, of cd log_outbound ?h "cl_request k" "cl_payload k" "cl_response k" "cl_callback k"]
    unfolding request_bytes_def by blast
  let ?c2 = "d\<lparr>cs_outbound_log := cs_outbound_log d @ [Message (request_bytes cd (cs_token c) k)]\<rparr>"
  have one: "Erase_callback n \<notin> set (cs_handles c ?h)"
    if "Erase_callback n \<in> set (cs_handles c h)" "h \<noteq> ?h" for n h
    using inv that unfolding client_inv_def handles_ok_def partitions_def by blast
  have "awaits ?c2 t j" if "awaits c t j" "cl_handle j \<noteq> ?h" for t j
    using that one d(4,6) by (fastforce simp: awaits_def)
  moreover have "awaits ?c2 (cs_token c) k" using d(4,5) by (auto simp: awaits_def)
  moreover have "client_inv ?c2" using d(2) by (simp add: client_inv_def maps_ok_def handles_ok_def owned_def)
  moreover have "request cd log_outbound ?h (cl_request k) (cl_payload k) (cl_response k) (cl_callback k) c = Inr ?c2"
    using d(1) by (simp add: log_outbound_def lift_exn_def)
  ultimately show ?thesis using d(3,7-9) by (intro exI [of _ ?c2]) (simp add: drop_owned_None)
qed

lemma issue_ok:
  assumes "client_inv c" and "unat (cs_token c) + length ks < 2 ^ 64" and "distinct (map cl_handle ks)"
    and "\<forall>k \<in> set ks. smap_lookup (cs_message_callbacks c) (cl_response k) = None"
  shows "\<exists>c2. issue cd ks c = Inr c2 \<and> client_inv c2 \<and> awaits_all c2 (cs_token c) ks \<and>
    cs_outbound_log c2 = cs_outbound_log c @ map Message (numbered (request_bytes cd) (cs_token c) ks) \<and>
    cs_calls c2 = cs_calls c \<and>
    (\<forall>t j. awaits c t j \<longrightarrow> cl_handle j \<notin> set (map cl_handle ks) \<longrightarrow> awaits c2 t j) \<and>
    (\<forall>r. smap_lookup (cs_message_callbacks c) r = None \<longrightarrow> smap_lookup (cs_message_callbacks c2) r = None)"
  using assms
proof (induction ks arbitrary: c)
  case (Cons k ks)
  have token: "cs_token c \<noteq> - 1"
  proof
    assume "cs_token c = - 1"
    then have "unat (cs_token c) = 2 ^ 64 - 1" by (simp add: unsigned_minus_1_eq_mask mask_eq_exp_minus_1)
    with Cons.prems(2) show False by simp
  qed
  then have succ: "unat (cs_token c + 1) = Suc (unat (cs_token c))" by (rule unat_succ)
  obtain c1 where c1: "request cd log_outbound (cl_handle k) (cl_request k) (cl_payload k)
      (cl_response k) (cl_callback k) c = Inr c1"
    and inv1: "client_inv c1" and tok1: "cs_token c1 = cs_token c + 1" and aw: "awaits c1 (cs_token c) k"
    and log1: "cs_outbound_log c1 = cs_outbound_log c @ [Message (request_bytes cd (cs_token c) k)]"
    and calls1: "cs_calls c1 = cs_calls c"
    and keep: "\<forall>t j. awaits c t j \<longrightarrow> cl_handle j \<noteq> cl_handle k \<longrightarrow> awaits c1 t j"
    and subs: "\<forall>r. smap_lookup (cs_message_callbacks c) r = None \<longrightarrow> smap_lookup (cs_message_callbacks c1) r = None"
    using request_log [OF Cons.prems(1) token, of cd k] by blast
  obtain c2 where c2: "issue cd ks c1 = Inr c2" "client_inv c2" "awaits_all c2 (cs_token c1) ks"
      "cs_outbound_log c2 = cs_outbound_log c1 @ map Message (numbered (request_bytes cd) (cs_token c1) ks)"
      "cs_calls c2 = cs_calls c1"
      "\<forall>t j. awaits c1 t j \<longrightarrow> cl_handle j \<notin> set (map cl_handle ks) \<longrightarrow> awaits c2 t j"
      "\<forall>r. smap_lookup (cs_message_callbacks c1) r = None \<longrightarrow> smap_lookup (cs_message_callbacks c2) r = None"
    using Cons.IH [OF inv1] Cons.prems(2-4) subs by (auto simp: tok1 succ)
  have "awaits c2 (cs_token c) k" using c2(6) aw Cons.prems(3) by simp
  then show ?case
    using c1 c2 log1 calls1 keep subs tok1 by (intro exI [of _ c2]) auto
qed simp

section \<open>The server answers, the client is called back\<close>

text \<open>The outbound channel is one that takes every message; \<open>put\<close> is what it does.\<close>

lemma served_message:
  assumes "codec_ok cd" and "int32 (cl_request k)" and "served (ss_handlers s) k"
    and "\<And>o' m. ch_message out o' m = Inr (put o' m)"
  shows "\<exists>s'. ch_message (server_channel cd out) s (request_bytes cd t k) = Inr s' \<and>
    ss_outbound s' = put (ss_outbound s) (response_bytes cd t k) \<and> ss_handlers s' = ss_handlers s \<and>
    ss_disconnect_handler s' = ss_disconnect_handler s \<and> ss_disconnect_calls s' = ss_disconnect_calls s"
proof -
  obtain h where h: "ss_handlers s (cl_request k) = Some h"
      "h (cl_payload k) = Inr [Respond (cl_response k) (cl_body k)]"
    using assms(3) by (auto simp: served_def split: option.splits)
  show ?thesis
    unfolding server_channel_def request_bytes_def channel.simps
      server_message_known [where h = h, OF assms(1,2) h]
    by (simp add: run_and_schedule_def respond_def server_send_def assms(4)
        buffer_writer_ctor_def response_bytes_def Let_def)
qed

lemma server_answers_all:
  assumes "codec_ok cd" and "\<forall>k \<in> set ks. int32 (cl_request k) \<and> served (ss_handlers s) k"
    and "\<And>o' m. ch_message out o' m = Inr (put o' m)"
  shows "\<exists>s'. deliver_all (server_channel cd out) s (numbered (request_bytes cd) t ks) = (None, s') \<and>
    ss_outbound s' = fold (\<lambda>m f. put f m) (numbered (response_bytes cd) t ks) (ss_outbound s) \<and>
    ss_disconnect_handler s' = ss_disconnect_handler s \<and> ss_disconnect_calls s' = ss_disconnect_calls s"
  using assms(2)
proof (induction ks arbitrary: s t)
  case (Cons k ks)
  then obtain s1 where s1: "ch_message (server_channel cd out) s (request_bytes cd t k) = Inr s1"
      "ss_outbound s1 = put (ss_outbound s) (response_bytes cd t k)" "ss_handlers s1 = ss_handlers s"
      "ss_disconnect_handler s1 = ss_disconnect_handler s" "ss_disconnect_calls s1 = ss_disconnect_calls s"
    using served_message [OF assms(1) _ _ assms(3), of k s t] by auto
  with Cons.IH [of s1 "t + 1"] Cons.prems show ?case by auto
qed simp

lemma pipe_channel_takes: "ch_message (pipe_channel e) o' m = Inr (pipe_channel_message e o' m)"
  by (simp add: pipe_channel_def)

lemma awaits_invoke [simp]: "awaits (invoke cb d c) t k = awaits c t k"
  by (simp add: awaits_def invoke_def)

lemma awaits_all_invoke [simp]: "awaits_all (invoke cb d c) t ks = awaits_all c t ks"
  by (induction ks arbitrary: t) simp_all

lemma client_called_back:
  assumes "codec_ok cd" and "\<forall>k \<in> set ks. int32 (cl_response k) \<and>
      smap_lookup (cs_message_callbacks c) (cl_response k) = None"
    and "client_inv c" and "awaits_all c t ks"
  shows "\<exists>c'. deliver_all (client_channel cd) c (numbered (response_bytes cd) t ks) = (None, c') \<and>
    cs_calls c' = cs_calls c @ map (\<lambda>k. (cl_callback k, cl_body k)) ks"
  using assms(2-4)
proof (induction ks arbitrary: c t)
  case (Cons k ks)
  let ?c1 = "invoke (cl_callback k) (cl_body k) c"
  have "client_message cd c (response_bytes cd t k) = Inr ?c1"
    unfolding response_bytes_def using Cons.prems awaits_lookup [of c t k]
    by (intro client_message_response [OF assms(1)]) (simp_all add: client_inv_def)
  moreover have "cs_message_callbacks ?c1 = cs_message_callbacks c" "cs_calls ?c1 = cs_calls c @ [(cl_callback k, cl_body k)]"
    by (simp_all add: invoke_def)
  ultimately show ?case
    using Cons.IH [of ?c1 "t + 1"] Cons.prems invoke_inv [of c] by (auto simp: client_channel_def)
qed simp

lemma length_numbered [simp]: "length (numbered f t ks) = length ks"
  by (induction ks arbitrary: t) simp_all

lemma numbered_all: "(\<And>t k. k \<in> set ks \<Longrightarrow> P (f t k)) \<Longrightarrow> \<forall>m \<in> set (numbered f t ks). P m"
  by (induction ks arbitrary: t) auto

section \<open>Both ways through the pipes\<close>

lemma server_main_answers:
  assumes "codec_ok cd" and "\<forall>k \<in> set ks. int32 (cl_request k) \<and> served (ss_handlers s) k"
    and "\<forall>m \<in> set (numbered (request_bytes cd) t ks). length m < 2 ^ 32"
    and "create (tl argv) s0 = Inr s" and "of_buffered f = []" and "of_flushed f = []"
  shows "\<exists>s' rest. spawn_server_main e argv create (server_channel cd (pipe_channel e)) fread
      (of_flushed (fold (\<lambda>m f. spawn_client_message e f m) (numbered (request_bytes cd) t ks) f)) s0 =
      Some (None, rest, s') \<and>
    ss_outbound s' = fold (\<lambda>m f. pipe_channel_message e f m) (numbered (response_bytes cd) t ks) (ss_outbound s)"
proof -
  let ?ms = "numbered (request_bytes cd) t ks"
  obtain s1 where s1: "deliver_all (server_channel cd (pipe_channel e)) s ?ms = (None, s1)"
      "ss_outbound s1 = fold (\<lambda>m f. pipe_channel_message e f m) (numbered (response_bytes cd) t ks) (ss_outbound s)"
    using server_answers_all [OF assms(1,2) pipe_channel_takes] by blast
  have "id (of_flushed (fold (\<lambda>m f. spawn_client_message e f m) ?ms f)) = concat (map (frame e False) ?ms)"
    using pipe_in.sends_frames [OF assms(5,3)] assms(6) by simp
  from spawn_server_main_frames [OF file_source.byte_source_axioms this assms(3), where
      create_session = create and argv = argv and ch = "server_channel cd (pipe_channel e)", OF assms(4)]
  obtain rest where "spawn_server_main e argv create (server_channel cd (pipe_channel e)) fread
      (of_flushed (fold (\<lambda>m f. spawn_client_message e f m) ?ms f)) s0 =
      Some (None, rest, server_disconnect s1)"
    using s1(1) by (auto simp: server_channel_def)
  moreover have "ss_outbound (server_disconnect s1) = ss_outbound s1" by (simp add: server_disconnect_def)
  ultimately show ?thesis using s1(2) by simp
qed

lemma client_thread_calls_back:
  assumes "codec_ok cd" and "\<forall>k \<in> set ks. int32 (cl_response k) \<and>
      smap_lookup (cs_message_callbacks c) (cl_response k) = None"
    and "client_inv c" and "awaits_all c t ks"
    and "\<forall>m \<in> set (numbered (response_bytes cd) t ks). length m < 2 ^ 32"
    and "of_buffered f = []" and "of_flushed f = []"
  shows "\<exists>c' rest. spawn_client_thread e outbound (client_channel cd) fread
      (of_flushed (fold (\<lambda>m f. pipe_channel_message e f m) (numbered (response_bytes cd) t ks) f)) c =
      Some (None, rest, c') \<and> cs_calls c' = cs_calls c @ map (\<lambda>k. (cl_callback k, cl_body k)) ks"
proof -
  let ?ms = "numbered (response_bytes cd) t ks"
  obtain c1 where c1: "deliver_all (client_channel cd) c ?ms = (None, c1)"
      "cs_calls c1 = cs_calls c @ map (\<lambda>k. (cl_callback k, cl_body k)) ks"
    using client_called_back [OF assms(1-4)] by blast
  have "id (of_flushed (fold (\<lambda>m f. pipe_channel_message e f m) ?ms f)) = concat (map (frame e False) ?ms)"
    using pipe_out.sends_frames [OF assms(6,5)] assms(7) by simp
  from spawn_client_thread_frames [OF file_source.byte_source_axioms this assms(5), where
      ch = "client_channel cd" and c = c and outbound = outbound] c1
  show ?thesis by (auto simp: client_channel_def client_disconnect_def)
qed

section \<open>One call, over any transport\<close>

text \<open>
  A request of the client, as it goes out, is understood by the server's session; the response of
  the handler, as it goes out, reaches the callback of that request, with the payload given.
\<close>

lemma remote_call:
  assumes "client_inv c" and "cs_token c \<noteq> - 1" and "codec_ok cd" and "int32 i" and "int32 r"
    and "smap_lookup (cs_message_callbacks c) r = None"
    and "ss_handlers s i = Some h" and "h payload = Inr [Respond r body]"
  shows "\<exists>c2 m s2 m'. request cd log_outbound hnd i payload r cb c = Inr c2 \<and>
    cs_outbound_log c2 = cs_outbound_log c @ [Message m] \<and>
    server_message cd recorder s m = (None, s2) \<and> ss_outbound s2 = ss_outbound s @ [Message m'] \<and>
    client_message cd c2 m' = Inr (invoke cb body c2)"
proof -
  let ?m = "enc_id cd i @ enc_token cd (cs_token c) @ payload"
  let ?m' = "enc_id cd r @ enc_token cd (cs_token c) @ body"
  obtain d where d: "request cd log_outbound hnd i payload r cb c =
        lift_exn (ch_message log_outbound d ?m)"
      "client_inv d" "smap_lookup (cs_callbacks d) (Cb_key r (cs_token c)) = Some cb"
      "cs_message_callbacks d = cs_message_callbacks (drop_owned (cs_handles c hnd) c)"
      "cs_outbound_log d = cs_outbound_log c"
    using request_ok [OF assms(1,2), of cd log_outbound hnd i payload r cb] by auto
  let ?c2 = "d\<lparr>cs_outbound_log := cs_outbound_log d @ [Message ?m]\<rparr>"
  have "request cd log_outbound hnd i payload r cb c = Inr ?c2"
    using d(1) by (simp add: log_outbound_def lift_exn_def)
  moreover have "client_message cd ?c2 ?m' = Inr (invoke cb body ?c2)"
    using d(2-4) assms(6)
    by (intro client_message_response [OF assms(3,5)]) (simp_all add: client_inv_def maps_ok_def drop_owned_None)
  moreover obtain s2 where "server_message cd recorder s ?m = (None, s2)"
      "ss_outbound s2 = ss_outbound s @ [Message ?m']"
    using run_and_schedule_recorder [of "[Respond r body]"
        "response_ctor (cs_token c) (ss_apartment_queue s \<noteq> None)" cd s]
    by (auto simp: server_message_known [OF assms(3,4,7,8)] response_ctor_def)
  moreover have "cs_outbound_log ?c2 = cs_outbound_log c @ [Message ?m]" by (simp add: d(5))
  ultimately show ?thesis by blast
qed

end
