(* ===== verification/Socket_Runs.thy ===== *)
theory Socket_Runs
  imports Socket_Server
begin

text \<open>
  What holds in every run of the socket server: ids are unique, every session is created once,
  spoken to while it lives and released once, and the handlers are either all those of the time
  before the auxiliary connection or none of them.
\<close>

section \<open>The life of a session\<close>

datatype phase = Absent | Live | Dropped | Gone

fun phase_step :: "u32 \<Rightarrow> session_event \<Rightarrow> phase option \<Rightarrow> phase option" where
  "phase_step i (Created j) p =
     (if i = j then (if p = Some Absent then Some Live else None) else p)"
| "phase_step i (Got j m) p = (if i = j \<and> p \<noteq> Some Live then None else p)"
| "phase_step i (Disconnected j) p =
     (if i = j then (if p = Some Live then Some Dropped else None) else p)"
| "phase_step i (Released j) p =
     (if i = j then (if p = Some Live \<or> p = Some Dropped then Some Gone else None) else p)"

text \<open>\<open>None\<close> is a sequence of events that no session may see.\<close>

definition session_phase :: "u32 \<Rightarrow> session_event list \<Rightarrow> phase option" where
  "session_phase i tr = fold (phase_step i) tr (Some Absent)"

lemma session_phase_Nil [simp]: "session_phase i [] = Some Absent"
  by (simp add: session_phase_def)

lemma session_phase_snoc [simp]: "session_phase i (tr @ [ev]) = phase_step i ev (session_phase i tr)"
  by (simp add: session_phase_def)

fun handler_phase :: "handler_fn \<Rightarrow> phase" where
  "handler_phase (Handle_session i) = Live"
| "handler_phase _ = Absent"

text \<open>The handlers, the next id and the trace fit together.\<close>

definition kinds :: "socket_handler list \<Rightarrow> u32 \<Rightarrow> handler_fn option" where
  "kinds hs = map_of (map (\<lambda>h. (sh_id h, sh_handler h)) hs)"

fun fits :: "handler_fn option \<Rightarrow> phase option \<Rightarrow> bool" where
  "fits None p \<longleftrightarrow> p = Some Absent \<or> p = Some Gone"
| "fits (Some f) p \<longleftrightarrow> p = Some (handler_phase f)"

definition ids_ok :: "socket_handler list \<Rightarrow> u32 \<Rightarrow> bool" where
  "ids_ok hs n \<longleftrightarrow> distinct (map sh_id hs) \<and> 100 \<le> n \<and>
     (\<forall>h \<in> set hs. 100 \<le> sh_id h \<and> sh_id h < n \<and>
       (\<forall>i. sh_handler h = Handle_session i \<longrightarrow> i = sh_id h))"

definition handlers_fit :: "socket_handler list \<Rightarrow> u32 \<Rightarrow> session_event list \<Rightarrow> bool" where
  "handlers_fit hs n tr \<longleftrightarrow> ids_ok hs n \<and>
     (\<forall>i. fits (kinds hs i) (session_phase i tr)) \<and>
     (\<forall>i. n \<le> i \<longrightarrow> session_phase i tr = Some Absent)"

lemma id_succ: "n \<noteq> - 1 \<Longrightarrow> i < n + 1 \<longleftrightarrow> i < n \<or> i = (n :: u32)"
  by (simp add: word_less_nat_alt unat_succ less_Suc_eq word_unat_eq_iff)

lemma id_succ_le: "n \<noteq> - 1 \<Longrightarrow> n + 1 \<le> i \<longleftrightarrow> n < (i :: u32)"
  by (simp add: word_less_nat_alt word_le_nat_alt unat_succ Suc_le_eq)

lemma id_succ_ge: "n \<noteq> - 1 \<Longrightarrow> i \<le> n \<Longrightarrow> i \<le> n + (1 :: u32)"
  by (simp add: word_le_nat_alt unat_succ)

lemma kinds_split:
  "(\<forall>g \<in> set (xs @ ys). sh_id g \<noteq> sh_id h) \<Longrightarrow>
   kinds (xs @ h # ys) = (kinds (xs @ ys))(sh_id h \<mapsto> sh_handler h)"
  by (induction xs) (auto simp: kinds_def)

lemma kinds_append:
  "(\<forall>g \<in> set hs. sh_id g \<noteq> sh_id h) \<Longrightarrow> kinds (hs @ [h]) = (kinds hs)(sh_id h \<mapsto> sh_handler h)"
  using kinds_split [of hs "[]" h] by simp

lemma kinds_None: "(\<forall>g \<in> set hs. sh_id g \<noteq> i) \<Longrightarrow> kinds hs i = None"
  by (induction hs) (auto simp: kinds_def)

lemma ids_ok_split:
  "ids_ok (xs @ h # ys) n \<longleftrightarrow> ids_ok (xs @ ys) n \<and> (\<forall>g \<in> set (xs @ ys). sh_id g \<noteq> sh_id h) \<and>
     100 \<le> sh_id h \<and> sh_id h < n \<and> (\<forall>i. sh_handler h = Handle_session i \<longrightarrow> i = sh_id h)"
proof -
  have "sh_id h \<notin> sh_id ` set zs \<longleftrightarrow> (\<forall>g \<in> set zs. sh_id g \<noteq> sh_id h)" for zs
    by (metis imageE imageI)
  then show ?thesis unfolding ids_ok_def by auto
qed

lemma ids_ok_append:
  assumes "ids_ok hs n" and "n \<noteq> - 1" and "sh_id h = n"
    and "\<forall>i. sh_handler h = Handle_session i \<longrightarrow> i = n"
  shows "ids_ok (hs @ [h]) (n + 1)" and "\<forall>g \<in> set hs. sh_id g \<noteq> n"
  using assms by (auto simp: ids_ok_def id_succ id_succ_ge)

lemma ids_ok_skip: "ids_ok hs n \<Longrightarrow> n \<noteq> - 1 \<Longrightarrow> ids_ok hs (n + 1)"
  by (simp add: ids_ok_def id_succ id_succ_ge)

lemma handlers_fit_skip_id:
  "handlers_fit hs n tr \<Longrightarrow> n \<noteq> - 1 \<Longrightarrow> handlers_fit hs (n + 1) tr"
  by (simp add: handlers_fit_def ids_ok_skip id_succ_le)

lemma handlers_fit_append:
  assumes "handlers_fit hs n tr" and "n \<noteq> - 1" and "sh_id h = n" and "handler_phase (sh_handler h) = Absent"
  shows "handlers_fit (hs @ [h]) (n + 1) tr"
proof -
  have "\<forall>i. sh_handler h = Handle_session i \<longrightarrow> i = n" using assms(4) by auto
  moreover have "ids_ok hs n" using assms(1) by (simp add: handlers_fit_def)
  ultimately have ids: "ids_ok (hs @ [h]) (n + 1)" "\<forall>g \<in> set hs. sh_id g \<noteq> n"
    using ids_ok_append [OF _ assms(2,3)] by blast+
  show ?thesis
    using assms ids kinds_append [of hs h] by (simp add: handlers_fit_def id_succ_le)
qed

lemma handlers_fit_append_session:
  assumes "handlers_fit hs n tr" and "n \<noteq> - 1" and "sh_id h = n" and "sh_handler h = Handle_session n"
  shows "handlers_fit (hs @ [h]) (n + 1) (tr @ [Created n])"
proof -
  have "\<forall>i. sh_handler h = Handle_session i \<longrightarrow> i = n" using assms(4) by auto
  moreover have "ids_ok hs n" using assms(1) by (simp add: handlers_fit_def)
  ultimately have ids: "ids_ok (hs @ [h]) (n + 1)" "\<forall>g \<in> set hs. sh_id g \<noteq> n"
    using ids_ok_append [OF _ assms(2,3)] by blast+
  show ?thesis
    using assms ids kinds_append [of hs h] by (simp add: handlers_fit_def id_succ_le)
qed

text \<open>What changes at one handler is seen at its id only.\<close>

lemma handlers_fit_at:
  "handlers_fit (xs @ h # ys) n tr \<longleftrightarrow> ids_ok (xs @ h # ys) n \<and>
     session_phase (sh_id h) tr = Some (handler_phase (sh_handler h)) \<and>
     (\<forall>i. i \<noteq> sh_id h \<longrightarrow> fits (kinds (xs @ ys) i) (session_phase i tr)) \<and>
     (\<forall>i. n \<le> i \<longrightarrow> session_phase i tr = Some Absent)"
proof -
  have upd: "(\<forall>i. fits ((m(a \<mapsto> f)) i) (P i)) \<longleftrightarrow>
      P a = Some (handler_phase f) \<and> (\<forall>i. i \<noteq> a \<longrightarrow> fits (m i) (P i))" for m a f P
    by (auto split: if_splits)
  show ?thesis
  proof (cases "ids_ok (xs @ h # ys) n")
    case True
    then have "kinds (xs @ h # ys) = (kinds (xs @ ys))(sh_id h \<mapsto> sh_handler h)"
      by (intro kinds_split) (simp add: ids_ok_split)
    then show ?thesis by (simp only: handlers_fit_def upd conj_assoc)
  qed (simp add: handlers_fit_def)
qed

lemma handlers_fit_without:
  assumes "ids_ok (xs @ h # ys) n" and "session_phase (sh_id h) tr \<in> {Some Absent, Some Gone}"
    and "\<forall>i. i \<noteq> sh_id h \<longrightarrow> fits (kinds (xs @ ys) i) (session_phase i tr)"
    and "\<forall>i. n \<le> i \<longrightarrow> session_phase i tr = Some Absent"
  shows "handlers_fit (xs @ ys) n tr"
proof -
  have "kinds (xs @ ys) (sh_id h) = None"
    using assms(1) by (intro kinds_None) (simp add: ids_ok_split)
  then have "fits (kinds (xs @ ys) i) (session_phase i tr)" for i
    using assms(2,3) by (cases "i = sh_id h") auto
  with assms show ?thesis by (simp add: handlers_fit_def ids_ok_split)
qed

lemma handlers_fit_set:
  assumes "handlers_fit (xs @ h # ys) n tr" and "sh_id h' = sh_id h"
    and "handler_phase (sh_handler h) = Absent" and "handler_phase (sh_handler h') = Absent"
  shows "handlers_fit (xs @ h' # ys) n tr"
proof -
  have "sh_handler h' \<noteq> Handle_session i" for i using assms(4) by auto
  with assms show ?thesis by (simp add: handlers_fit_at ids_ok_split)
qed

lemma handlers_fit_set_session:
  assumes "handlers_fit (xs @ h # ys) n tr" and "sh_id h' = sh_id h"
    and "handler_phase (sh_handler h) = Absent" and "sh_handler h' = Handle_session (sh_id h)"
  shows "handlers_fit (xs @ h' # ys) n (tr @ [Created (sh_id h)])"
  using assms by (auto simp: handlers_fit_at ids_ok_split)

lemma handlers_fit_got:
  assumes "handlers_fit (xs @ h # ys) n tr" and "sh_handler h = Handle_session i"
  shows "handlers_fit (xs @ h # ys) n (tr @ [Got i m])"
  using assms by (auto simp: handlers_fit_at ids_ok_split)

lemma handlers_fit_erase:
  assumes "handlers_fit (xs @ h # ys) n tr" and "handler_phase (sh_handler h) = Absent"
  shows "handlers_fit (xs @ ys) n tr"
  using assms by (intro handlers_fit_without [of xs h ys]) (simp_all add: handlers_fit_at)

lemma handlers_fit_erase_session:
  assumes "handlers_fit (xs @ h # ys) n tr" and "sh_handler h = Handle_session i"
  shows "handlers_fit (xs @ ys) n (tr @ [Released i])"
    and "handlers_fit (xs @ ys) n ((tr @ [Disconnected i]) @ [Released i])"
proof -
  have i: "i = sh_id h" "i < n" using assms by (auto simp: handlers_fit_at ids_ok_split)
  then have big: "j \<noteq> i" if "n \<le> j" for j using that by auto
  show "handlers_fit (xs @ ys) n (tr @ [Released i])"
    and "handlers_fit (xs @ ys) n ((tr @ [Disconnected i]) @ [Released i])"
    using assms i big
    by (auto intro!: handlers_fit_without [of xs h ys] simp: handlers_fit_at simp del: append_assoc)
qed


text \<open>The same at a position of the list.\<close>

lemma fit_update:
  assumes "handlers_fit hs n tr" and "k < length hs"
    and "handler_phase (sh_handler (hs ! k)) = Absent" and "handler_phase f = Absent"
  shows "handlers_fit (hs[k := (hs ! k)\<lparr>sh_handler := f\<rparr>]) n tr"
  using assms handlers_fit_set [of "take k hs" "hs ! k" "drop (Suc k) hs" n tr "(hs ! k)\<lparr>sh_handler := f\<rparr>"]
  by (simp add: upd_conv_take_nth_drop flip: id_take_nth_drop)

lemma fit_update_session:
  assumes "handlers_fit hs n tr" and "k < length hs" and "handler_phase (sh_handler (hs ! k)) = Absent"
  shows "handlers_fit (hs[k := (hs ! k)\<lparr>sh_handler := Handle_session (sh_id (hs ! k))\<rparr>]) n
    (tr @ [Created (sh_id (hs ! k))])"
  using assms handlers_fit_set_session [of "take k hs" "hs ! k" "drop (Suc k) hs" n tr
      "(hs ! k)\<lparr>sh_handler := Handle_session (sh_id (hs ! k))\<rparr>"]
  by (simp add: upd_conv_take_nth_drop flip: id_take_nth_drop)

lemma fit_got:
  assumes "handlers_fit hs n tr" and "k < length hs" and "sh_handler (hs ! k) = Handle_session i"
  shows "handlers_fit hs n (tr @ [Got i m])"
  using handlers_fit_got [of "take k hs" "hs ! k" "drop (Suc k) hs" n tr i m] assms
  by (simp flip: id_take_nth_drop)

definition dtor_events :: "handler_fn \<Rightarrow> session_event list" where
  "dtor_events f = (case f of Handle_session i \<Rightarrow> [Released i] | _ \<Rightarrow> [])"

lemma fit_erase:
  assumes "handlers_fit hs n tr" and "k < length hs"
  shows "handlers_fit (take k hs @ drop (Suc k) hs) n (tr @ dtor_events (sh_handler (hs ! k)))"
  using assms handlers_fit_erase [of "take k hs" "hs ! k" "drop (Suc k) hs" n tr]
    handlers_fit_erase_session(1) [of "take k hs" "hs ! k" "drop (Suc k) hs" n tr]
  by (cases "sh_handler (hs ! k)") (simp_all add: dtor_events_def flip: id_take_nth_drop)

lemma fit_erase_disconnected:
  assumes "handlers_fit hs n tr" and "k < length hs" and "sh_handler (hs ! k) = Handle_session i"
  shows "handlers_fit (take k hs @ drop (Suc k) hs) n ((tr @ [Disconnected i]) @ [Released i])"
  using assms handlers_fit_erase_session(2) [of "take k hs" "hs ! k" "drop (Suc k) hs" n tr]
  by (simp flip: id_take_nth_drop)

section \<open>The operations\<close>

lemma trace_simps [simp]:
  "sv_handlers (trace ev s) = sv_handlers s" "sv_next_id (trace ev s) = sv_next_id s"
  "sv_pc (trace ev s) = sv_pc s" "sv_trace (trace ev s) = sv_trace s @ [ev]"
  "sv_buffer (trace ev s) = sv_buffer s" "sv_aux_socket (trace ev s) = sv_aux_socket s"
  "sv_world (trace ev s) = sv_world s"
  by (simp_all add: trace_def)

lemma erase_handler_simps [simp]:
  "sv_handlers (erase_handler E k s) = take k (sv_handlers s) @ drop (Suc k) (sv_handlers s)"
  "sv_next_id (erase_handler E k s) = sv_next_id s"
  "sv_pc (erase_handler E k s) = sv_pc s"
  "sv_trace (erase_handler E k s) = sv_trace s @ dtor_events (sh_handler (sv_handlers s ! k))"
  "sv_aux_socket (erase_handler E k s) = sv_aux_socket s"
  by (simp_all add: erase_handler_def socket_handler_dtor_def release_handler_def dtor_events_def
      Let_def split: handler_fn.split)

lemma accept_connection_frame:
  "accept_connection E fd s = (r, s1) \<Longrightarrow> \<exists>w. s1 = s\<lparr>sv_world := w\<rparr>"
  by (auto simp: accept_connection_def split: prod.splits sum.splits option.splits)

fun preinit_fn :: "handler_fn \<Rightarrow> bool" where
  "preinit_fn Accept_preinit = True"
| "preinit_fn Handle_preinit = True"
| "preinit_fn _ = False"

text \<open>Before the auxiliary connection: the acceptor first, the connections behind it.\<close>

definition preinit_kinds :: "socket_handler list \<Rightarrow> bool" where
  "preinit_kinds hs \<longleftrightarrow> hs \<noteq> [] \<and> sh_handler (hs ! 0) = Accept_preinit \<and>
     (\<forall>j. 0 < j \<longrightarrow> j < length hs \<longrightarrow> sh_handler (hs ! j) = Handle_preinit)"

definition regular_kinds :: "socket_handler list \<Rightarrow> bool" where
  "regular_kinds hs \<longleftrightarrow> (\<forall>h \<in> set hs. \<not> preinit_fn (sh_handler h))"

definition server_inv :: "'w server \<Rightarrow> bool" where
  [inv_defs]: "server_inv s \<longleftrightarrow> handlers_fit (sv_handlers s) (sv_next_id s) (sv_trace s) \<and>
     (sv_pc s \<noteq> Ended \<longrightarrow> preinit_kinds (sv_handlers s) \<or> regular_kinds (sv_handlers s))"

lemma preinit_not_regular: "preinit_kinds hs \<Longrightarrow> \<not> regular_kinds hs"
  by (cases hs) (auto simp: preinit_kinds_def regular_kinds_def)

lemma preinit_kinds_append:
  "preinit_kinds hs \<Longrightarrow> sh_handler h = Handle_preinit \<Longrightarrow> preinit_kinds (hs @ [h])"
  by (auto simp: preinit_kinds_def nth_append less_Suc_eq)

lemma regular_kinds_append: "regular_kinds hs \<Longrightarrow> \<not> preinit_fn (sh_handler h) \<Longrightarrow> regular_kinds (hs @ [h])"
  by (auto simp: regular_kinds_def)

lemma regular_kinds_erase: "regular_kinds hs \<Longrightarrow> regular_kinds (take k hs @ drop (Suc k) hs)"
  by (auto simp: regular_kinds_def dest: in_set_takeD in_set_dropD)

lemma regular_kinds_nth: "regular_kinds hs \<Longrightarrow> k < length hs \<Longrightarrow> \<not> preinit_fn (sh_handler (hs ! k))"
  by (simp add: regular_kinds_def)

lemma preinit_kinds_nth: "preinit_kinds hs \<Longrightarrow> k < length hs \<Longrightarrow> preinit_fn (sh_handler (hs ! k))"
  by (cases "k = 0") (simp_all add: preinit_kinds_def)

lemma preinit_absent: "preinit_fn f \<Longrightarrow> handler_phase f = Absent"
  by (cases f) simp_all

text \<open>What the loop over the handlers leaves, whether it gets to the end or not.\<close>

lemma assign_handlers_fit:
  assumes "assign_handlers E self i n s = (x, s')" and "i + n = length (sv_handlers s)"
    and "handlers_fit (sv_handlers s) (sv_next_id s) (sv_trace s)"
    and "\<forall>j. i \<le> j \<longrightarrow> j < length (sv_handlers s) \<longrightarrow> handler_phase (sh_handler (sv_handlers s ! j)) = Absent"
    and "\<forall>j < i. \<not> preinit_fn (sh_handler (sv_handlers s ! j))"
  shows "handlers_fit (sv_handlers s') (sv_next_id s') (sv_trace s') \<and> sv_pc s' = sv_pc s \<and>
    (x = None \<longrightarrow> regular_kinds (sv_handlers s'))"
  using assms
proof (induction E self i n s rule: assign_handlers.induct)
  case (1 E self i s)
  then show ?case by (auto simp: regular_kinds_def in_set_conv_nth)
next
  case (2 E self i n s)
  let ?h = "sv_handlers s ! i"
  let ?set = "\<lambda>f s. s\<lparr>sv_handlers := (sv_handlers s)[i := ?h\<lparr>sh_handler := f\<rparr>]\<rparr>"
  have i: "i < length (sv_handlers s)" and absent: "handler_phase (sh_handler ?h) = Absent"
    using "2.prems" by simp_all
  note fit = fit_update [OF "2.prems"(3) i absent]
  consider "i = 0" | "i \<noteq> 0" "i = self" | "i \<noteq> 0" "i \<noteq> self" by blast
  then show ?case
  proof cases
    case 1
    then have "assign_handlers E self (Suc i) n (?set Accept_regular s) = (x, s')"
      using "2.prems"(1) by simp
    from "2.IH"(1) [OF refl refl 1 this] "2.prems" fit show ?thesis
      by (simp add: nth_list_update)
  next
    case 2
    then have "assign_handlers E self (Suc i) n (?set Handle_aux s) = (x, s')"
      using "2.prems"(1) by simp
    from "2.IH"(2) [OF refl refl 2 this] "2.prems" fit show ?thesis
      by (simp add: nth_list_update less_Suc_eq)
  next
    case 3
    show ?thesis
    proof (cases "env_create_session E (sv_world s) (sh_id ?h)")
      case (Inl y)
      then show ?thesis using 3 "2.prems" by auto
    next
      case (Inr w)
      let ?s1 = "trace (Created (sh_id ?h)) (?set (Handle_session (sh_id ?h)) (s\<lparr>sv_world := w\<rparr>))"
      have "assign_handlers E self (Suc i) n ?s1 = (x, s')"
        using "2.prems"(1) 3 Inr by (simp add: Let_def)
      from "2.IH"(3) [OF refl refl 3 Inr this] "2.prems"
        fit_update_session [OF "2.prems"(3) i absent] show ?thesis
        by (simp add: nth_list_update less_Suc_eq)
    qed
  qed
qed


definition turn_ok :: "nat \<Rightarrow> 'w server \<Rightarrow> (exn + status) \<times> 'w server \<Rightarrow> bool" where
  "turn_ok k s r \<longleftrightarrow>
     (case r of
        (Inr Proceed, s1) \<Rightarrow> server_inv s1
      | (Inr Remove_this, s1) \<Rightarrow> sv_handlers s1 = sv_handlers s \<and> sv_next_id s1 = sv_next_id s \<and>
          sv_pc s1 = sv_pc s \<and>
          (\<exists>i. sh_handler (sv_handlers s ! k) = Handle_session i \<and>
            sv_trace s1 = sv_trace s @ [Disconnected i])
      | (_, s1) \<Rightarrow> handlers_fit (sv_handlers s1) (sv_next_id s1) (sv_trace s1))"

lemma accept_preinit_ok:
  assumes "server_inv s" and "sv_next_id s \<noteq> - 1" and "preinit_kinds (sv_handlers s)"
  shows "turn_ok k s (accept_preinit E fd s)"
proof -
  obtain r s1 where acc: "accept_connection E fd s = (r, s1)" by (cases "accept_connection E fd s")
  then obtain w where s1: "s1 = s\<lparr>sv_world := w\<rparr>" using accept_connection_frame by blast
  show ?thesis
  proof (cases r)
    case (Inl x)
    then show ?thesis using assms acc s1 by (simp add: accept_preinit_def turn_ok_def server_inv_def)
  next
    case (Inr c)
    let ?h = "\<lparr>sh_id = sv_next_id s, sh_handler = Handle_preinit, sh_socket = c\<rparr>"
    have "handlers_fit (sv_handlers s @ [?h]) (sv_next_id s + 1) (sv_trace s)"
      using assms by (intro handlers_fit_append) (simp_all add: server_inv_def)
    moreover have "preinit_kinds (sv_handlers s @ [?h])"
      using assms(3) by (rule preinit_kinds_append) simp
    ultimately show ?thesis
      using acc s1 Inr by (simp add: accept_preinit_def turn_ok_def server_inv_def)
  qed
qed

lemma accept_regular_ok:
  assumes "server_inv s" and "sv_next_id s \<noteq> - 1" and "regular_kinds (sv_handlers s)"
  shows "turn_ok k s (accept_regular E fd s)"
proof -
  obtain r s1 where acc: "accept_connection E fd s = (r, s1)" by (cases "accept_connection E fd s")
  then obtain w where s1: "s1 = s\<lparr>sv_world := w\<rparr>" using accept_connection_frame by blast
  have fit: "handlers_fit (sv_handlers s) (sv_next_id s) (sv_trace s)"
    using assms(1) by (simp add: server_inv_def)
  show ?thesis
  proof (cases r)
    case (Inl x)
    then show ?thesis using fit acc s1 by (simp add: accept_regular_def turn_ok_def)
  next
    case (Inr c)
    let ?n = "sv_next_id s"
    let ?h = "\<lparr>sh_id = ?n, sh_handler = Handle_session ?n, sh_socket = c\<rparr>"
    have "handlers_fit (sv_handlers s @ [?h]) (?n + 1) (sv_trace s @ [Created ?n])"
      using fit assms(2) by (rule handlers_fit_append_session) simp_all
    moreover have "handlers_fit (sv_handlers s) (?n + 1) (sv_trace s)"
      using fit assms(2) by (rule handlers_fit_skip_id)
    moreover have "regular_kinds (sv_handlers s @ [?h])"
      using assms(3) by (rule regular_kinds_append) simp
    ultimately show ?thesis
      using acc s1 Inr
      by (simp add: accept_regular_def turn_ok_def server_inv_def Let_def split: sum.split)
  qed
qed

lemma handle_preinit_ok:
  assumes "server_inv s" and "preinit_kinds (sv_handlers s)"
  shows "turn_ok k s (handle_preinit e E self fd s)"
proof -
  obtain r magic w1 where peek: "recv_scalar e E (sv_world s) fd Msg_peek = (r, magic, w1)"
    using prod_cases3 by blast
  obtain r' m' w2 where recv: "recv_scalar e E w1 fd Msg_waitall = (r', m', w2)"
    using prod_cases3 by blast
  let ?s = "s\<lparr>sv_world := w2\<rparr>"
  obtain x s1 where assign: "assign_handlers E self 0 (length (sv_handlers s)) ?s = (x, s1)"
    by (cases "assign_handlers E self 0 (length (sv_handlers s)) ?s")
  have "\<forall>j. j < length (sv_handlers s) \<longrightarrow> handler_phase (sh_handler (sv_handlers s ! j)) = Absent"
    using preinit_kinds_nth [OF assms(2)] preinit_absent by blast
  then have "handlers_fit (sv_handlers s1) (sv_next_id s1) (sv_trace s1) \<and>
      (x = None \<longrightarrow> regular_kinds (sv_handlers s1))"
    using assign_handlers_fit [OF assign] assms(1) by (simp add: server_inv_def)
  then show ?thesis
    using assms peek recv assign
    by (cases x) (simp_all add: handle_preinit_def turn_ok_def server_inv_def)
qed

lemma handle_session_ok:
  assumes "server_inv s" and "k < length (sv_handlers s)"
    and "sh_handler (sv_handlers s ! k) = Handle_session i"
  shows "turn_ok k s (handle_session e E fd i s)"
proof -
  obtain r sz w1 where recv: "recv_scalar e E (sv_world s) fd Msg_waitall = (r, sz, w1)"
    using prod_cases3 by blast
  obtain n data w2 where payload: "env_recv E w1 fd (unat sz) Msg_waitall = ((n, data), w2)"
    by (metis prod.collapse)
  have "handlers_fit (sv_handlers s) (sv_next_id s) (sv_trace s @ [Got i m])" for m
    using assms by (intro fit_got) (simp_all add: server_inv_def)
  then show ?thesis
    using assms recv payload
    by (simp add: handle_session_def turn_ok_def server_inv_def Let_def split: sum.split)
qed

lemma find_handler_Some: "find_handler i hs = Some k \<Longrightarrow> k < length hs \<and> sh_id (hs ! k) = i"
  by (induction i hs arbitrary: k rule: find_handler.induct) (auto split: if_splits)

lemma find_handler_None: "find_handler i hs = None \<longleftrightarrow> (\<forall>h \<in> set hs. sh_id h \<noteq> i)"
  by (induction i hs rule: find_handler.induct) auto

lemma handle_aux_ok:
  assumes "server_inv s" and "regular_kinds (sv_handlers s)"
  shows "turn_ok k s (handle_aux e E fd s)"
proof -
  obtain r i w1 where recv: "recv_scalar e E (sv_world s) fd Msg_waitall = (r, i, w1)"
    using prod_cases3 by blast
  have fit: "handlers_fit (sv_handlers s) (sv_next_id s) (sv_trace s)"
    using assms(1) by (simp add: server_inv_def)
  show ?thesis
  proof (cases "find_handler i (sv_handlers s)")
    case None
    then show ?thesis using recv fit by (simp add: handle_aux_def turn_ok_def Let_def)
  next
    case (Some j)
    with fit_erase [OF fit, of j] find_handler_Some [OF Some] regular_kinds_erase [OF assms(2), of j]
      fit recv show ?thesis
      by (simp add: handle_aux_def turn_ok_def server_inv_def Let_def)
  qed
qed

lemma run_handler_ok:
  assumes inv: "server_inv s" and "sv_next_id s \<noteq> - 1" and pc: "sv_pc s = Visiting fds k"
    and k: "k < length (sv_handlers s)"
  shows "turn_ok k s (run_handler e E k s)"
proof -
  have phase: "preinit_kinds (sv_handlers s) \<or> regular_kinds (sv_handlers s)"
    using inv pc by (simp add: server_inv_def)
  show ?thesis
  proof (cases "preinit_fn (sh_handler (sv_handlers s ! k))")
    case True
    then have "preinit_kinds (sv_handlers s)" using phase regular_kinds_nth [OF _ k] by blast
    with True assms show ?thesis
      by (cases "sh_handler (sv_handlers s ! k)")
        (simp_all add: run_handler_def accept_preinit_ok handle_preinit_ok)
  next
    case False
    then have "regular_kinds (sv_handlers s)" using phase preinit_kinds_nth [OF _ k] by blast
    with False assms show ?thesis
      by (cases "sh_handler (sv_handlers s ! k)")
        (simp_all add: run_handler_def accept_regular_ok handle_session_ok handle_aux_ok)
  qed
qed

lemma server_turn_inv:
  assumes inv: "server_inv s" and next_id: "sv_next_id s \<noteq> - 1"
  shows "server_inv (server_turn e E s)"
proof (cases "sv_pc s")
  case Selecting
  obtain r ready w1 where "env_select E (sv_world s) (map sh_socket (sv_handlers s)) = ((r, ready), w1)"
    by (metis prod.collapse)
  with Selecting inv show ?thesis by (simp add: server_turn_def server_inv_def)
next
  case (Visiting fds k)
  show ?thesis
  proof (cases "k < length (sv_handlers s) \<and> sh_socket (sv_handlers s ! k) \<in> set fds")
    case False
    with Visiting inv show ?thesis by (auto simp: server_turn_def server_inv_def)
  next
    case True
    then have k: "k < length (sv_handlers s)" by simp
    obtain r s1 where run: "run_handler e E k s = (r, s1)" by (cases "run_handler e E k s")
    with run_handler_ok [OF inv next_id Visiting k, of e E] have ok: "turn_ok k s (r, s1)" by simp
    have turn: "server_turn e E s = (case (r, s1) of
          (Inl x, s1) \<Rightarrow> s1\<lparr>sv_pc := Ended\<rparr>
        | (Inr Proceed, s1) \<Rightarrow> s1\<lparr>sv_pc := advance (sv_pc s1)\<rparr>
        | (Inr Remove_this, s1) \<Rightarrow> erase_handler E k s1
        | (Inr Exit, s1) \<Rightarrow> s1\<lparr>sv_pc := Ended\<rparr>)"
      using True Visiting run by (simp add: server_turn_def)
    show ?thesis
    proof (cases r)
      case (Inl x)
      with ok turn show ?thesis by (simp add: turn_ok_def server_inv_def)
    next
      case (Inr st)
      show ?thesis
      proof (cases st)
        case Proceed
        with Inr ok turn show ?thesis
          by (cases "sv_pc s1") (simp_all add: turn_ok_def server_inv_def)
      next
        case Exit
        with Inr ok turn show ?thesis by (simp add: turn_ok_def server_inv_def)
      next
        case Remove_this
        with Inr ok obtain i where s1: "sv_handlers s1 = sv_handlers s" "sv_next_id s1 = sv_next_id s"
            "sv_pc s1 = sv_pc s" "sh_handler (sv_handlers s ! k) = Handle_session i"
            "sv_trace s1 = sv_trace s @ [Disconnected i]"
          by (auto simp: turn_ok_def)
        then have "\<not> preinit_fn (sh_handler (sv_handlers s ! k))" by simp
        then have "regular_kinds (sv_handlers s)"
          using inv Visiting preinit_kinds_nth [OF _ k] by (auto simp: server_inv_def)
        moreover have "handlers_fit (take k (sv_handlers s) @ drop (Suc k) (sv_handlers s)) (sv_next_id s)
            ((sv_trace s @ [Disconnected i]) @ [Released i])"
          using inv k s1(4) by (intro fit_erase_disconnected) (simp_all add: server_inv_def)
        ultimately show ?thesis
          using Inr Remove_this turn s1
          by (simp add: server_inv_def regular_kinds_erase dtor_events_def)
      qed
    qed
  qed
qed (use inv in \<open>simp_all add: server_turn_def\<close>)

lemma server_create_inv:
  assumes "server_create e E endpoint_id w = (Inr s, w')"
  shows "server_inv s"
proof -
  have "sv_handlers s = [\<lparr>sh_id = 100, sh_handler = Accept_preinit, sh_socket = sh_socket (hd (sv_handlers s))\<rparr>]"
    and "sv_next_id s = 101" and "sv_trace s = []"
    using assms by (auto simp: server_create_def Let_def split: prod.splits sum.splits option.splits)
  moreover from this(1) obtain fd where
    "sv_handlers s = [\<lparr>sh_id = 100, sh_handler = Accept_preinit, sh_socket = fd\<rparr>]" by blast
  ultimately show ?thesis
    by (simp add: server_inv_def handlers_fit_def ids_ok_def kinds_def preinit_kinds_def)
qed

lemma server_reach_inv: "server_reach e E s \<Longrightarrow> server_inv s"
proof (induction rule: server_reach.induct)
  case (start endpoint_id w s w')
  then show ?case by (rule server_create_inv)
next
  case (step s t)
  from step(2) show ?case
  proof (rule server_stepE)
    assume "t = server_turn e E s" "sv_next_id s \<noteq> - 1"
    then show ?thesis using server_turn_inv [OF step(3)] by simp
  qed (use step(3) in \<open>simp add: server_inv_def\<close>)
qed


section \<open>The auxiliary connection\<close>

text \<open>Which function each handler gets when the first magic number arrives at \<open>self\<close>.\<close>

definition assigned :: "nat \<Rightarrow> nat \<Rightarrow> u32 \<Rightarrow> handler_fn" where
  "assigned self j i =
     (if j = 0 then Accept_regular else if j = self then Handle_aux else Handle_session i)"

lemma assign_handlers_result:
  assumes "assign_handlers E self i n s = (None, s')" and "i + n = length (sv_handlers s)"
  shows "length (sv_handlers s') = length (sv_handlers s) \<and>
    (\<forall>j < length (sv_handlers s). sv_handlers s' ! j =
      (if j < i then sv_handlers s ! j
       else (sv_handlers s ! j)\<lparr>sh_handler := assigned self j (sh_id (sv_handlers s ! j))\<rparr>))"
  using assms
proof (induction E self i n s rule: assign_handlers.induct)
  case (2 E self i n s)
  let ?h = "sv_handlers s ! i"
  let ?set = "\<lambda>f s. s\<lparr>sv_handlers := (sv_handlers s)[i := ?h\<lparr>sh_handler := f\<rparr>]\<rparr>"
  have i: "i < length (sv_handlers s)" using "2.prems" by simp
  consider "i = 0" | "i \<noteq> 0" "i = self" | "i \<noteq> 0" "i \<noteq> self" by blast
  then show ?case
  proof cases
    case 1
    then have "assign_handlers E self (Suc i) n (?set Accept_regular s) = (None, s')"
      using "2.prems"(1) by simp
    from "2.IH"(1) [OF refl refl 1 this] "2.prems" 1 show ?thesis
      by (auto simp: assigned_def nth_list_update less_Suc_eq)
  next
    case 2
    then have "assign_handlers E self (Suc i) n (?set Handle_aux s) = (None, s')"
      using "2.prems"(1) by simp
    from "2.IH"(2) [OF refl refl 2 this] "2.prems" 2 show ?thesis
      by (auto simp: assigned_def nth_list_update less_Suc_eq)
  next
    case 3
    then obtain w where w: "env_create_session E (sv_world s) (sh_id ?h) = Inr w"
      using "2.prems"(1) by (cases "env_create_session E (sv_world s) (sh_id ?h)") (auto simp: Let_def)
    let ?s1 = "trace (Created (sh_id ?h)) (?set (Handle_session (sh_id ?h)) (s\<lparr>sv_world := w\<rparr>))"
    have "assign_handlers E self (Suc i) n ?s1 = (None, s')"
      using "2.prems"(1) 3 w by (simp add: Let_def)
    from "2.IH"(3) [OF refl refl 3 w this] "2.prems" 3 i show ?thesis
      by (auto simp: assigned_def nth_list_update less_Suc_eq)
  qed
qed simp

section \<open>Every pass over the list ends\<close>

fun visit_weight :: "handler_fn \<Rightarrow> nat" where
  "visit_weight Accept_preinit = 2"
| "visit_weight Accept_regular = 2"
| "visit_weight _ = 1"

definition visits_left :: "socket_handler list \<Rightarrow> nat \<Rightarrow> nat" where
  "visits_left hs k = sum_list (map (visit_weight \<circ> sh_handler) (drop k hs))"

definition pass_left :: "'w server \<Rightarrow> nat" where
  "pass_left s = (case sv_pc s of Visiting fds k \<Rightarrow> Suc (visits_left (sv_handlers s) k) | _ \<Rightarrow> 0)"

lemma visits_left_step:
  "k < length hs \<Longrightarrow> visits_left hs k = visit_weight (sh_handler (hs ! k)) + visits_left hs (Suc k)"
  by (simp add: visits_left_def flip: Cons_nth_drop_Suc)

lemma visit_weight_pos: "0 < visit_weight f"
  by (cases f) simp_all

lemma visits_left_append: "k \<le> length hs \<Longrightarrow>
  visits_left (hs @ [h]) k = visits_left hs k + visit_weight (sh_handler h)"
  by (simp add: visits_left_def)

lemma visits_left_erase:
  assumes "i < length hs" and "k \<le> length hs"
  shows "visits_left (take i hs @ drop (Suc i) hs) (if i < k then k - 1 else k) \<le> visits_left hs k"
proof (cases "i < k")
  case True
  then have "drop (k - 1) (take i hs @ drop (Suc i) hs) = drop k hs" using assms by simp
  with True show ?thesis by (simp add: visits_left_def)
next
  case False
  then have "drop k hs = drop k (take i hs) @ hs ! i # drop (Suc i) hs"
    using assms id_take_nth_drop [OF assms(1)] by (metis drop_append diff_is_0_eq drop0 length_take linorder_not_less min.absorb2 order_less_imp_le)
  with False assms show ?thesis by (simp add: visits_left_def)
qed

lemma visits_left_erase_here:
  assumes "k < length hs"
  shows "visits_left (take k hs @ drop (Suc k) hs) k = visits_left hs (Suc k)"
  using assms by (simp add: visits_left_def)

lemma visits_left_ones:
  assumes "length hs = length hs'" and "k \<le> length hs"
    and "\<forall>j < length hs. k \<le> j \<longrightarrow> visit_weight (sh_handler (hs ! j)) = 1 \<and> visit_weight (sh_handler (hs' ! j)) = 1"
  shows "visits_left hs k = visits_left hs' k"
proof -
  have "map (visit_weight \<circ> sh_handler) (drop k hs) = map (visit_weight \<circ> sh_handler) (drop k hs')"
    using assms by (intro nth_equalityI) simp_all
  then show ?thesis by (simp add: visits_left_def)
qed

text \<open>What a handler that lets the loop go on leaves it to visit.\<close>

lemma accept_visits:
  assumes "k < length (sv_handlers s)" and "sv_pc s = Visiting fds k"
    and "(f = accept_preinit \<and> sh_handler (sv_handlers s ! k) = Accept_preinit) \<or>
      (f = accept_regular \<and> sh_handler (sv_handlers s ! k) = Accept_regular)"
    and "f E fd s = (Inr st, s1)"
  shows "st = Proceed \<and> sv_pc s1 = Visiting fds k \<and>
    visits_left (sv_handlers s1) (Suc k) < visits_left (sv_handlers s) k"
proof -
  obtain r s2 where acc: "accept_connection E fd s = (r, s2)" by (cases "accept_connection E fd s")
  then obtain w where s2: "s2 = s\<lparr>sv_world := w\<rparr>" using accept_connection_frame by blast
  have "\<exists>h. st = Proceed \<and> sv_pc s1 = sv_pc s \<and> sv_handlers s1 = sv_handlers s @ [h] \<and>
      visit_weight (sh_handler h) = 1"
    using assms(3,4) acc s2
    by (auto simp: accept_preinit_def accept_regular_def Let_def split: sum.splits)
  then obtain h where h: "st = Proceed" "sv_pc s1 = sv_pc s" "sv_handlers s1 = sv_handlers s @ [h]"
      "visit_weight (sh_handler h) = 1"
    by blast
  have "visit_weight (sh_handler (sv_handlers s ! k)) = 2" using assms(3) by auto
  with h visits_left_step [OF assms(1)] assms(1,2) show ?thesis by (simp add: visits_left_append)
qed

lemma handle_preinit_visits:
  assumes "preinit_kinds (sv_handlers s)" and k: "k < length (sv_handlers s)"
    and "sv_pc s = Visiting fds k" and "sh_handler (sv_handlers s ! k) = Handle_preinit"
    and "handlers_fit (sv_handlers s) (sv_next_id s) (sv_trace s)"
    and run: "handle_preinit e E k fd s = (Inr st, s1)"
  shows "st = Proceed \<and> sv_pc s1 = Visiting fds k \<and>
    visits_left (sv_handlers s1) (Suc k) < visits_left (sv_handlers s) k"
proof -
  obtain r magic w1 where peek: "recv_scalar e E (sv_world s) fd Msg_peek = (r, magic, w1)"
    using prod_cases3 by blast
  obtain r' m' w2 where recv: "recv_scalar e E w1 fd Msg_waitall = (r', m', w2)"
    using prod_cases3 by blast
  have here: "visits_left (sv_handlers s) k = Suc (visits_left (sv_handlers s) (Suc k))"
    using k assms(4) by (simp add: visits_left_step)
  consider "st = Proceed" "s1 = s\<lparr>sv_world := w1\<rparr>"
    | "st = Proceed" "assign_handlers E k 0 (length (sv_handlers s)) (s\<lparr>sv_world := w2\<rparr>) = (None, s1)"
    using run peek recv
    by (auto simp: handle_preinit_def split: if_splits prod.splits option.splits)
  then show ?thesis
  proof cases
    case 1
    then show ?thesis using assms(3) here by simp
  next
    case 2
    have "\<forall>j. j < length (sv_handlers s) \<longrightarrow> handler_phase (sh_handler (sv_handlers s ! j)) = Absent"
      using preinit_kinds_nth [OF assms(1)] preinit_absent by blast
    then have "sv_pc s1 = Visiting fds k"
      using assign_handlers_fit [OF 2(2)] assms(3,5) by simp
    moreover have "visits_left (sv_handlers s1) (Suc k) = visits_left (sv_handlers s) (Suc k)"
    proof (rule visits_left_ones)
      show "length (sv_handlers s1) = length (sv_handlers s)"
        using assign_handlers_result [OF 2(2)] by simp
      show "Suc k \<le> length (sv_handlers s1)" using calculation k assign_handlers_result [OF 2(2)] by simp
      show "\<forall>j < length (sv_handlers s1). Suc k \<le> j \<longrightarrow>
          visit_weight (sh_handler (sv_handlers s1 ! j)) = 1 \<and> visit_weight (sh_handler (sv_handlers s ! j)) = 1"
        using assign_handlers_result [OF 2(2)] assms(1) by (auto simp: assigned_def preinit_kinds_def)
    qed
    ultimately show ?thesis using 2 here by simp
  qed
qed

lemma handle_aux_cases:
  assumes "handle_aux e E fd s = (Inr st, s1)"
  obtains "st = Exit"
    | i where "st = Proceed" "i < length (sv_handlers s)"
      "sv_handlers s1 = take i (sv_handlers s) @ drop (Suc i) (sv_handlers s)"
      "sv_pc s1 = erase_beside i (sv_pc s)"
proof -
  obtain r j w1 where recv: "recv_scalar e E (sv_world s) fd Msg_waitall = (r, j, w1)"
    using prod_cases3 by blast
  show thesis
  proof (cases "r > 0 \<and> find_handler j (sv_handlers s) \<noteq> None")
    case True
    then obtain i where "find_handler j (sv_handlers s) = Some i" by blast
    with that(2) [of i] find_handler_Some [OF this] True assms recv show thesis
      by (auto simp: handle_aux_def Let_def)
  next
    case False
    with that(1) assms recv show thesis
      by (auto simp: handle_aux_def Let_def split: if_splits option.splits)
  qed
qed

lemma server_turn_pass_left:
  assumes inv: "server_inv s" and pc: "sv_pc s = Visiting fds k"
  shows "pass_left (server_turn e E s) < pass_left s"
proof (cases "k < length (sv_handlers s) \<and> sh_socket (sv_handlers s ! k) \<in> set fds")
  case False
  then show ?thesis
    using pc visit_weight_pos [of "sh_handler (sv_handlers s ! k)"]
    by (auto simp: server_turn_def pass_left_def visits_left_step)
next
  case True
  then have k: "k < length (sv_handlers s)" by simp
  let ?fd = "sh_socket (sv_handlers s ! k)"
  have fit: "handlers_fit (sv_handlers s) (sv_next_id s) (sv_trace s)"
    using inv by (simp add: server_inv_def)
  obtain r s1 where run: "run_handler e E k s = (r, s1)" by (cases "run_handler e E k s")
  have turn: "server_turn e E s = (case (r, s1) of
        (Inl x, s1) \<Rightarrow> s1\<lparr>sv_pc := Ended\<rparr>
      | (Inr Proceed, s1) \<Rightarrow> s1\<lparr>sv_pc := advance (sv_pc s1)\<rparr>
      | (Inr Remove_this, s1) \<Rightarrow> erase_handler E k s1
      | (Inr Exit, s1) \<Rightarrow> s1\<lparr>sv_pc := Ended\<rparr>)"
    using True pc run by (simp add: server_turn_def)
  have more: "pass_left (server_turn e E s) < pass_left s"
    if "r = Inr Proceed" "sv_pc s1 = Visiting fds k"
      "visits_left (sv_handlers s1) (Suc k) < visits_left (sv_handlers s) k"
    using that turn pc by (simp add: pass_left_def)
  have here: "visits_left (sv_handlers s) (Suc k) < visits_left (sv_handlers s) k"
    using visits_left_step [OF k] visit_weight_pos [of "sh_handler (sv_handlers s ! k)"] by simp
  show ?thesis
  proof (cases r)
    case (Inl x)
    then show ?thesis using turn pc by (simp add: pass_left_def)
  next
    case (Inr st)
    show ?thesis
    proof (cases "sh_handler (sv_handlers s ! k)")
      case Accept_preinit
      then show ?thesis
        using accept_visits [OF k pc, of accept_preinit E ?fd st s1] run Inr more
        by (simp add: run_handler_def)
    next
      case Accept_regular
      then show ?thesis
        using accept_visits [OF k pc, of accept_regular E ?fd st s1] run Inr more
        by (simp add: run_handler_def)
    next
      case Handle_preinit
      then have "preinit_kinds (sv_handlers s)"
        using inv pc regular_kinds_nth [OF _ k] by (auto simp: server_inv_def)
      from handle_preinit_visits [OF this k pc Handle_preinit fit, of e E ?fd st s1] run Inr more
        Handle_preinit show ?thesis by (simp add: run_handler_def)
    next
      case (Handle_session i)
      then have "st = Proceed \<or> st = Remove_this" "sv_handlers s1 = sv_handlers s" "sv_pc s1 = sv_pc s"
        using run Inr
        by (auto simp: run_handler_def handle_session_def Let_def split: prod.splits sum.splits if_splits)
      then show ?thesis
        using Inr turn more pc here k
        by (auto simp: pass_left_def visits_left_erase_here)
    next
      case Handle_aux
      then have "handle_aux e E ?fd s = (Inr st, s1)" using run Inr by (simp add: run_handler_def)
      then consider "st = Exit"
        | i where "st = Proceed" "i < length (sv_handlers s)"
            "sv_handlers s1 = take i (sv_handlers s) @ drop (Suc i) (sv_handlers s)"
            "sv_pc s1 = erase_beside i (Visiting fds k)"
        unfolding pc [symmetric] by (rule handle_aux_cases)
      then show ?thesis
      proof cases
        case 1
        then show ?thesis using Inr turn pc by (simp add: pass_left_def)
      next
        case 2
        show ?thesis
        proof (cases "i = k")
          case True
          then show ?thesis using 2 Inr turn pc by (simp add: pass_left_def)
        next
          case False
          have "visits_left (sv_handlers s1) (if i < Suc k then Suc k - 1 else Suc k)
              \<le> visits_left (sv_handlers s) (Suc k)"
            unfolding 2(3) using k by (intro visits_left_erase [OF 2(2)]) simp
          then show ?thesis
            using 2 False Inr turn pc here by (auto simp: pass_left_def split: if_splits)
        qed
      qed
    qed
  qed
qed

end
