(* ===== verification/Socket_Sessions.thy ===== *)
theory Socket_Sessions
  imports Socket_Runs "HOL-Library.Sublist"
begin

text \<open>
  What the turns of the socket server do: a pass ends, a session gets the frames of its
  connection, the auxiliary connection removes handlers or ends the thread, and the destructor
  releases what is left. \<open>stream_env\<close> is an environment with which this can be tried.
\<close>

definition stream_env :: "bytes env" where
  "stream_env = \<lparr>
     env_socket = (\<lambda>w. (3, w)), env_setsockopt = (\<lambda>w s. (0, w)), env_bind = (\<lambda>w s a. (0, w)),
     env_listen = (\<lambda>w s n. (0, w)), env_connect = (\<lambda>w s a. (0, w)), env_ioctl = (\<lambda>w s. w),
     env_accept = (\<lambda>w s. (7, w)), env_close = (\<lambda>w s. w),
     env_recv = (\<lambda>w s n opt. ((int (length (take n w)), take n w), if opt = Msg_peek then w else drop n w)),
     env_send = (\<lambda>w s bs. (int (length bs), w)),
     env_select = (\<lambda>w fds. ((1, fds), w)),
     env_garbage = (\<lambda>w. 0),
     env_create_session = (\<lambda>w i. Inr w), env_session_message = (\<lambda>w i m. Inr w),
     env_session_disconnect = (\<lambda>w i. w), env_session_release = (\<lambda>w i. w)\<rparr>"

section \<open>Turns\<close>

lemma server_turn_idle [simp]:
  "sv_pc s = Ended \<Longrightarrow> server_turn e E s = s"
  "sv_pc s = Dangling_iterator \<Longrightarrow> server_turn e E s = s"
  by (simp_all add: server_turn_def)

lemma server_turns_ended: "sv_pc s = Ended \<Longrightarrow> (server_turn e E ^^ n) s = s"
  by (induction n) simp_all

lemma server_turn_visit:
  "sv_pc s = Visiting fds k \<Longrightarrow> k < length (sv_handlers s) \<Longrightarrow>
   sh_socket (sv_handlers s ! k) \<in> set fds \<Longrightarrow>
   server_turn e E s = (case run_handler e E k s of
       (Inl x, s1) \<Rightarrow> s1\<lparr>sv_pc := Ended\<rparr>
     | (Inr Proceed, s1) \<Rightarrow> s1\<lparr>sv_pc := advance (sv_pc s1)\<rparr>
     | (Inr Remove_this, s1) \<Rightarrow> erase_handler E k s1
     | (Inr Exit, s1) \<Rightarrow> s1\<lparr>sv_pc := Ended\<rparr>)"
  by (simp add: server_turn_def)

lemma assign_handlers_frame:
  "assign_handlers E self i n s = (x, s') \<Longrightarrow>
   sv_next_id s' = sv_next_id s \<and> prefix (sv_trace s) (sv_trace s')"
  by (induction E self i n s rule: assign_handlers.induct)
    (auto simp: Let_def split: if_splits sum.splits dest: append_prefixD)

lemma run_handler_frame:
  assumes "run_handler e E k s = (r, s1)"
  shows "(sv_next_id s1 = sv_next_id s \<or> sv_next_id s1 = sv_next_id s + 1) \<and>
    prefix (sv_trace s) (sv_trace s1)"
proof (cases "sh_handler (sv_handlers s ! k)")
  case Accept_preinit
  obtain r0 s0 where acc: "accept_connection E (sh_socket (sv_handlers s ! k)) s = (r0, s0)"
    by (cases "accept_connection E (sh_socket (sv_handlers s ! k)) s")
  from accept_connection_frame [OF acc] acc Accept_preinit assms show ?thesis
    by (auto simp: run_handler_def accept_preinit_def split: sum.splits)
next
  case Accept_regular
  obtain r0 s0 where acc: "accept_connection E (sh_socket (sv_handlers s ! k)) s = (r0, s0)"
    by (cases "accept_connection E (sh_socket (sv_handlers s ! k)) s")
  from accept_connection_frame [OF acc] acc Accept_regular assms show ?thesis
    by (auto simp: run_handler_def accept_regular_def Let_def split: sum.splits)
next
  case Handle_preinit
  then show ?thesis
    using assms
    by (auto simp: run_handler_def handle_preinit_def Let_def split: prod.splits if_splits option.splits
        dest!: assign_handlers_frame)
next
  case (Handle_session i)
  then show ?thesis
    using assms
    by (auto simp: run_handler_def handle_session_def Let_def split: prod.splits if_splits sum.splits)
next
  case Handle_aux
  then show ?thesis
    using assms
    by (auto simp: run_handler_def handle_aux_def Let_def split: prod.splits if_splits option.splits)
qed

lemma server_turn_frame:
  "(sv_next_id (server_turn e E s) = sv_next_id s \<or> sv_next_id (server_turn e E s) = sv_next_id s + 1) \<and>
   prefix (sv_trace s) (sv_trace (server_turn e E s))"
proof (cases "sv_pc s")
  case (Visiting fds k)
  obtain r s1 where run: "run_handler e E k s = (r, s1)" by (cases "run_handler e E k s")
  from run_handler_frame [OF this] run Visiting show ?thesis
    by (auto simp: server_turn_def split: sum.split status.split)
qed (auto simp: server_turn_def split: prod.split)

lemma pass_ends:
  assumes "server_inv s" and "unat (sv_next_id s) + pass_left s < 2 ^ 32 - 1"
  shows "\<exists>n \<le> pass_left s. \<forall>fds k. sv_pc ((server_turn e E ^^ n) s) \<noteq> Visiting fds k"
  using assms
proof (induction "pass_left s" arbitrary: s rule: less_induct)
  case less
  show ?case
  proof (cases "\<exists>fds k. sv_pc s = Visiting fds k")
    case False
    then show ?thesis by (intro exI [of _ 0]) simp
  next
    case True
    let ?t = "server_turn e E s"
    have shrinks: "pass_left ?t < pass_left s"
      using True server_turn_pass_left [OF less.prems(1)] by blast
    have next_id: "sv_next_id s \<noteq> - 1" using less.prems(2) by (auto simp: unsigned_minus_1_eq_mask mask_eq_exp_minus_1)
    have "unat (sv_next_id ?t) \<le> Suc (unat (sv_next_id s))"
      using server_turn_frame [of e E s] unat_succ [OF next_id] by auto
    with shrinks less.prems(2) have "unat (sv_next_id ?t) + pass_left ?t < 2 ^ 32 - 1" by linarith
    from less.hyps [OF shrinks server_turn_inv [OF less.prems(1) next_id] this]
    obtain n where n: "n \<le> pass_left ?t" "\<forall>fds k. sv_pc ((server_turn e E ^^ n) ?t) \<noteq> Visiting fds k"
      by blast
    then have "Suc n \<le> pass_left s"
      and "\<forall>fds k. sv_pc ((server_turn e E ^^ Suc n) s) \<noteq> Visiting fds k"
      using shrinks by (simp_all only: funpow_Suc_right o_apply) simp
    then show ?thesis by blast
  qed
qed

lemma visits_left_le: "visits_left hs k \<le> 2 * length hs"
proof -
  have "sum_list (map (visit_weight \<circ> sh_handler) xs) \<le> 2 * length xs" for xs
  proof (induction xs)
    case (Cons h xs)
    have "visit_weight (sh_handler h) \<le> 2" by (cases "sh_handler h") simp_all
    from add_mono [OF this Cons] show ?case by simp
  qed simp
  from this [of "drop k hs"] show ?thesis by (simp add: visits_left_def)
qed

lemma pass_left_le: "pass_left s \<le> 2 * length (sv_handlers s) + 1"
  using visits_left_le by (simp add: pass_left_def split: loop_pc.split)

section \<open>A session and its connection\<close>

text \<open>
  A socket that carries a byte stream, whose bytes to come are \<open>avail\<close>, and an outside world that
  holds the session as the channel \<open>ch\<close> in a state that \<open>sess\<close> picks out of it: what the world does
  with a message or the disconnection of session \<open>i\<close> is what the channel does, and leaves the stream
  alone, as receiving leaves the session alone.
\<close>

definition recv_stream :: "'w env \<Rightarrow> int \<Rightarrow> ('w \<Rightarrow> bytes) \<Rightarrow> bool" where
  "recv_stream E fd avail \<longleftrightarrow> (\<forall>w n. \<exists>w'. env_recv E w fd n Msg_waitall =
     ((int (length (take n (avail w))), take n (avail w)), w') \<and> avail w' = drop n (avail w))"

definition hosts_session ::
  "'w env \<Rightarrow> int \<Rightarrow> u32 \<Rightarrow> 'c channel \<Rightarrow> ('w \<Rightarrow> 'c) \<Rightarrow> ('w \<Rightarrow> bytes) \<Rightarrow> bool" where
  "hosts_session E fd i ch sess avail \<longleftrightarrow>
     (\<forall>w m. case ch_message ch (sess w) m of
        Inl x \<Rightarrow> env_session_message E w i m = Inl x
      | Inr c \<Rightarrow> \<exists>w'. env_session_message E w i m = Inr w' \<and> sess w' = c \<and> avail w' = avail w) \<and>
     (\<forall>w. sess (env_session_disconnect E w i) = ch_disconnect ch (sess w)) \<and>
     (\<forall>w n. sess (snd (env_recv E w fd n Msg_waitall)) = sess w)"

text \<open>A world of one stream and one session, for any channel.\<close>

definition channel_env :: "'c channel \<Rightarrow> (bytes \<times> 'c) env" where
  "channel_env ch = \<lparr>
     env_socket = (\<lambda>w. (3, w)), env_setsockopt = (\<lambda>w s. (0, w)), env_bind = (\<lambda>w s a. (0, w)),
     env_listen = (\<lambda>w s n. (0, w)), env_connect = (\<lambda>w s a. (0, w)), env_ioctl = (\<lambda>w s. w),
     env_accept = (\<lambda>w s. (7, w)), env_close = (\<lambda>w s. w),
     env_recv = (\<lambda>(bs, c) s n opt.
       ((int (length (take n bs)), take n bs), (if opt = Msg_peek then bs else drop n bs, c))),
     env_send = (\<lambda>w s bs. (int (length bs), w)),
     env_select = (\<lambda>w fds. ((1, fds), w)),
     env_garbage = (\<lambda>w. 0),
     env_create_session = (\<lambda>w i. Inr w),
     env_session_message = (\<lambda>(bs, c) i m. map_sum id (Pair bs) (ch_message ch c m)),
     env_session_disconnect = (\<lambda>(bs, c) i. (bs, ch_disconnect ch c)),
     env_session_release = (\<lambda>w i. w)\<rparr>"

lemma channel_env_ok: "recv_stream (channel_env ch) fd fst" "hosts_session (channel_env ch) fd i ch snd fst"
  by (auto simp: recv_stream_def hosts_session_def channel_env_def split: sum.split)

lemma recv_streamD:
  "recv_stream E fd avail \<Longrightarrow> \<exists>w'. env_recv E w fd n Msg_waitall =
     ((int (length (take n (avail w))), take n (avail w)), w') \<and> avail w' = drop n (avail w)"
  by (simp add: recv_stream_def)

fun serve_session ::
  "endian \<Rightarrow> 'w env \<Rightarrow> int \<Rightarrow> u32 \<Rightarrow> nat \<Rightarrow> 'w server \<Rightarrow> (exn + status) \<times> 'w server" where
  "serve_session e E fd i 0 s = (Inr Proceed, s)"
| "serve_session e E fd i (Suc n) s =
     (case handle_session e E fd i s of
        (Inr Proceed, s1) \<Rightarrow> serve_session e E fd i n s1
      | r \<Rightarrow> r)"

lemma recv_scalar_stream:
  assumes "recv_stream E fd avail" and "avail w = network_bytes 4 n @ rest" and "n < 2 ^ 32"
  shows "\<exists>w'. recv_scalar e E w fd Msg_waitall = (4, word_of_nat n, w') \<and> avail w' = rest"
proof -
  obtain w' where w': "env_recv E w fd 4 Msg_waitall =
      ((int (length (take 4 (avail w))), take 4 (avail w)), w')" "avail w' = drop 4 (avail w)"
    using assms(1) unfolding recv_stream_def by blast
  then have "env_recv E w fd 4 Msg_waitall = ((4, network_bytes 4 n), w')" and "avail w' = rest"
    by (simp_all add: assms(2))
  moreover have "load_value e (reorder e (network_bytes 4 n)) = n"
    using assms(3) by (simp add: load_reorder_network)
  ultimately show ?thesis by (simp add: recv_scalar_def overwrite_def)
qed


lemma recv_scalar_world: "snd (snd (recv_scalar e E w fd opt)) = snd (env_recv E w fd 4 opt)"
  by (simp add: recv_scalar_def split_beta)

text \<open>A frame in the stream: the turn is what the channel does with the message.\<close>

lemma handle_session_frame:
  assumes "recv_stream E fd avail" and hosts: "hosts_session E fd i ch sess avail"
    and "avail (sv_world s) = frame e' True m @ rest" and "length m < 2 ^ 32"
  shows "\<exists>s1. handle_session e E fd i s =
      (map_sum id (\<lambda>_. Proceed) (ch_message ch (sess (sv_world s)) m), s1) \<and>
    sess (sv_world s1) = (case ch_message ch (sess (sv_world s)) m of Inl x \<Rightarrow> sess (sv_world s) | Inr c \<Rightarrow> c) \<and>
    avail (sv_world s1) = rest \<and> sv_trace s1 = sv_trace s @ [Got i m] \<and> sv_handlers s1 = sv_handlers s"
proof -
  have "avail (sv_world s) = network_bytes 4 (length m) @ m @ rest"
    using assms(3) by (simp add: frame_def frame_header_def)
  from recv_scalar_stream [OF assms(1) this assms(4), of e] obtain w1 where
    w1: "recv_scalar e E (sv_world s) fd Msg_waitall = (4, word_of_nat (length m), w1)" "avail w1 = m @ rest"
    by blast
  have n: "unat (word_of_nat (length m) :: u32) = length m"
    using assms(4) by (simp add: unat_of_nat_small)
  obtain w2 where w2: "env_recv E w1 fd (length m) Msg_waitall = ((int (length m), m), w2)" "avail w2 = rest"
    using recv_streamD [OF assms(1), of w1 "length m"] w1(2) by auto
  have keeps: "sess (snd (env_recv E w fd n Msg_waitall)) = sess w" for w n
    using hosts by (simp add: hosts_session_def)
  have "sess w1 = sess (sv_world s)"
    using recv_scalar_world [of e E "sv_world s" fd Msg_waitall] w1(1) keeps by simp
  moreover have "sess w2 = sess w1" using keeps [of w1 "length m"] w2(1) by simp
  ultimately have "sess w2 = sess (sv_world s)" by simp
  moreover have "case ch_message ch (sess w2) m of
      Inl x \<Rightarrow> env_session_message E w2 i m = Inl x
    | Inr c \<Rightarrow> \<exists>w'. env_session_message E w2 i m = Inr w' \<and> sess w' = c \<and> avail w' = avail w2"
    using hosts unfolding hosts_session_def by blast
  ultimately show ?thesis
    using w1 w2 by (auto simp: handle_session_def n Let_def split: sum.splits)
qed

lemma handle_session_end:
  assumes "recv_stream E fd avail" and hosts: "hosts_session E fd i ch sess avail" and "avail (sv_world s) = []"
  shows "\<exists>s1. handle_session e E fd i s = (Inr Remove_this, s1) \<and>
    sess (sv_world s1) = ch_disconnect ch (sess (sv_world s)) \<and>
    sv_trace s1 = sv_trace s @ [Disconnected i] \<and> sv_handlers s1 = sv_handlers s"
proof -
  obtain w' where w': "env_recv E (sv_world s) fd 4 Msg_waitall = ((0, []), w')"
    using recv_streamD [OF assms(1), of "sv_world s" 4] assms(3) by auto
  have "sess (snd (env_recv E (sv_world s) fd 4 Msg_waitall)) = sess (sv_world s)"
    and "sess (env_session_disconnect E w' i) = ch_disconnect ch (sess w')"
    using hosts unfolding hosts_session_def by blast+
  with w' show ?thesis by (simp add: handle_session_def recv_scalar_def)
qed

text \<open>
  Turn by turn the session gets the messages of its connection, then the end of it, or what it
  throws ends the turns.
\<close>

lemma serve_session_frames:
  assumes "recv_stream E fd avail" and "hosts_session E fd i ch sess avail"
    and "avail (sv_world s) = concat (map (frame e' True) ms)" and "\<forall>m \<in> set ms. length m < 2 ^ 32"
    and "then_disconnect ch (deliver_all ch (sess (sv_world s)) ms) = (x, c)"
  shows "\<exists>s1. serve_session e E fd i (Suc (length ms)) s =
      (case x of None \<Rightarrow> Inr Remove_this | Some x \<Rightarrow> Inl x, s1) \<and>
    sess (sv_world s1) = c \<and> sv_handlers s1 = sv_handlers s \<and>
    (x = None \<longrightarrow> sv_trace s1 = sv_trace s @ map (Got i) ms @ [Disconnected i])"
  using assms(3,4,5)
proof (induction ms arbitrary: s)
  case Nil
  with handle_session_end [OF assms(1,2), of s e] show ?case by auto
next
  case (Cons m ms)
  then have "avail (sv_world s) = frame e' True m @ concat (map (frame e' True) ms)" by simp
  from handle_session_frame [OF assms(1,2) this, of e] Cons.prems(2) obtain s1 where
    s1: "handle_session e E fd i s = (map_sum id (\<lambda>_. Proceed) (ch_message ch (sess (sv_world s)) m), s1)"
      "sess (sv_world s1) = (case ch_message ch (sess (sv_world s)) m of Inl x \<Rightarrow> sess (sv_world s) | Inr c \<Rightarrow> c)"
      "avail (sv_world s1) = concat (map (frame e' True) ms)"
      "sv_trace s1 = sv_trace s @ [Got i m]" "sv_handlers s1 = sv_handlers s"
    by auto
  show ?case
  proof (cases "ch_message ch (sess (sv_world s)) m")
    case (Inl y)
    with s1 Cons.prems(3) show ?thesis by auto
  next
    case (Inr c1)
    with s1 Cons.prems(3) have "then_disconnect ch (deliver_all ch (sess (sv_world s1)) ms) = (x, c)" by simp
    from Cons.IH [OF s1(3) _ this] Cons.prems(2) s1 Inr show ?thesis by auto
  qed
qed

text \<open>
  Fewer than four bytes of a header are taken for a header; an exception of the session is the
  result of the turn.
\<close>

lemma handle_session_throws:
  assumes "recv_scalar e E (sv_world s) fd Msg_waitall = (r, sz, w1)" and "r > 0"
    and "\<And>w m. \<exists>x. env_session_message E w i m = Inl x"
  shows "\<exists>x s1. handle_session e E fd i s = (Inl x, s1)"
proof -
  obtain n data w2 where "env_recv E w1 fd (unat sz) Msg_waitall = ((n, data), w2)"
    by (metis prod.collapse)
  moreover obtain x where "env_session_message E w2 i (overwrite (resize (sv_buffer s) (unat sz)) data) = Inl x"
    using assms(3) by blast
  ultimately show ?thesis using assms(1,2) by (simp add: handle_session_def Let_def)
qed

section \<open>Disconnecting\<close>

lemma server_turn_aux:
  assumes "sv_pc s = Visiting fds k" and "k < length (sv_handlers s)"
    and "sh_handler (sv_handlers s ! k) = Handle_aux" and "sh_socket (sv_handlers s ! k) \<in> set fds"
    and "recv_scalar e E (sv_world s) (sh_socket (sv_handlers s ! k)) Msg_waitall = (r, i, w1)" and "r > 0"
  shows "server_turn e E s =
    (case find_handler i (sv_handlers s) of
       Some j \<Rightarrow> (erase_handler E j (s\<lparr>sv_world := w1\<rparr>))\<lparr>sv_pc := advance (erase_beside j (Visiting fds k))\<rparr>
     | None \<Rightarrow> s\<lparr>sv_world := w1, sv_pc := Ended\<rparr>)"
  using assms
  by (simp add: server_turn_visit run_handler_def handle_aux_def Let_def split: option.split)

text \<open>An id that has been used and released is the id of no handler any more, ever.\<close>

lemma phase_step_Gone: "phase_step i ev (Some Gone) \<in> {Some Gone, None}"
  by (cases ev) auto

lemma phase_step_None: "phase_step i ev None = None"
  by (cases ev) auto

lemma session_phase_Gone_append:
  "session_phase i tr = Some Gone \<Longrightarrow> session_phase i (tr @ evs) \<in> {Some Gone, None}"
proof (induction evs rule: rev_induct)
  case (snoc ev evs)
  then show ?case
    using phase_step_Gone [of i ev] phase_step_None [of i ev]
    by (auto simp del: append_assoc simp flip: append_assoc)
qed simp

lemma server_steps_inv:
  "(server_step e E)\<^sup>*\<^sup>* s t \<Longrightarrow> server_inv s \<Longrightarrow> server_inv t \<and> prefix (sv_trace s) (sv_trace t)"
proof (induction rule: rtranclp_induct)
  case (step t u)
  from step(2) show ?case
  proof (rule server_stepE)
    assume "u = server_turn e E t" "sv_next_id t \<noteq> - 1"
    with step server_turn_inv [of t e E] server_turn_frame [of e E t] show ?thesis
      by (auto intro: prefix_order.trans)
  qed (use step in \<open>simp add: server_inv_def\<close>)
qed simp

lemma kinds_in: "h \<in> set hs \<Longrightarrow> kinds hs (sh_id h) \<noteq> None"
  by (induction hs) (auto simp: kinds_def)

lemma gone_has_no_handler:
  assumes "server_inv t" and "session_phase i (sv_trace s) = Some Gone"
    and "prefix (sv_trace s) (sv_trace t)"
  shows "find_handler i (sv_handlers t) = None"
proof -
  obtain evs where "sv_trace t = sv_trace s @ evs" using assms(3) by (auto simp: prefix_def)
  then have "session_phase i (sv_trace t) \<in> {Some Gone, None}"
    using session_phase_Gone_append [OF assms(2)] by simp
  moreover have "fits (kinds (sv_handlers t) i) (session_phase i (sv_trace t))"
    using assms(1) by (simp add: server_inv_def handlers_fit_def)
  ultimately have "kinds (sv_handlers t) i = None"
    by (cases "kinds (sv_handlers t) i"; cases "the (kinds (sv_handlers t) i)") auto
  then show ?thesis unfolding find_handler_None using kinds_in by metis
qed

lemma server_inv_ids: "server_inv s \<Longrightarrow> h \<in> set (sv_handlers s) \<Longrightarrow> 100 \<le> sh_id h"
  by (simp add: server_inv_def handlers_fit_def ids_ok_def)

section \<open>The destructor\<close>

lemma erase_handler_fit:
  assumes "handlers_fit (sv_handlers s) (sv_next_id s) (sv_trace s)" and "0 < length (sv_handlers s)"
  shows "handlers_fit (sv_handlers (erase_handler E 0 s)) (sv_next_id (erase_handler E 0 s))
    (sv_trace (erase_handler E 0 s))"
  using fit_erase [OF assms] by simp

lemma destroy_handlers_fit:
  assumes "handlers_fit (sv_handlers s) (sv_next_id s) (sv_trace s)" and "n = length (sv_handlers s)"
  shows "sv_handlers (destroy_handlers E n s) = [] \<and>
    handlers_fit [] (sv_next_id (destroy_handlers E n s)) (sv_trace (destroy_handlers E n s)) \<and>
    prefix (sv_trace s) (sv_trace (destroy_handlers E n s))"
  using assms
proof (induction n arbitrary: s)
  case (Suc n)
  have "0 < length (sv_handlers s)" unfolding Suc.prems(2) [symmetric] by simp
  note fit = erase_handler_fit [OF Suc.prems(1) this, of E]
  have "n = length (sv_handlers (erase_handler E 0 s))" by (simp flip: Suc.prems(2))
  from Suc.IH [OF fit this] show ?case by (auto dest: append_prefixD)
qed simp

lemma server_dtor_releases:
  assumes "server_inv s"
  shows "sv_handlers (server_dtor E s) = [] \<and>
    session_phase i (sv_trace (server_dtor E s)) \<in> {Some Absent, Some Gone} \<and>
    prefix (sv_trace s) (sv_trace (server_dtor E s))"
proof -
  let ?t = "destroy_handlers E (length (sv_handlers s)) s"
  have "handlers_fit (sv_handlers s) (sv_next_id s) (sv_trace s)" using assms by (simp add: server_inv_def)
  from destroy_handlers_fit [OF this refl, of E]
  have t: "sv_handlers ?t = []" "handlers_fit [] (sv_next_id ?t) (sv_trace ?t)" "prefix (sv_trace s) (sv_trace ?t)"
    by simp_all
  from t(2) have "fits (kinds [] i) (session_phase i (sv_trace ?t))"
    unfolding handlers_fit_def by blast
  then have "session_phase i (sv_trace ?t) \<in> {Some Absent, Some Gone}" by (simp add: kinds_def)
  with t show ?thesis by (simp add: server_dtor_def Let_def)
qed


text \<open>The destructor only releases, so what has never been created stays so.\<close>

lemma destroy_handlers_trace:
  "\<exists>evs. sv_trace (destroy_handlers E n s) = sv_trace s @ map Released evs"
proof (induction n arbitrary: s)
  case 0
  show ?case by (intro exI [of _ "[]"]) simp
next
  case (Suc n)
  have "\<exists>ids. dtor_events f = map Released ids" for f
    by (cases f) (auto simp: dtor_events_def intro: exI [of _ "[i]" for i])
  then obtain ids where ids: "dtor_events (sh_handler (sv_handlers s ! 0)) = map Released ids" by blast
  obtain evs where "sv_trace (destroy_handlers E n (erase_handler E 0 s)) =
      sv_trace (erase_handler E 0 s) @ map Released evs"
    using Suc by blast
  then show ?case by (intro exI [of _ "ids @ evs"]) (simp add: ids)
qed

lemma session_phase_not_absent:
  "session_phase i tr \<noteq> Some Absent \<Longrightarrow> session_phase i (tr @ evs) \<noteq> Some Absent"
proof (induction evs rule: rev_induct)
  case (snoc ev evs)
  then show ?case by (cases ev) (auto simp del: append_assoc simp flip: append_assoc)
qed simp

lemma server_dtor_phase:
  assumes "server_inv s"
  shows "session_phase i (sv_trace (server_dtor E s)) = Some Absent \<longleftrightarrow>
    session_phase i (sv_trace s) = Some Absent"
proof -
  obtain evs where evs: "sv_trace (server_dtor E s) = sv_trace s @ map Released evs"
    using destroy_handlers_trace [of E "length (sv_handlers s)" s] by (auto simp: server_dtor_def Let_def)
  have "session_phase i (sv_trace s @ map Released evs) \<in> {Some Absent, None}"
    if "session_phase i (sv_trace s) = Some Absent"
    using that by (induction evs rule: rev_induct) (auto simp del: append_assoc simp flip: append_assoc)
  with server_dtor_releases [OF assms, of E i] show ?thesis
    unfolding evs using session_phase_not_absent [of i "sv_trace s" "map Released evs"] by auto
qed

section \<open>What the invariant says of sessions\<close>

lemma kinds_Some:
  assumes "distinct (map sh_id hs)"
  shows "kinds hs i = Some f \<longleftrightarrow> (\<exists>h \<in> set hs. sh_id h = i \<and> sh_handler h = f)"
proof -
  have "distinct (map fst (map (\<lambda>h. (sh_id h, sh_handler h)) hs))"
    using assms by (simp add: comp_def)
  then show ?thesis unfolding kinds_def by (subst map_of_eq_Some_iff) auto
qed

lemma live_iff_handler:
  assumes "server_inv s"
  shows "session_phase i (sv_trace s) = Some Live \<longleftrightarrow>
      (\<exists>h \<in> set (sv_handlers s). sh_handler h = Handle_session i)"
    and "session_phase i (sv_trace s) \<in> {Some Absent, Some Live, Some Gone}"
    and "distinct (map sh_id (sv_handlers s))"
proof -
  from assms have ids: "ids_ok (sv_handlers s) (sv_next_id s)"
    and fits: "fits (kinds (sv_handlers s) i) (session_phase i (sv_trace s))"
    unfolding server_inv_def handlers_fit_def by blast+
  then show dist: "distinct (map sh_id (sv_handlers s))" by (simp add: ids_ok_def)
  have phases: "handler_phase f \<in> {Absent, Live}" for f by (cases f) simp_all
  show "session_phase i (sv_trace s) \<in> {Some Absent, Some Live, Some Gone}"
    using fits phases by (cases "kinds (sv_handlers s) i") auto
  have own: "h \<in> set (sv_handlers s) \<Longrightarrow> sh_handler h = Handle_session j \<Longrightarrow> j = sh_id h" for h j
    using ids by (simp add: ids_ok_def)
  have live: "Live = handler_phase f \<longleftrightarrow> (\<exists>j. f = Handle_session j)" for f by (cases f) simp_all
  show "session_phase i (sv_trace s) = Some Live \<longleftrightarrow>
      (\<exists>h \<in> set (sv_handlers s). sh_handler h = Handle_session i)" (is "?live \<longleftrightarrow> ?ex")
  proof
    assume ?live
    with fits obtain j where "kinds (sv_handlers s) i = Some (Handle_session j)"
      by (cases "kinds (sv_handlers s) i") (auto simp: live)
    then obtain h where h: "h \<in> set (sv_handlers s)" "sh_id h = i" "sh_handler h = Handle_session j"
      unfolding kinds_Some [OF dist] by blast
    from own [OF h(1,3)] h show ?ex by (intro bexI [OF _ h(1)]) simp
  next
    assume ?ex
    then obtain h where h: "h \<in> set (sv_handlers s)" "sh_handler h = Handle_session i" by (rule bexE)
    then have "kinds (sv_handlers s) i = Some (Handle_session i)"
      unfolding kinds_Some [OF dist] using own [OF h] by (intro bexI [OF _ h(1)]) simp
    with fits show ?live by simp
  qed
qed

text \<open>The destructor leaves no handler and no session that is not released.\<close>

lemma server_dtor_end:
  assumes "server_inv s"
  shows "sv_handlers (server_dtor E s) = [] \<and>
    (\<forall>i. session_phase i (sv_trace (server_dtor E s)) =
      (if session_phase i (sv_trace s) = Some Absent then Some Absent else Some Gone))"
proof -
  note dtor = server_dtor_releases [OF assms, of E]
  have "session_phase i (sv_trace (server_dtor E s)) =
      (if session_phase i (sv_trace s) = Some Absent then Some Absent else Some Gone)" for i
    using server_dtor_phase [OF assms, of i E] dtor [of i] live_iff_handler(2) [OF assms, of i] by auto
  with dtor show ?thesis by blast
qed

end
