(* ===== verification/Remote_Sockets.thy ===== *)
theory Remote_Sockets
  imports Remote_Calls Socket_Sessions
begin

text \<open>
  The two session layers over the socket transport: a server session that the socket server holds
  as the session of one of its connections and that responds through the handler of this
  connection, and a client session in the thread of a socket client. The two hosts may differ in
  their byte orders.
\<close>

text \<open>
  The outbound channel of a connection: its \<^verbatim>\<open>message\<close> sends on the socket of the connection, its
  \<^verbatim>\<open>disconnect\<close> sends the handler's id on the auxiliary one.
\<close>

definition socket_channel ::
  "endian \<Rightarrow> ('o \<Rightarrow> bytes \<Rightarrow> int \<times> 'o) \<Rightarrow> ('o \<Rightarrow> bytes \<Rightarrow> int \<times> 'o) \<Rightarrow> u32 \<Rightarrow> 'o channel" where
  "socket_channel e send send_aux i = \<lparr>
     ch_disconnect = (\<lambda>o'. snd (send_scalar e send_aux o' 4 (unat i))),
     ch_message = (\<lambda>o' m. Inr (socket_handler_message e send o' m))\<rparr>"

lemma socket_channel_takes:
  "ch_message (socket_channel e send send_aux i) o' m = Inr (socket_handler_message e send o' m)"
  by (simp add: socket_channel_def)

section \<open>The server's side\<close>

text \<open>
  From a stream with the requests of \<open>ks\<close>, turn by turn, the session's handlers respond to all of
  them; at the end of the stream the session is told of the disconnection.
\<close>

lemma session_answers:
  assumes "codec_ok cd" and "\<forall>k \<in> set ks. int32 (cl_request k) \<and> served (ss_handlers (sess (sv_world s))) k"
    and "\<forall>m \<in> set (numbered (request_bytes cd) t ks). length m < 2 ^ 32"
    and "recv_stream E fd avail"
    and "hosts_session E fd i (server_channel cd (socket_channel e send send_aux i)) sess avail"
    and "avail (sv_world s) = concat (map (frame e' True) (numbered (request_bytes cd) t ks))"
  shows "\<exists>s1. serve_session e E fd i (Suc (length ks)) s = (Inr Remove_this, s1) \<and>
    ss_outbound (sess (sv_world s1)) = fold (\<lambda>m f. socket_handler_message e send f m)
      (numbered (response_bytes cd) t ks) (ss_outbound (sess (sv_world s))) \<and>
    ss_disconnect_calls (sess (sv_world s1)) = ss_disconnect_calls (sess (sv_world s)) +
      (if ss_disconnect_handler (sess (sv_world s)) then 1 else 0)"
proof -
  let ?ms = "numbered (request_bytes cd) t ks"
  let ?ch = "server_channel cd (socket_channel e send send_aux i)"
  obtain c where c: "deliver_all ?ch (sess (sv_world s)) ?ms = (None, c)"
      "ss_outbound c = fold (\<lambda>m f. socket_handler_message e send f m)
        (numbered (response_bytes cd) t ks) (ss_outbound (sess (sv_world s)))"
      "ss_disconnect_handler c = ss_disconnect_handler (sess (sv_world s))"
      "ss_disconnect_calls c = ss_disconnect_calls (sess (sv_world s))"
    using server_answers_all [OF assms(1,2) socket_channel_takes] by blast
  have "then_disconnect ?ch (deliver_all ?ch (sess (sv_world s)) ?ms) = (None, server_disconnect c)"
    using c(1) by (simp add: server_channel_def)
  from serve_session_frames [OF assms(4,5,6,3) this, of e] c(2-4)
  show ?thesis by (auto simp: server_disconnect_def)
qed

section \<open>The client's side\<close>

lemma socket_client_calls_back:
  assumes "codec_ok cd" and "\<forall>k \<in> set ks. int32 (cl_response k) \<and>
      smap_lookup (cs_message_callbacks c) (cl_response k) = None"
    and "client_inv c" and "awaits_all c t ks"
    and "\<forall>m \<in> set (numbered (response_bytes cd) t ks). length m < 2 ^ 32"
    and "byte_source recv avail"
    and "avail r = concat (map (frame e True) (numbered (response_bytes cd) t ks))"
  shows "\<exists>c' rest. socket_client_thread e (client_channel cd) recv r c = Some (None, rest, c') \<and>
    cs_calls c' = cs_calls c @ map (\<lambda>k. (cl_callback k, cl_body k)) ks"
proof -
  let ?ms = "numbered (response_bytes cd) t ks"
  obtain c1 where c1: "deliver_all (client_channel cd) c ?ms = (None, c1)"
      "cs_calls c1 = cs_calls c @ map (\<lambda>k. (cl_callback k, cl_body k)) ks"
    using client_called_back [OF assms(1-4)] by blast
  from socket_client_thread_frames [OF assms(6,7,5), where ch = "client_channel cd" and c = c] c1
  show ?thesis by (auto simp: client_channel_def client_disconnect_def)
qed

end
