(* ===== verification/Socket_Stop.thy ===== *)
theory Socket_Stop
  imports Socket_Sessions
begin

text \<open>
  How the thread of the socket server ends (\<^verbatim>\<open>server::~server\<close> and \<^verbatim>\<open>server::worker\<close> of
  \<^verbatim>\<open>src/server_endpoint_sockets.cpp\<close>): the destructor sends zero on the auxiliary connection and joins
  the thread. Here a turn may have to wait, since \<^verbatim>\<open>recv\<close> with \<^verbatim>\<open>MSG_WAITALL\<close> does for all the bytes it
  is asked for, and between two turns the outside world may change.
\<close>

section \<open>Turns that wait\<close>

text \<open>
  \<open>avail\<close> are the bytes that can be received from a socket, \<open>shut\<close> says that there will be no more.
\<close>

definition recv_waits :: "bool \<Rightarrow> bytes \<Rightarrow> nat \<Rightarrow> bool" where
  "recv_waits closed pending n \<longleftrightarrow> length pending < n \<and> \<not> closed"

definition turn_waits ::
  "endian \<Rightarrow> 'w env \<Rightarrow> ('w \<Rightarrow> int \<Rightarrow> bytes) \<Rightarrow> ('w \<Rightarrow> int \<Rightarrow> bool) \<Rightarrow> 'w server \<Rightarrow> bool" where
  "turn_waits e E avail shut s =
     (case sv_pc s of
        Visiting fds k \<Rightarrow>
          k < length (sv_handlers s) \<and> sh_socket (sv_handlers s ! k) \<in> set fds \<and>
          (let c = sh_socket (sv_handlers s ! k); w = sv_world s
           in case sh_handler (sv_handlers s ! k) of
                Handle_session _ \<Rightarrow> recv_waits (shut w c) (avail w c) 4 \<or>
                  (case recv_scalar e E w c Msg_waitall of
                     (r, sz, w1) \<Rightarrow> r > 0 \<and> recv_waits (shut w c) (avail w1 c) (unat sz))
              | Handle_aux \<Rightarrow> recv_waits (shut w c) (avail w c) 4
              | _ \<Rightarrow> False)
      | _ \<Rightarrow> False)"

text \<open>
  A run of the thread: \<open>W n\<close> is the world as its \<open>n\<close>-th turn finds it. A turn that waits leaves
  everything as it is.
\<close>

definition found :: "(nat \<Rightarrow> 'w) \<Rightarrow> (nat \<Rightarrow> 'w server) \<Rightarrow> nat \<Rightarrow> 'w server" where
  "found W S n = S n\<lparr>sv_world := W n\<rparr>"

definition thread_run ::
  "endian \<Rightarrow> 'w env \<Rightarrow> ('w \<Rightarrow> int \<Rightarrow> bytes) \<Rightarrow> ('w \<Rightarrow> int \<Rightarrow> bool) \<Rightarrow>
   (nat \<Rightarrow> 'w) \<Rightarrow> (nat \<Rightarrow> 'w server) \<Rightarrow> bool" where
  "thread_run e E avail shut W S \<longleftrightarrow>
     (\<forall>n. S (Suc n) =
        (if turn_waits e E avail shut (found W S n) then found W S n else server_turn e E (found W S n)))"

section \<open>A message that is not completed\<close>

text \<open>The bytes of a connection that are less than a header or less than what it announces.\<close>

definition partial_message :: "endian \<Rightarrow> bytes \<Rightarrow> bool" where
  "partial_message e bs \<longleftrightarrow> length bs < 4 \<or> length bs - 4 < header_value e True (take 4 bs)"

lemma recv_scalar_stream_any:
  assumes "recv_stream E fd avail" and "4 \<le> length (avail w)"
  shows "\<exists>w'. recv_scalar e E w fd Msg_waitall =
      (4, word_of_nat (header_value e True (take 4 (avail w))), w') \<and> avail w' = drop 4 (avail w)"
proof -
  obtain w' where w': "env_recv E w fd 4 Msg_waitall = ((int (length (take 4 (avail w))), take 4 (avail w)), w')"
      "avail w' = drop 4 (avail w)"
    using recv_streamD [OF assms(1)] by blast
  moreover have "overwrite (store_value e 4 x) (take 4 (avail w)) = take 4 (avail w)" for x
    using assms(2) by (intro overwrite_whole) simp
  ultimately show ?thesis using assms(2) by (simp add: recv_scalar_def header_value_def)
qed

lemma partial_message_waits:
  assumes "recv_stream E c (\<lambda>w. avail w c)" and "partial_message e (avail (sv_world s) c)"
    and "\<not> shut (sv_world s) c" and "sv_pc s = Visiting fds k" and "k < length (sv_handlers s)"
    and "sv_handlers s ! k = \<lparr>sh_id = i, sh_handler = Handle_session j, sh_socket = c\<rparr>" and "c \<in> set fds"
  shows "turn_waits e E avail shut s"
proof (cases "length (avail (sv_world s) c) < 4")
  case True
  with assms show ?thesis by (simp add: turn_waits_def recv_waits_def)
next
  case False
  then obtain w1 where w1: "recv_scalar e E (sv_world s) c Msg_waitall =
      (4, word_of_nat (header_value e True (take 4 (avail (sv_world s) c))), w1)"
      "avail w1 c = drop 4 (avail (sv_world s) c)"
    using recv_scalar_stream_any [OF assms(1), of "sv_world s" e] by auto
  have "header_value e True (take 4 (avail (sv_world s) c)) < 256 ^ 4"
    using load_value_less [of e "reorder e (take 4 (avail (sv_world s) c))"] False
    by (simp add: header_value_def)
  then have "unat (word_of_nat (header_value e True (take 4 (avail (sv_world s) c))) :: u32) =
      header_value e True (take 4 (avail (sv_world s) c))"
    by (intro unat_of_nat_small) simp
  with w1 False assms show ?thesis
    by (auto simp: turn_waits_def recv_waits_def partial_message_def Let_def)
qed

text \<open>As long as nothing more comes on that connection, the thread stays where it is.\<close>

lemma thread_stalls:
  assumes run: "thread_run e E avail shut W S"
    and "recv_stream E c (\<lambda>w. avail w c)" and "sv_pc (S m) = Visiting fds k" and "k < length (sv_handlers (S m))"
    and "sv_handlers (S m) ! k = \<lparr>sh_id = i, sh_handler = Handle_session j, sh_socket = c\<rparr>" and "c \<in> set fds"
    and "partial_message e (avail (sv_world (S m)) c)"
    and quiet: "\<And>n. m \<le> n \<Longrightarrow> avail (W n) c = avail (sv_world (S n)) c \<and> \<not> shut (W n) c"
  shows "m \<le> n \<Longrightarrow> \<exists>w. S n = S m\<lparr>sv_world := w\<rparr> \<and> avail w c = avail (sv_world (S m)) c"
proof (induction n rule: dec_induct)
  case base
  show ?case by (intro exI [of _ "sv_world (S m)"]) simp
next
  case (step n)
  then obtain w where w: "S n = S m\<lparr>sv_world := w\<rparr>" "avail w c = avail (sv_world (S m)) c" by blast
  have "turn_waits e E avail shut (found W S n)"
    by (rule partial_message_waits [where avail = avail and c = c, OF assms(2)]) (use assms(3-7) w quiet [OF step(1)] in \<open>simp_all add: found_def\<close>)
  then have "S (Suc n) = found W S n" using run by (simp add: thread_run_def)
  with w quiet [OF step(1)] show ?case by (intro exI [of _ "W n"]) (simp add: found_def)
qed

section \<open>What is sent on the auxiliary connection\<close>

text \<open>
  What the outside world does to the bytes of the auxiliary connection, with socket \<open>fd\<close>: no call
  takes any away but a \<^verbatim>\<open>recv\<close> on it; sessions may add to them. No other connection gets its descriptor
  while there are some. And \<^verbatim>\<open>select\<close> reports it when there are some.
\<close>

definition leaves_alone :: "'w env \<Rightarrow> int \<Rightarrow> ('w \<Rightarrow> bytes) \<Rightarrow> bool" where
  "leaves_alone E fd pending \<longleftrightarrow>
     (\<forall>w s. prefix (pending w) (pending (snd (env_setsockopt E w s)))) \<and>
     (\<forall>w s. pending w \<noteq> [] \<longrightarrow> fst (env_accept E w s) \<noteq> fd) \<and>
     (\<forall>w s. prefix (pending w) (pending (snd (env_accept E w s)))) \<and>
     (\<forall>w s. s \<noteq> fd \<longrightarrow> prefix (pending w) (pending (env_close E w s))) \<and>
     (\<forall>w s n opt. s \<noteq> fd \<longrightarrow> prefix (pending w) (pending (snd (env_recv E w s n opt)))) \<and>
     (\<forall>w i w'. env_create_session E w i = Inr w' \<longrightarrow> prefix (pending w) (pending w')) \<and>
     (\<forall>w i m w'. env_session_message E w i m = Inr w' \<longrightarrow> prefix (pending w) (pending w')) \<and>
     (\<forall>w i. prefix (pending w) (pending (env_session_disconnect E w i))) \<and>
     (\<forall>w i. prefix (pending w) (pending (env_session_release E w i))) \<and>
     (\<forall>w fds. prefix (pending w) (pending (snd (env_select E w fds))))"

definition reports :: "'w env \<Rightarrow> int \<Rightarrow> ('w \<Rightarrow> bytes) \<Rightarrow> bool" where
  "reports E fd pending \<longleftrightarrow> (\<forall>w fds. pending w \<noteq> [] \<longrightarrow> fd \<in> set fds \<longrightarrow>
     0 \<le> fst (fst (env_select E w fds)) \<longrightarrow> fd \<in> set (snd (fst (env_select E w fds))))"

text \<open>
  A handler at a position of the list, where no other handler is \<open>P\<close>; so the auxiliary handler, the
  only one of its kind and the only one with its socket.
\<close>

definition sole_at :: "(socket_handler \<Rightarrow> bool) \<Rightarrow> socket_handler \<Rightarrow> socket_handler list \<Rightarrow> nat \<Rightarrow> bool" where
  "sole_at P h hs j \<longleftrightarrow> j < length hs \<and> hs ! j = h \<and> (\<forall>l < length hs. l \<noteq> j \<longrightarrow> \<not> P (hs ! l))"

lemma sole_at_append: "sole_at P h hs j \<Longrightarrow> \<not> P g \<Longrightarrow> sole_at P h (hs @ [g]) j"
  by (auto simp: sole_at_def nth_append less_Suc_eq)

lemma sole_at_erase:
  assumes "sole_at P h hs j" and "k \<noteq> j" and "k < length hs"
  shows "sole_at P h (take k hs @ drop (Suc k) hs) (if k < j then j - 1 else j)"
proof -
  have nth: "(take k hs @ drop (Suc k) hs) ! l = hs ! (if l < k then l else Suc l)"
    if "l < length hs - 1" for l
    using that assms(3) by (simp add: nth_append)
  show ?thesis
    using assms unfolding sole_at_def by (auto simp: nth split: if_splits)
qed

definition aux_at :: "int \<Rightarrow> u32 \<Rightarrow> socket_handler list \<Rightarrow> nat \<Rightarrow> bool" where
  "aux_at fd a hs j \<longleftrightarrow> sole_at (\<lambda>h. sh_handler h = Handle_aux \<or> sh_socket h = fd)
     \<lparr>sh_id = a, sh_handler = Handle_aux, sh_socket = fd\<rparr> hs j"

lemma aux_at_eq:
  "aux_at fd a hs j \<longleftrightarrow>
     j < length hs \<and> hs ! j = \<lparr>sh_id = a, sh_handler = Handle_aux, sh_socket = fd\<rparr> \<and>
     (\<forall>l < length hs. l \<noteq> j \<longrightarrow> sh_handler (hs ! l) \<noteq> Handle_aux \<and> sh_socket (hs ! l) \<noteq> fd)"
  by (simp add: aux_at_def sole_at_def)

lemma aux_at_append:
  "aux_at fd a hs j \<Longrightarrow> sh_handler h \<noteq> Handle_aux \<Longrightarrow> sh_socket h \<noteq> fd \<Longrightarrow> aux_at fd a (hs @ [h]) j"
  by (simp add: aux_at_def sole_at_append)

lemma aux_at_erase:
  assumes "aux_at fd a hs j" and "k \<noteq> j" and "k < length hs"
  shows "aux_at fd a (take k hs @ drop (Suc k) hs) (if k < j then j - 1 else j)"
  using sole_at_erase [OF assms(1) [unfolded aux_at_def] assms(2,3)] by (simp add: aux_at_def)

text \<open>Messages on it are ids; that of no handler at all, zero, comes from the destructor.\<close>

definition id_message :: "u32 \<Rightarrow> bytes" where
  "id_message i = network_bytes 4 (unat i)"

definition stopping :: "int \<Rightarrow> u32 \<Rightarrow> ('w \<Rightarrow> bytes) \<Rightarrow> u32 list \<Rightarrow> 'w server \<Rightarrow> bool" where
  "stopping fd a pending ids s \<longleftrightarrow>
     server_inv s \<and> (\<exists>j. aux_at fd a (sv_handlers s) j) \<and> a \<notin> set ids \<and>
     prefix (concat (map id_message (ids @ [0]))) (pending (sv_world s)) \<and>
     (sv_pc s = Selecting \<or> (\<exists>fds k. sv_pc s = Visiting fds k))"

text \<open>
  How far the thread is from reading the next id: in a pass that will get to the auxiliary handler,
  before the \<^verbatim>\<open>select\<close>, or in a pass that will not.
\<close>

definition aux_stage :: "int \<Rightarrow> u32 \<Rightarrow> 'w server \<Rightarrow> nat" where
  "aux_stage fd a s = (case sv_pc s of
       Selecting \<Rightarrow> 1
     | Visiting fds k \<Rightarrow> if fd \<in> set fds \<and> (\<exists>j. aux_at fd a (sv_handlers s) j \<and> k \<le> j) then 0 else 2
     | _ \<Rightarrow> 0)"

definition stop_less ::
    "int \<Rightarrow> u32 \<Rightarrow> u32 list \<Rightarrow> 'w server \<Rightarrow> u32 list \<Rightarrow> 'w server \<Rightarrow> bool" where
  "stop_less fd a ids' t ids s \<longleftrightarrow>
     ((length ids', aux_stage fd a t, pass_left t), (length ids, aux_stage fd a s, pass_left s))
       \<in> less_than <*lex*> less_than <*lex*> less_than"

section \<open>Turns that leave the auxiliary connection alone\<close>

lemma leaves_aloneD:
  assumes "leaves_alone E fd pending"
  shows "prefix (pending w) (pending (snd (env_setsockopt E w s)))"
    and "pending w \<noteq> [] \<Longrightarrow> fst (env_accept E w s) \<noteq> fd"
    and "prefix (pending w) (pending (snd (env_accept E w s)))"
    and "s \<noteq> fd \<Longrightarrow> prefix (pending w) (pending (env_close E w s))"
    and "s \<noteq> fd \<Longrightarrow> prefix (pending w) (pending (snd (env_recv E w s n opt)))"
    and "env_create_session E w i = Inr w' \<Longrightarrow> prefix (pending w) (pending w')"
    and "env_session_message E w i m = Inr w' \<Longrightarrow> prefix (pending w) (pending w')"
    and "prefix (pending w) (pending (env_session_disconnect E w i))"
    and "prefix (pending w) (pending (env_session_release E w i))"
    and "prefix (pending w) (pending (snd (env_select E w fds)))"
  using assms unfolding leaves_alone_def by (elim conjE; simp; fail | elim conjE; blast)+

lemma socket_handle_reset_alone:
  "leaves_alone E fd pending \<Longrightarrow> s \<noteq> fd \<Longrightarrow> prefix (pending w) (pending (socket_handle_reset E s w))"
  by (simp add: socket_handle_reset_def leaves_aloneD(4))

lemma recv_scalar_alone:
  "leaves_alone E fd pending \<Longrightarrow> s \<noteq> fd \<Longrightarrow> recv_scalar e E w s opt = (r, x, w1) \<Longrightarrow>
   prefix (pending w) (pending w1)"
  using leaves_aloneD(5) [of E fd pending s w 4 opt] recv_scalar_world [of e E w s opt] by simp

lemma accept_connection_alone:
  assumes alone: "leaves_alone E fd pending" and bytes: "pending (sv_world s) \<noteq> []"
    and acc: "accept_connection E s0 s = (r, s1)"
  shows "prefix (pending (sv_world s)) (pending (sv_world s1))" and "r \<noteq> Inr fd"
proof -
  obtain c w1 where c: "env_accept E (sv_world s) s0 = (c, w1)" by (cases "env_accept E (sv_world s) s0")
  then have fd: "c \<noteq> fd" and w1: "prefix (pending (sv_world s)) (pending w1)"
    using leaves_aloneD(2,3) [OF alone, of "sv_world s" s0] bytes by simp_all
  obtain x w2 where x: "setup_socket E c w1 = (x, w2)" by (cases "setup_socket E c w1")
  then have w2: "prefix (pending w1) (pending w2)"
    using leaves_aloneD(1) [OF alone, of w1 c] by (auto simp: setup_socket_def split: prod.splits)
  note steps = prefix_order.trans [OF w1 w2] prefix_order.trans [OF w2 socket_handle_reset_alone [OF alone fd]]
  show "prefix (pending (sv_world s)) (pending (sv_world s1))" and "r \<noteq> Inr fd"
    using acc c x fd w1 steps prefix_order.trans [OF w1 steps(2)]
    by (auto simp: accept_connection_def socket_handle_ctor_def split: if_splits option.splits)
qed

lemma accept_regular_alone:
  assumes alone: "leaves_alone E fd pending" and bytes: "pending (sv_world s) \<noteq> []"
    and acc: "accept_regular E s0 s = (r, s1)"
  shows "prefix (pending (sv_world s)) (pending (sv_world s1)) \<and> sv_pc s1 = sv_pc s \<and>
    (sv_handlers s1 = sv_handlers s \<or>
      (\<exists>h. sv_handlers s1 = sv_handlers s @ [h] \<and> sh_handler h \<noteq> Handle_aux \<and> sh_socket h \<noteq> fd)) \<and>
    ((\<exists>x. r = Inl x) \<or> r = Inr Proceed)"
proof -
  obtain r0 s2 where con: "accept_connection E s0 s = (r0, s2)" by (cases "accept_connection E s0 s")
  then obtain w where s2: "s2 = s\<lparr>sv_world := w\<rparr>" using accept_connection_frame by blast
  note con_alone = accept_connection_alone [OF alone bytes con]
  show ?thesis
  proof (cases r0)
    case (Inl x)
    then show ?thesis using acc con con_alone(1) s2 by (auto simp: accept_regular_def)
  next
    case (Inr c)
    then have "c \<noteq> fd" using con_alone(2) by blast
    note reset = socket_handle_reset_alone [OF alone this, of w]
    show ?thesis
    proof (cases "env_create_session E w (sv_next_id s)")
      case (Inl x)
      then show ?thesis
        using acc con Inr con_alone(1) s2 prefix_order.trans [OF _ reset, of "pending (sv_world s)"]
        by (auto simp: accept_regular_def Let_def)
    next
      case (Inr w')
      note made = leaves_aloneD(6) [OF alone Inr]
      show ?thesis
        using acc con \<open>r0 = Inr c\<close> \<open>c \<noteq> fd\<close> con_alone(1) s2 Inr
          prefix_order.trans [OF _ made, of "pending (sv_world s)"]
        by (auto simp: accept_regular_def Let_def)
    qed
  qed
qed

lemma accept_regular_kept:
  assumes "leaves_alone E fd pending" and "accept_regular E s0 s = (r, s1)"
  shows "prefix (pending (sv_world s)) (pending (sv_world s1)) \<and> ((\<exists>x. r = Inl x) \<or> r = Inr Proceed)"
proof (cases "pending (sv_world s) = []")
  case True
  with assms(2) show ?thesis by (auto simp: accept_regular_def Let_def split: prod.splits sum.splits)
next
  case False
  from accept_regular_alone [OF assms(1) this assms(2)] show ?thesis by blast
qed

lemma handle_session_alone:
  assumes alone: "leaves_alone E fd pending" and c: "c \<noteq> fd" and run: "handle_session e E c i s = (r, s1)"
  shows "prefix (pending (sv_world s)) (pending (sv_world s1)) \<and> sv_pc s1 = sv_pc s \<and>
    sv_handlers s1 = sv_handlers s \<and> r \<noteq> Inr Exit"
proof -
  obtain n sz w1 where w1: "recv_scalar e E (sv_world s) c Msg_waitall = (n, sz, w1)"
    using prod_cases3 by blast
  obtain l data w2 where w2: "env_recv E w1 c (unat sz) Msg_waitall = ((l, data), w2)"
    by (metis prod.collapse)
  have p1: "prefix (pending (sv_world s)) (pending w1)" by (rule recv_scalar_alone [OF alone c w1])
  have p2: "prefix (pending w1) (pending w2)"
    using leaves_aloneD(5) [OF alone c, of w1 "unat sz" Msg_waitall] w2 by simp
  show ?thesis
    using run w1 w2 prefix_order.trans [OF p1 p2] prefix_order.trans [OF p1 leaves_aloneD(8) [OF alone]]
      prefix_order.trans [OF prefix_order.trans [OF p1 p2] leaves_aloneD(7) [OF alone]]
    by (auto simp: handle_session_def Let_def split: if_splits sum.splits)
qed

lemma erase_handler_alone:
  assumes "leaves_alone E fd pending" and "sh_socket (sv_handlers s ! k) \<noteq> fd"
  shows "prefix (pending (sv_world s)) (pending (sv_world (erase_handler E k s)))"
proof -
  let ?h = "sv_handlers s ! k"
  let ?s = "s\<lparr>sv_handlers := take k (sv_handlers s) @ drop (Suc k) (sv_handlers s)\<rparr>"
  have "prefix (pending (sv_world s)) (pending (sv_world (release_handler E (sh_handler ?h) ?s)))"
    using leaves_aloneD(9) [OF assms(1)] by (simp add: release_handler_def split: handler_fn.split)
  from prefix_order.trans [OF this socket_handle_reset_alone [OF assms]]
  show ?thesis by (simp add: erase_handler_def socket_handler_dtor_def Let_def)
qed

section \<open>Every turn gets the thread closer to its end\<close>

lemma stopping_regular: "stopping fd a pending ids s \<Longrightarrow> regular_kinds (sv_handlers s)"
proof -
  assume stop: "stopping fd a pending ids s"
  then obtain j where "aux_at fd a (sv_handlers s) j" and inv: "server_inv s" and "sv_pc s \<noteq> Ended"
    by (auto simp: stopping_def)
  then have "\<not> preinit_kinds (sv_handlers s)"
    using preinit_kinds_nth [of "sv_handlers s" j] by (auto simp: aux_at_eq)
  with inv \<open>sv_pc s \<noteq> Ended\<close> show ?thesis by (simp add: server_inv_def)
qed

lemma stop_less_pass:
  assumes "aux_stage fd a t \<le> aux_stage fd a s" and "pass_left t < pass_left s"
  shows "stop_less fd a ids t ids s"
  using assms by (auto simp: stop_less_def)

lemma stop_less_stage: "aux_stage fd a t < aux_stage fd a s \<Longrightarrow> stop_less fd a ids t ids s"
  by (simp add: stop_less_def)

lemma aux_stage_Visiting:
  "sv_pc s = Visiting fds k \<Longrightarrow> aux_at fd a (sv_handlers s) j \<Longrightarrow>
   aux_stage fd a s = (if fd \<in> set fds \<and> k \<le> j then 0 else 2)"
  by (auto simp: aux_stage_def aux_at_eq)

lemma stopping_select:
  assumes stop: "stopping fd a pending ids s" and alone: "leaves_alone E fd pending" and rep: "reports E fd pending"
    and pc: "sv_pc s = Selecting" and next_id: "sv_next_id s \<noteq> - 1"
    and goes_on: "sv_pc (server_turn e E s) \<notin> {Ended, Fd_set_overrun}"
  shows "stopping fd a pending ids (server_turn e E s) \<and> stop_less fd a ids (server_turn e E s) ids s"
proof -
  let ?fds = "map sh_socket (sv_handlers s)"
  obtain r ready w1 where sel: "env_select E (sv_world s) ?fds = ((r, ready), w1)" by (metis prod.collapse)
  have fit: "fits_fd_set ?fds" 
  proof (rule ccontr)
    assume "\<not> fits_fd_set ?fds"
    with goes_on pc show False by (simp add: server_turn_def)
  qed
  then have r: "0 \<le> r" 
    using goes_on pc sel by (cases "r < 0") (simp_all add: server_turn_def)
  with fit pc sel have turn: "server_turn e E s = s\<lparr>sv_world := w1, sv_pc := Visiting ready 0\<rparr>"
    by (simp add: server_turn_def)
  from stop obtain j where j: "aux_at fd a (sv_handlers s) j" by (auto simp: stopping_def)
  have front: "prefix (concat (map id_message (ids @ [0]))) (pending (sv_world s))"
    using stop by (simp add: stopping_def)
  then have "pending (sv_world s) \<noteq> []" by (auto simp: id_message_def network_bytes_def)
  moreover have "fd \<in> set ?fds" using j nth_mem [of j "sv_handlers s"] by (force simp: aux_at_eq)
  ultimately have "fd \<in> set ready" using rep sel r unfolding reports_def by (metis fst_conv snd_conv)
  moreover have more: "prefix (pending (sv_world s)) (pending w1)"
    using leaves_aloneD(10) [OF alone, of "sv_world s" ?fds] sel by simp
  ultimately have "aux_stage fd a (server_turn e E s) = 0" using j by (auto simp: turn aux_stage_def)
  then have "stop_less fd a ids (server_turn e E s) ids s"
    using pc by (intro stop_less_stage) (simp add: aux_stage_def)
  moreover have "stopping fd a pending ids (server_turn e E s)"
    using server_turn_inv [of s e E] stop next_id j prefix_order.trans [OF front more]
    by (auto simp: turn stopping_def)
  ultimately show ?thesis by blast
qed

lemma stopping_pass_by:
  assumes stop: "stopping fd a pending ids s" and pc: "sv_pc s = Visiting fds k"
    and "\<not> (k < length (sv_handlers s) \<and> sh_socket (sv_handlers s ! k) \<in> set fds)"
    and goes_on: "sv_pc (server_turn e E s) \<noteq> Fd_set_overrun"
  shows "stopping fd a pending ids (server_turn e E s) \<and> stop_less fd a ids (server_turn e E s) ids s"
proof -
  from stop obtain j where j: "aux_at fd a (sv_handlers s) j" and inv: "server_inv s"
    by (auto simp: stopping_def)
  have less: "pass_left (server_turn e E s) < pass_left s" by (rule server_turn_pass_left [OF inv pc])
  show ?thesis
  proof (cases "k < length (sv_handlers s)")
    case False
    then have turn: "server_turn e E s = s\<lparr>sv_pc := Selecting\<rparr>" using pc by (simp add: server_turn_def)
    have "aux_stage fd a s = 2" using j False by (simp add: aux_stage_Visiting [OF pc j] aux_at_eq)
    then show ?thesis
      using stop by (auto simp: turn stopping_def server_inv_def aux_stage_def intro!: stop_less_stage)
  next
    case True
    then have turn: "server_turn e E s = s\<lparr>sv_pc := Visiting fds (Suc k)\<rparr>"
      using pc assms(3) goes_on by (auto simp: server_turn_def split: if_splits)
    have "k \<noteq> j" if "fd \<in> set fds" using that j True assms(3) by (auto simp: aux_at_eq)
    then have "aux_stage fd a (server_turn e E s) \<le> aux_stage fd a s"
      using aux_stage_Visiting [OF pc j] aux_stage_Visiting [of "server_turn e E s" fds "Suc k" fd a j] j
      by (auto simp: turn)
    with less stop_less_pass show ?thesis using stop by (auto simp: turn stopping_def server_inv_def)
  qed
qed

lemma stopping_other:
  assumes stop: "stopping fd a pending ids s" and alone: "leaves_alone E fd pending"
    and pc: "sv_pc s = Visiting fds k" and k: "k < length (sv_handlers s)"
    and ready: "sh_socket (sv_handlers s ! k) \<in> set fds" and next_id: "sv_next_id s \<noteq> - 1"
    and other: "\<not> aux_at fd a (sv_handlers s) k"
    and goes_on: "sv_pc (server_turn e E s) \<noteq> Ended"
  shows "stopping fd a pending ids (server_turn e E s) \<and> stop_less fd a ids (server_turn e E s) ids s"
proof -
  let ?h = "sv_handlers s ! k" and ?t = "server_turn e E s"
  from stop obtain j where j: "aux_at fd a (sv_handlers s) j" and inv: "server_inv s"
    and front: "prefix (concat (map id_message (ids @ [0]))) (pending (sv_world s))"
    by (auto simp: stopping_def)
  have bytes: "pending (sv_world s) \<noteq> []" using front by (auto simp: id_message_def network_bytes_def)
  have kj: "k \<noteq> j" using j other by blast
  then have h: "sh_handler ?h \<noteq> Handle_aux" "sh_socket ?h \<noteq> fd" using j k by (auto simp: aux_at_eq)
  have not_pre: "\<not> preinit_fn (sh_handler ?h)" using regular_kinds_nth [OF stopping_regular [OF stop] k] .
  obtain r s1 where run: "run_handler e E k s = (r, s1)" by (cases "run_handler e E k s")
  have kept_all: "prefix (pending (sv_world s)) (pending (sv_world s1)) \<and> sv_pc s1 = sv_pc s \<and> r \<noteq> Inr Exit \<and>
      aux_at fd a (sv_handlers s1) j \<and> (r = Inr Remove_this \<longrightarrow> sv_handlers s1 = sv_handlers s)"
  proof (cases "sh_handler ?h")
    case Accept_regular
    then have "accept_regular E (sh_socket ?h) s = (r, s1)" using run by (simp add: run_handler_def)
    from accept_regular_alone [OF alone bytes this] j aux_at_append [OF j] show ?thesis by auto
  next
    case (Handle_session i)
    then have "handle_session e E (sh_socket ?h) i s = (r, s1)" using run by (simp add: run_handler_def)
    from handle_session_alone [OF alone h(2) this] j show ?thesis by simp
  qed (use h not_pre in simp_all)
  then have kept: "prefix (pending (sv_world s)) (pending (sv_world s1))" "sv_pc s1 = sv_pc s" "r \<noteq> Inr Exit"
      "aux_at fd a (sv_handlers s1) j" "r = Inr Remove_this \<longrightarrow> sv_handlers s1 = sv_handlers s"
    by simp_all
  have turn: "?t = (case r of Inr Proceed \<Rightarrow> s1\<lparr>sv_pc := Visiting fds (Suc k)\<rparr>
      | Inr Remove_this \<Rightarrow> erase_handler E k s1 | _ \<Rightarrow> s1\<lparr>sv_pc := Ended\<rparr>)"
    using server_turn_visit [OF pc k ready, of e E] run kept(2) pc by (simp split: sum.split status.split)
  have left: "pass_left ?t < pass_left s" by (rule server_turn_pass_left [OF inv pc])
  have inv_t: "server_inv ?t" by (rule server_turn_inv [OF inv next_id])
  consider "r = Inr Proceed" | "r = Inr Remove_this"
    using goes_on kept(3) turn by (cases r; cases "projr r") auto
  then show ?thesis
  proof cases
    case 1
    then have t: "?t = s1\<lparr>sv_pc := Visiting fds (Suc k)\<rparr>" by (simp add: turn)
    have "aux_stage fd a ?t \<le> aux_stage fd a s"
      using aux_stage_Visiting [OF pc j] aux_stage_Visiting [of ?t fds "Suc k" fd a j] kept(4) kj
      by (auto simp: t)
    with left stop_less_pass have "stop_less fd a ids ?t ids s" by blast
    then show ?thesis
      using stop inv_t kept(4) prefix_order.trans [OF front kept(1)] by (auto simp: stopping_def t)
  next
    case 2
    let ?j = "if k < j then j - 1 else j"
    from 2 have t: "?t = erase_handler E k s1" by (simp add: turn)
    have hs: "sv_handlers s1 = sv_handlers s" using kept(5) 2 by blast
    have j': "aux_at fd a (sv_handlers ?t) ?j" using aux_at_erase [OF j kj k] by (simp add: t hs)
    have pc': "sv_pc ?t = Visiting fds k" using kept(2) pc by (simp add: t)
    have "aux_stage fd a ?t \<le> aux_stage fd a s"
      using aux_stage_Visiting [OF pc j] aux_stage_Visiting [OF pc' j'] kj by auto
    with left stop_less_pass have "stop_less fd a ids ?t ids s" by blast
    moreover have "prefix (pending (sv_world s1)) (pending (sv_world ?t))"
      using erase_handler_alone [OF alone, of s1 k] h(2) by (simp add: t hs)
    then have "prefix (concat (map id_message (ids @ [0]))) (pending (sv_world ?t))"
      using prefix_order.trans [OF front kept(1)] prefix_order.trans by blast
    ultimately show ?thesis using stop inv_t j' pc' unfolding stopping_def by blast
  qed
qed

text \<open>The auxiliary handler itself: an id goes with its handler, zero ends the thread.\<close>

lemma stopping_aux:
  assumes stop: "stopping fd a pending ids s" and alone: "leaves_alone E fd pending"
    and recv: "recv_stream E fd pending" and pc: "sv_pc s = Visiting fds k"
    and ready: "sh_socket (sv_handlers s ! k) \<in> set fds" and next_id: "sv_next_id s \<noteq> - 1"
    and aux: "aux_at fd a (sv_handlers s) k" and goes_on: "sv_pc (server_turn e E s) \<noteq> Ended"
  shows "\<exists>ids'. stopping fd a pending ids' (server_turn e E s) \<and> stop_less fd a ids' (server_turn e E s) ids s"
proof -
  let ?t = "server_turn e E s"
  from aux have k: "k < length (sv_handlers s)" and h: "sh_handler (sv_handlers s ! k) = Handle_aux"
      "sh_socket (sv_handlers s ! k) = fd" "sh_id (sv_handlers s ! k) = a"
    by (simp_all add: aux_at_eq)
  have inv: "server_inv s" using stop by (simp add: stopping_def)
  obtain i rest_ids where i: "ids @ [0] = i # rest_ids" by (cases "ids @ [0]") auto
  then have "prefix (id_message i @ concat (map id_message rest_ids)) (pending (sv_world s))"
    using stop by (simp add: stopping_def)
  then obtain rest where "pending (sv_world s) = network_bytes 4 (unat i) @ concat (map id_message rest_ids) @ rest"
    by (auto simp: prefix_def id_message_def)
  moreover have "unat i < 2 ^ 32" using unsigned_less [of i, where 'a = nat] by simp
  ultimately obtain w1 where w1: "recv_scalar e E (sv_world s) fd Msg_waitall = (4, i, w1)"
      "pending w1 = concat (map id_message rest_ids) @ rest"
    using recv_scalar_stream [OF recv, of "sv_world s" "unat i" _ e] by auto
  have turn: "?t = (case find_handler i (sv_handlers s) of
       Some l \<Rightarrow> (erase_handler E l (s\<lparr>sv_world := w1\<rparr>))\<lparr>sv_pc := advance (erase_beside l (Visiting fds k))\<rparr>
     | None \<Rightarrow> s\<lparr>sv_world := w1, sv_pc := Ended\<rparr>)"
    using server_turn_aux [OF pc k h(1) ready] w1(1) h(2) by simp
  with goes_on obtain l where found: "find_handler i (sv_handlers s) = Some l"
    by (cases "find_handler i (sv_handlers s)") auto
  then have l: "l < length (sv_handlers s)" "sh_id (sv_handlers s ! l) = i" using find_handler_Some by blast+
  have "100 \<le> i" using server_inv_ids [OF inv, of "sv_handlers s ! l"] l by simp
  then have "i \<noteq> 0" by auto
  with i obtain ids' where ids: "ids = i # ids'" "rest_ids = ids' @ [0]" by (cases ids) auto
  with stop have "i \<noteq> a" by (auto simp: stopping_def)
  then have lk: "l \<noteq> k" using h(3) l(2) by blast
  then have socket: "sh_socket (sv_handlers s ! l) \<noteq> fd" using aux l(1) by (auto simp: aux_at_eq)
  obtain k' where t: "?t = (erase_handler E l (s\<lparr>sv_world := w1\<rparr>))\<lparr>sv_pc := Visiting fds k'\<rparr>"
    using turn found lk by (cases "l < k") auto
  have "prefix (concat (map id_message (ids' @ [0]))) (pending w1)" using w1(2) ids(2) by simp
  moreover have "prefix (pending w1) (pending (sv_world ?t))"
    using erase_handler_alone [OF alone, of "s\<lparr>sv_world := w1\<rparr>" l] socket by (simp add: t)
  ultimately have "prefix (concat (map id_message (ids' @ [0]))) (pending (sv_world ?t))"
    using prefix_order.trans by blast
  moreover have "server_inv ?t" by (rule server_turn_inv [OF inv next_id])
  moreover have "\<exists>j. aux_at fd a (sv_handlers ?t) j" using aux_at_erase [OF aux lk l(1)] by (auto simp: t)
  moreover have "a \<notin> set ids'" using stop ids by (simp add: stopping_def)
  moreover have "sv_pc ?t = Visiting fds k'" by (simp add: t)
  ultimately have "stopping fd a pending ids' ?t" unfolding stopping_def by blast
  moreover have "stop_less fd a ids' ?t ids s" by (simp add: stop_less_def ids(1))
  ultimately show ?thesis by blast
qed

lemma stopping_turn:
  assumes "stopping fd a pending ids s" and "leaves_alone E fd pending" and "recv_stream E fd pending"
    and "reports E fd pending" and "sv_next_id s \<noteq> - 1"
    and "sv_pc (server_turn e E s) \<notin> {Ended, Fd_set_overrun}"
  shows "\<exists>ids'. stopping fd a pending ids' (server_turn e E s) \<and> stop_less fd a ids' (server_turn e E s) ids s"
proof (cases "sv_pc s = Selecting")
  case True
  from stopping_select [OF assms(1,2,4) this assms(5,6)] show ?thesis by blast
next
  case False
  then obtain fds k where pc: "sv_pc s = Visiting fds k" using assms(1) by (auto simp: stopping_def)
  show ?thesis
  proof (cases "k < length (sv_handlers s) \<and> sh_socket (sv_handlers s ! k) \<in> set fds")
    case False
    from stopping_pass_by [OF assms(1) pc this] assms(6) show ?thesis by blast
  next
    case True
    then show ?thesis
      using stopping_other [OF assms(1,2) pc _ _ assms(5), of e] stopping_aux [OF assms(1-3) pc _ assms(5), of e]
        assms(6) by blast
  qed
qed

section \<open>The thread ends\<close>

lemma stopping_found:
  "stopping fd a pending ids s \<Longrightarrow> prefix (pending (sv_world s)) (pending w) \<Longrightarrow>
   stopping fd a pending ids (s\<lparr>sv_world := w\<rparr>)"
  by (auto simp: stopping_def server_inv_def dest: prefix_order.trans)

lemma aux_stage_world [simp]: "aux_stage fd a (s\<lparr>sv_world := w\<rparr>) = aux_stage fd a s"
  by (cases "sv_pc s") (simp_all add: aux_stage_def)

lemma pass_left_world [simp]: "pass_left (s\<lparr>sv_world := w\<rparr>) = pass_left s"
  by (cases "sv_pc s") (simp_all add: pass_left_def)

lemma stop_less_found: "stop_less fd a ids' t ids (s\<lparr>sv_world := w\<rparr>) \<longleftrightarrow> stop_less fd a ids' t ids s"
  by (simp add: stop_less_def)

lemma thread_stops:
  assumes run: "thread_run e E avail shut W S" and never: "\<And>n. \<not> turn_waits e E avail shut (found W S n)"
    and laws: "leaves_alone E fd (\<lambda>w. avail w fd)" "recv_stream E fd (\<lambda>w. avail w fd)"
      "reports E fd (\<lambda>w. avail w fd)"
    and more: "\<And>n. prefix (avail (sv_world (S n)) fd) (avail (W n) fd)"
    and "stopping fd a (\<lambda>w. avail w fd) ids (S m)"
  shows "\<exists>n. sv_pc (S n) \<in> {Ended, Fd_set_overrun} \<or> sv_next_id (S n) = - 1"
proof -
  have "wf (less_than <*lex*> less_than <*lex*> less_than)" by (intro wf_lex_prod wf_less_than)
  then show ?thesis
    using assms(7)
  proof (induction "(length ids, aux_stage fd a (S m), pass_left (S m))" arbitrary: ids m
      rule: wf_induct_rule)
  case (less ids m)
  have turn: "S (Suc m) = server_turn e E (found W S m)" using run never by (simp add: thread_run_def)
  show ?case
  proof (cases "sv_next_id (S m) = - 1 \<or> sv_pc (S (Suc m)) \<in> {Ended, Fd_set_overrun}")
    case False
    have "stopping fd a (\<lambda>w. avail w fd) ids (found W S m)"
      unfolding found_def by (rule stopping_found [OF less.prems more])
    from stopping_turn [OF this laws, of e] False obtain ids' where
      "stopping fd a (\<lambda>w. avail w fd) ids' (S (Suc m))" "stop_less fd a ids' (S (Suc m)) ids (S m)"
      by (auto simp: turn found_def stop_less_found)
    with less.hyps show ?thesis unfolding stop_less_def by blast
  qed blast
  qed
qed

section \<open>The destructor\<close>

lemma server_stop_stopping:
  assumes "server_inv s" and "aux_at fd a (sv_handlers s) j" and "a \<notin> set ids"
    and "sv_pc s = Selecting \<or> (\<exists>fds k. sv_pc s = Visiting fds k)"
    and "pending (sv_world s) = concat (map id_message ids)"
    and "\<And>w bs. pending (snd (env_send E w (sv_aux_socket s) bs)) = pending w @ bs"
  shows "stopping fd a pending ids (server_stop e E s)"
  using assms
  by (auto simp: stopping_def server_stop_def server_inv_def send_scalar_def id_message_def reorder_store_value)

text \<open>Runs that nobody disturbs: one with no turn that waits, and one that waits from the start.\<close>

lemma closed_never_waits: "\<not> turn_waits e E avail (\<lambda>w c. True) s"
  by (simp add: turn_waits_def recv_waits_def Let_def split: loop_pc.split handler_fn.split prod.split)

lemma thread_run_undisturbed:
  "thread_run e E avail (\<lambda>w c. True) (\<lambda>n. sv_world ((server_turn e E ^^ n) s)) (\<lambda>n. (server_turn e E ^^ n) s)"
  by (simp add: thread_run_def closed_never_waits found_def)

lemma thread_run_waiting:
  "turn_waits e E avail shut s \<Longrightarrow> thread_run e E avail shut (\<lambda>n. sv_world s) (\<lambda>n. s)"
  by (simp add: thread_run_def found_def)

section \<open>A session disconnects twice\<close>

text \<open>
  As long as a session is alive its outbound channel can be used, and each \<^verbatim>\<open>disconnect\<close> puts its id on the
  auxiliary connection. When it has been released the channel is gone.
\<close>

lemma outbound_live:
  assumes "server_inv s" and "session_phase i (sv_trace s) = Some Live"
  shows "outbound_disconnect e E i s =
      Some (s\<lparr>sv_world := socket_handler_disconnect e E (sv_aux_socket s) i (sv_world s)\<rparr>)"
    and "outbound_message e E i m s \<noteq> None"
proof -
  obtain h where "h \<in> set (sv_handlers s)" "sh_handler h = Handle_session i"
    using live_iff_handler(1) [OF assms(1), of i] assms(2) by blast
  moreover from this have "sh_id h = i" using assms(1) by (auto simp: server_inv_def handlers_fit_def ids_ok_def)
  ultimately have "find_handler i (sv_handlers s) \<noteq> None" by (auto simp: find_handler_None)
  then obtain k where k: "find_handler i (sv_handlers s) = Some k" by blast
  from find_handler_Some [OF k] k show "outbound_disconnect e E i s =
      Some (s\<lparr>sv_world := socket_handler_disconnect e E (sv_aux_socket s) i (sv_world s)\<rparr>)"
    by (simp add: outbound_disconnect_def)
  from k show "outbound_message e E i m s \<noteq> None" by (simp add: outbound_message_def)
qed

lemma outbound_gone:
  assumes "server_inv s" and "session_phase i (sv_trace s) = Some Gone"
  shows "outbound_disconnect e E i s = None" and "outbound_message e E i m s = None"
  using gone_has_no_handler [OF assms prefix_order.refl] by (simp_all add: outbound_disconnect_def outbound_message_def)

lemma socket_handler_disconnect_pending:
  assumes "\<And>w bs. pending (snd (env_send E w aux bs)) = pending w @ bs"
  shows "pending (socket_handler_disconnect e E aux i w) = pending w @ id_message i"
  using assms by (simp add: socket_handler_disconnect_def send_scalar_def id_message_def reorder_store_value)

lemma id_of_released_ends:
  assumes inv: "server_inv t" and gone: "session_phase i (sv_trace t) = Some Gone"
    and recv: "recv_stream E (sh_socket (sv_handlers t ! k)) pending" and pc: "sv_pc t = Visiting fds k"
    and k: "k < length (sv_handlers t)" "sh_handler (sv_handlers t ! k) = Handle_aux"
    and ready: "sh_socket (sv_handlers t ! k) \<in> set fds" and front: "prefix (id_message i) (pending (sv_world t))"
  shows "sv_pc ((server_turn e E ^^ Suc n) t) = Ended \<and> sv_trace ((server_turn e E ^^ Suc n) t) = sv_trace t"
proof -
  obtain rest where "pending (sv_world t) = network_bytes 4 (unat i) @ rest"
    using front by (auto simp: prefix_def id_message_def)
  moreover have "unat i < 2 ^ 32" using unsigned_less [of i] by simp
  ultimately obtain w1 where "recv_scalar e E (sv_world t) (sh_socket (sv_handlers t ! k)) Msg_waitall = (4, i, w1)"
    using recv_scalar_stream [OF recv, of "sv_world t" "unat i" rest e] by auto
  from gone_has_no_handler [OF inv gone prefix_order.refl] server_turn_aux [OF pc k ready this]
  have turn: "server_turn e E t = t\<lparr>sv_world := w1, sv_pc := Ended\<rparr>" by simp
  then have "(server_turn e E ^^ n) (server_turn e E t) = server_turn e E t"
    by (intro server_turns_ended) simp
  then show ?thesis unfolding funpow_Suc_right o_apply by (simp add: turn)
qed

section \<open>A world in which this can be tried\<close>

text \<open>The bytes that can be received from each socket.\<close>

definition sockets_env :: "(int \<Rightarrow> bytes) env" where
  "sockets_env = \<lparr>
     env_socket = (\<lambda>w. (3, w)), env_setsockopt = (\<lambda>w s. (0, w)), env_bind = (\<lambda>w s a. (0, w)),
     env_listen = (\<lambda>w s n. (0, w)), env_connect = (\<lambda>w s a. (0, w)), env_ioctl = (\<lambda>w s. w),
     env_accept = (\<lambda>w s. (- 1, w)), env_close = (\<lambda>w s. w(s := [])),
     env_recv = (\<lambda>w s n opt. ((int (length (take n (w s))), take n (w s)),
       if opt = Msg_peek then w else w(s := drop n (w s)))),
     env_send = (\<lambda>w s bs. (int (length bs), w(s + 1 := w (s + 1) @ bs))),
     env_select = (\<lambda>w fds. ((1, filter (\<lambda>s. w s \<noteq> []) fds), w)),
     env_garbage = (\<lambda>w. 0),
     env_create_session = (\<lambda>w i. Inr w), env_session_message = (\<lambda>w i m. Inr w),
     env_session_disconnect = (\<lambda>w i. w), env_session_release = (\<lambda>w i. w)\<rparr>"

lemma sockets_env_laws:
  "0 \<le> fd \<Longrightarrow> leaves_alone sockets_env fd (\<lambda>w. w fd)" "recv_stream sockets_env c (\<lambda>w. w c)"
  "reports sockets_env fd (\<lambda>w. w fd)"
  by (auto simp: leaves_alone_def recv_stream_def reports_def sockets_env_def)

end
