(* ===== verification/Socket_Startup.thy ===== *)
theory Socket_Startup
  imports Socket_Stop
begin

text \<open>
  How the socket server gets to its regular service (\<^verbatim>\<open>server::server\<close>, \<^verbatim>\<open>accept_preinit\<close> and
  \<^verbatim>\<open>handle_preinit\<close> of \<^verbatim>\<open>src/server_endpoint_sockets.cpp\<close>). The constructor connects to the server's own
  port and sends the magic number there; others may have connected before, and may at any time. The
  thread accepts connections until it finds the one that has sent the magic number.
\<close>

section \<open>The server's own connection\<close>

text \<open>
  \<open>ahead\<close> says how many connections are still to be accepted before the server's own, \<open>None\<close> when that
  has been accepted, with descriptor \<open>fd\<close>. \<open>queued\<close> are the bytes sent on it until then, \<open>pending\<close> those that
  can be received from it afterwards. \<open>srv\<close> is the socket that listens.
\<close>

definition own_connection ::
  "'w env \<Rightarrow> int \<Rightarrow> int \<Rightarrow> ('w \<Rightarrow> nat option) \<Rightarrow> ('w \<Rightarrow> bytes) \<Rightarrow> ('w \<Rightarrow> bytes) \<Rightarrow> bool" where
  "own_connection E srv fd ahead queued pending \<longleftrightarrow>
     (\<forall>w n. ahead w = Some (Suc n) \<longrightarrow> fst (env_accept E w srv) \<noteq> fd \<and>
        ahead (snd (env_accept E w srv)) = Some n \<and> prefix (queued w) (queued (snd (env_accept E w srv)))) \<and>
     (\<forall>w. ahead w = Some 0 \<longrightarrow> fst (env_accept E w srv) \<in> {fd, - 1} \<and>
        (fst (env_accept E w srv) = fd \<longrightarrow>
           ahead (snd (env_accept E w srv)) = None \<and> prefix (queued w) (pending (snd (env_accept E w srv))))) \<and>
     (\<forall>w. ahead w = None \<longrightarrow> ahead (snd (env_accept E w srv)) = None) \<and>
     (\<forall>w s. ahead (snd (env_setsockopt E w s)) = ahead w \<and>
        prefix (queued w) (queued (snd (env_setsockopt E w s)))) \<and>
     (\<forall>w s. ahead (snd (env_recv E w s 4 Msg_peek)) = ahead w \<and>
        prefix (queued w) (queued (snd (env_recv E w s 4 Msg_peek)))) \<and>
     (\<forall>w fds. ahead (snd (env_select E w fds)) = ahead w \<and>
        prefix (queued w) (queued (snd (env_select E w fds))) \<and>
        (ahead w \<noteq> None \<longrightarrow> srv \<in> set fds \<longrightarrow> 0 \<le> fst (fst (env_select E w fds)) \<longrightarrow>
          srv \<in> set (snd (fst (env_select E w fds)))))"

lemma own_connectionD:
  assumes "own_connection E srv fd ahead queued pending"
  shows "ahead w = Some (Suc n) \<Longrightarrow> fst (env_accept E w srv) \<noteq> fd"
    and "ahead w = Some (Suc n) \<Longrightarrow> ahead (snd (env_accept E w srv)) = Some n"
    and "ahead w = Some (Suc n) \<Longrightarrow> prefix (queued w) (queued (snd (env_accept E w srv)))"
    and "ahead w = Some 0 \<Longrightarrow> fst (env_accept E w srv) \<in> {fd, - 1}"
    and "ahead w = Some 0 \<Longrightarrow> fst (env_accept E w srv) = fd \<Longrightarrow> ahead (snd (env_accept E w srv)) = None"
    and "ahead w = Some 0 \<Longrightarrow> fst (env_accept E w srv) = fd \<Longrightarrow>
      prefix (queued w) (pending (snd (env_accept E w srv)))"
    and "ahead w = None \<Longrightarrow> ahead (snd (env_accept E w srv)) = None"
    and "ahead (snd (env_setsockopt E w s)) = ahead w"
    and "prefix (queued w) (queued (snd (env_setsockopt E w s)))"
    and "ahead (snd (env_recv E w s 4 Msg_peek)) = ahead w"
    and "prefix (queued w) (queued (snd (env_recv E w s 4 Msg_peek)))"
    and "ahead (snd (env_select E w fds)) = ahead w"
    and "prefix (queued w) (queued (snd (env_select E w fds)))"
    and "ahead w \<noteq> None \<Longrightarrow> srv \<in> set fds \<Longrightarrow> 0 \<le> fst (fst (env_select E w fds)) \<Longrightarrow>
      srv \<in> set (snd (fst (env_select E w fds)))"
  using assms unfolding own_connection_def by (elim conjE; blast)+

definition peek_stream :: "'w env \<Rightarrow> int \<Rightarrow> ('w \<Rightarrow> bytes) \<Rightarrow> bool" where
  "peek_stream E fd pending \<longleftrightarrow> (\<forall>w. \<exists>w'. env_recv E w fd 4 Msg_peek =
     ((int (length (take 4 (pending w))), take 4 (pending w)), w') \<and> pending w' = pending w)"

lemma recv_scalar_peek:
  assumes "peek_stream E fd pending" and "prefix (network_bytes 4 n) (pending w)" and "n < 2 ^ 32"
  shows "\<exists>w'. recv_scalar e E w fd Msg_peek = (4, word_of_nat n, w') \<and> pending w' = pending w"
proof -
  obtain rest where rest: "pending w = network_bytes 4 n @ rest" using assms(2) by (auto simp: prefix_def)
  obtain w' where w': "env_recv E w fd 4 Msg_peek =
      ((int (length (take 4 (pending w))), take 4 (pending w)), w')" "pending w' = pending w"
    using assms(1) unfolding peek_stream_def by blast
  then have "env_recv E w fd 4 Msg_peek = ((4, network_bytes 4 n), w')" by (simp add: rest)
  moreover have "load_value e (reorder e (network_bytes 4 n)) = n"
    using assms(3) by (simp add: load_reorder_network)
  ultimately show ?thesis using w'(2) by (simp add: recv_scalar_def overwrite_def)
qed

section \<open>Starting and serving\<close>

text \<open>
  A server that has not found its own connection yet, on which the magic number and then \<open>rest\<close> have been
  sent; and one that has just found it.
\<close>

definition own_at :: "int \<Rightarrow> socket_handler list \<Rightarrow> nat \<Rightarrow> bool" where
  "own_at fd hs j \<longleftrightarrow> 0 < j \<and> j < length hs \<and> sh_socket (hs ! j) = fd \<and>
     (\<forall>l < length hs. l \<noteq> j \<longrightarrow> sh_socket (hs ! l) \<noteq> fd)"

lemma own_at_append: "own_at fd hs j \<Longrightarrow> sh_socket h \<noteq> fd \<Longrightarrow> own_at fd (hs @ [h]) j"
  by (auto simp: own_at_def nth_append less_Suc_eq)

lemma own_at_new:
  "\<forall>h \<in> set hs. sh_socket h \<noteq> fd \<Longrightarrow> hs \<noteq> [] \<Longrightarrow> sh_socket h = fd \<Longrightarrow> own_at fd (hs @ [h]) (length hs)"
  by (auto simp: own_at_def nth_append less_Suc_eq)

definition starting ::
  "int \<Rightarrow> int \<Rightarrow> ('w \<Rightarrow> nat option) \<Rightarrow> ('w \<Rightarrow> bytes) \<Rightarrow> ('w \<Rightarrow> bytes) \<Rightarrow> bytes \<Rightarrow> 'w server \<Rightarrow> bool" where
  "starting srv fd ahead queued pending rest s \<longleftrightarrow>
     server_inv s \<and> preinit_kinds (sv_handlers s) \<and> sh_socket (sv_handlers s ! 0) = srv \<and>
     (sv_pc s = Selecting \<or> (\<exists>fds k. sv_pc s = Visiting fds k)) \<and>
     (if ahead (sv_world s) = None
      then prefix (id_message init_magic @ rest) (pending (sv_world s)) \<and> (\<exists>j. own_at fd (sv_handlers s) j)
      else prefix (id_message init_magic @ rest) (queued (sv_world s)) \<and>
        (\<forall>h \<in> set (sv_handlers s). sh_socket h \<noteq> fd))"

definition serving :: "int \<Rightarrow> int \<Rightarrow> ('w \<Rightarrow> bytes) \<Rightarrow> bytes \<Rightarrow> 'w server \<Rightarrow> bool" where
  "serving srv fd pending rest s \<longleftrightarrow>
     server_inv s \<and> (\<exists>fds k. sv_pc s = Visiting fds k) \<and> prefix rest (pending (sv_world s)) \<and>
     sh_handler (sv_handlers s ! 0) = Accept_regular \<and> sh_socket (sv_handlers s ! 0) = srv \<and>
     (\<exists>j. 0 < j \<and> aux_at fd (sh_id (sv_handlers s ! j)) (sv_handlers s) j \<and>
        (\<forall>l < length (sv_handlers s). 0 < l \<longrightarrow> l \<noteq> j \<longrightarrow>
           sh_handler (sv_handlers s ! l) = Handle_session (sh_id (sv_handlers s ! l))))"

text \<open>No other connection sends the magic number.\<close>

definition no_impostor :: "endian \<Rightarrow> 'w env \<Rightarrow> int \<Rightarrow> 'w server \<Rightarrow> bool" where
  "no_impostor e E fd s \<longleftrightarrow> (\<forall>h \<in> set (sv_handlers s). sh_handler h = Handle_preinit \<longrightarrow> sh_socket h \<noteq> fd \<longrightarrow>
     \<not> (fst (recv_scalar e E (sv_world s) (sh_socket h) Msg_peek) = 4 \<and>
        fst (snd (recv_scalar e E (sv_world s) (sh_socket h) Msg_peek)) = init_magic))"

text \<open>
  How far the thread is from its own connection: the connections ahead of it; in a pass that gets to
  the handler that matters (the acceptor, or that of the connection), before the \<^verbatim>\<open>select\<close>, or in a pass
  that does not.
\<close>

definition ahead_left :: "('w \<Rightarrow> nat option) \<Rightarrow> 'w server \<Rightarrow> nat" where
  "ahead_left ahead s = (case ahead (sv_world s) of None \<Rightarrow> 0 | Some n \<Rightarrow> Suc n)"

definition start_stage :: "int \<Rightarrow> int \<Rightarrow> ('w \<Rightarrow> nat option) \<Rightarrow> 'w server \<Rightarrow> nat" where
  "start_stage srv fd ahead s = (case sv_pc s of
       Selecting \<Rightarrow> 1
     | Visiting fds k \<Rightarrow>
         if (if ahead (sv_world s) = None then fd \<in> set fds \<and> (\<exists>j. own_at fd (sv_handlers s) j \<and> k \<le> j)
             else srv \<in> set fds \<and> k = 0) then 0 else 2
     | _ \<Rightarrow> 0)"

definition start_less :: "int \<Rightarrow> int \<Rightarrow> ('w \<Rightarrow> nat option) \<Rightarrow> 'w server \<Rightarrow> 'w server \<Rightarrow> bool" where
  "start_less srv fd ahead t s \<longleftrightarrow>
     ((ahead_left ahead t, start_stage srv fd ahead t, pass_left t),
      (ahead_left ahead s, start_stage srv fd ahead s, pass_left s))
       \<in> less_than <*lex*> less_than <*lex*> less_than"

lemma own_at_unique: "own_at fd hs j \<Longrightarrow> own_at fd hs l \<Longrightarrow> j = l"
  by (auto simp: own_at_def)

lemma start_stage_own:
  "sv_pc s = Visiting fds k \<Longrightarrow> ahead (sv_world s) = None \<Longrightarrow> own_at fd (sv_handlers s) j \<Longrightarrow>
   start_stage srv fd ahead s = (if fd \<in> set fds \<and> k \<le> j then 0 else 2)"
  using own_at_unique by (fastforce simp: start_stage_def)

lemma start_stage_line:
  "sv_pc s = Visiting fds k \<Longrightarrow> ahead (sv_world s) = Some n \<Longrightarrow>
   start_stage srv fd ahead s = (if srv \<in> set fds \<and> k = 0 then 0 else 2)"
  by (simp add: start_stage_def)

lemma start_less_pass:
  "ahead (sv_world t) = ahead (sv_world s) \<Longrightarrow> start_stage srv fd ahead t \<le> start_stage srv fd ahead s \<Longrightarrow>
   pass_left t < pass_left s \<Longrightarrow> start_less srv fd ahead t s"
  by (auto simp: start_less_def ahead_left_def)

lemma start_less_stage:
  "ahead (sv_world t) = ahead (sv_world s) \<Longrightarrow> start_stage srv fd ahead t < start_stage srv fd ahead s \<Longrightarrow>
   start_less srv fd ahead t s"
  by (simp add: start_less_def ahead_left_def)

section \<open>Turns\<close>

lemma starting_select:
  assumes start: "starting srv fd ahead queued pending rest s" and own: "own_connection E srv fd ahead queued pending"
    and alone: "leaves_alone E fd pending" and rep: "reports E fd pending"
    and pc: "sv_pc s = Selecting" and next_id: "sv_next_id s \<noteq> - 1"
    and goes_on: "sv_pc (server_turn e E s) \<notin> {Ended, Fd_set_overrun}"
  shows "starting srv fd ahead queued pending rest (server_turn e E s) \<and> start_less srv fd ahead (server_turn e E s) s"
proof -
  let ?fds = "map sh_socket (sv_handlers s)" and ?w = "sv_world s"
  obtain r ready w1 where sel: "env_select E (sv_world s) ?fds = ((r, ready), w1)" by (metis prod.collapse)
  have fit: "fits_fd_set ?fds"
  proof (rule ccontr)
    assume "\<not> fits_fd_set ?fds"
    with goes_on pc show False by (simp add: server_turn_def)
  qed
  then have r: "0 \<le> r" using goes_on pc sel by (cases "r < 0") (simp_all add: server_turn_def)
  with fit pc sel have turn: "server_turn e E s = s\<lparr>sv_world := w1, sv_pc := Visiting ready 0\<rparr>"
    by (simp add: server_turn_def)
  have ahead: "ahead w1 = ahead ?w" and queued: "prefix (queued ?w) (queued w1)"
    using own_connectionD(12,13) [OF own, of ?w ?fds] sel by simp_all
  have pending: "prefix (pending ?w) (pending w1)" using leaves_aloneD(10) [OF alone, of ?w ?fds] sel by simp
  have kinds: "preinit_kinds (sv_handlers s)" and first: "sh_socket (sv_handlers s ! 0) = srv"
    using start by (simp_all add: starting_def)
  then have "srv \<in> set ?fds" by (cases "sv_handlers s") (auto simp: preinit_kinds_def)
  then have srv: "ahead ?w \<noteq> None \<Longrightarrow> srv \<in> set ready"
    using own_connectionD(14) [OF own, of ?w ?fds] sel r by simp
  have fd: "fd \<in> set ready" if none: "ahead ?w = None" and j: "own_at fd (sv_handlers s) j" for j
  proof -
    have "prefix (id_message init_magic @ rest) (pending ?w)" using start none by (simp add: starting_def)
    then have "pending ?w \<noteq> []" by (auto simp: id_message_def network_bytes_def)
    moreover have "fd \<in> set ?fds" using j nth_mem [of j "sv_handlers s"] by (auto simp: own_at_def)
    ultimately show ?thesis using rep sel r unfolding reports_def by (metis fst_conv snd_conv)
  qed
  have "start_stage srv fd ahead (server_turn e E s) = 0"
    using srv fd start by (auto simp: turn start_stage_def ahead starting_def)
  then have "start_less srv fd ahead (server_turn e E s) s"
    using pc by (intro start_less_stage) (simp_all add: start_stage_def turn ahead)
  moreover have "starting srv fd ahead queued pending rest (server_turn e E s)"
    using server_turn_inv [of s e E] start next_id prefix_order.trans [OF _ queued] prefix_order.trans [OF _ pending]
    by (simp add: turn starting_def ahead)
  ultimately show ?thesis by blast
qed

lemma starting_pass_by:
  assumes start: "starting srv fd ahead queued pending rest s" and pc: "sv_pc s = Visiting fds k"
    and not_ready: "\<not> (k < length (sv_handlers s) \<and> sh_socket (sv_handlers s ! k) \<in> set fds)"
    and goes_on: "sv_pc (server_turn e E s) \<noteq> Fd_set_overrun"
  shows "starting srv fd ahead queued pending rest (server_turn e E s) \<and> start_less srv fd ahead (server_turn e E s) s"
proof -
  let ?t = "server_turn e E s"
  have inv: "server_inv s" and first: "sh_socket (sv_handlers s ! 0) = srv" and hs: "sv_handlers s \<noteq> []"
    using start by (auto simp: starting_def preinit_kinds_def)
  have less: "pass_left ?t < pass_left s" by (rule server_turn_pass_left [OF inv pc])
  have t: "?t = s\<lparr>sv_pc := if k < length (sv_handlers s) then Visiting fds (Suc k) else Selecting\<rparr>"
    using pc not_ready goes_on by (auto simp: server_turn_def split: if_splits)
  have "start_less srv fd ahead ?t s"
  proof (cases "ahead (sv_world s)")
    case None
    then obtain j where j: "own_at fd (sv_handlers s) j" using start by (auto simp: starting_def)
    show ?thesis
    proof (cases "k < length (sv_handlers s)")
      case True
      then have "k \<noteq> j" if "fd \<in> set fds" using that j not_ready by (auto simp: own_at_def)
      then have "start_stage srv fd ahead ?t \<le> start_stage srv fd ahead s"
        using start_stage_own [where ahead = ahead and srv = srv, OF pc None j] start_stage_own [of ?t fds "Suc k" ahead fd j srv] None j True
        by (auto simp: t)
      then show ?thesis using less by (intro start_less_pass) (simp_all add: t)
    next
      case False
      then have "\<not> k \<le> j" using j by (auto simp: own_at_def)
      then show ?thesis
        using start_stage_own [where ahead = ahead and srv = srv, OF pc None j] False by (intro start_less_stage) (simp_all add: t start_stage_def)
    qed
  next
    case (Some n)
    then have "start_stage srv fd ahead s = 2"
      using start_stage_line [where ahead = ahead and srv = srv and fd = fd, OF pc Some] not_ready first hs
      by (cases "k = 0") auto
    moreover have "start_stage srv fd ahead ?t \<le> 2" by (simp add: start_stage_def split: loop_pc.split)
    ultimately show ?thesis
      using less by (intro start_less_pass) (simp_all add: t)
  qed
  then show ?thesis using start by (auto simp: t starting_def server_inv_def)
qed

section \<open>Accepting\<close>

lemma accept_preinit_line:
  assumes own: "own_connection E srv fd ahead queued pending" and alone: "leaves_alone E fd pending"
    and some: "ahead (sv_world s) = Some n" and acc: "accept_preinit E srv s = (Inr st, s1)"
  shows "\<exists>h. st = Proceed \<and> sv_handlers s1 = sv_handlers s @ [h] \<and> sh_handler h = Handle_preinit \<and> sv_pc s1 = sv_pc s \<and>
    (case n of
       0 \<Rightarrow> sh_socket h = fd \<and> ahead (sv_world s1) = None \<and> prefix (queued (sv_world s)) (pending (sv_world s1))
     | Suc m \<Rightarrow> sh_socket h \<noteq> fd \<and> ahead (sv_world s1) = Some m \<and> prefix (queued (sv_world s)) (queued (sv_world s1)))"
proof -
  let ?w = "sv_world s"
  obtain c w1 where c: "env_accept E ?w srv = (c, w1)" by (cases "env_accept E ?w srv")
  obtain x w2 where x: "setup_socket E c w1 = (x, w2)" by (cases "setup_socket E c w1")
  then have w2: "w2 = snd (env_setsockopt E w1 c)" by (auto simp: setup_socket_def split: prod.splits)
  have ok: "c \<noteq> - 1" "x = None" and s1: "sv_world s1 = w2" "sv_pc s1 = sv_pc s" "st = Proceed"
      "sv_handlers s1 = sv_handlers s @ [\<lparr>sh_id = sv_next_id s, sh_handler = Handle_preinit, sh_socket = c\<rparr>]"
    using acc c x
    by (auto simp: accept_preinit_def accept_connection_def socket_handle_ctor_def split: if_splits option.splits)
  have "ahead w2 = ahead w1" "prefix (queued w1) (queued w2)" "prefix (pending w1) (pending w2)"
    using own_connectionD(8,9) [OF own, of w1 c] leaves_aloneD(1) [OF alone, of w1 c] w2 by simp_all
  then show ?thesis
    using s1 ok own_connectionD(1-3) [OF own, of ?w] own_connectionD(4-6) [OF own, of ?w] c some
      prefix_order.trans [of "queued ?w" _ "queued w2"] prefix_order.trans [of "queued ?w" _ "pending w2"]
    by (cases n) auto
qed

lemma accept_preinit_own:
  assumes own: "own_connection E srv fd ahead queued pending" and alone: "leaves_alone E fd pending"
    and none: "ahead (sv_world s) = None" and bytes: "pending (sv_world s) \<noteq> []"
    and acc: "accept_preinit E srv s = (Inr st, s1)"
  shows "\<exists>h. st = Proceed \<and> sv_handlers s1 = sv_handlers s @ [h] \<and> sh_handler h = Handle_preinit \<and> sv_pc s1 = sv_pc s \<and>
    sh_socket h \<noteq> fd \<and> ahead (sv_world s1) = None \<and> prefix (pending (sv_world s)) (pending (sv_world s1))"
proof -
  let ?w = "sv_world s"
  obtain c w1 where c: "env_accept E ?w srv = (c, w1)" by (cases "env_accept E ?w srv")
  obtain x w2 where x: "setup_socket E c w1 = (x, w2)" by (cases "setup_socket E c w1")
  then have w2: "w2 = snd (env_setsockopt E w1 c)" by (auto simp: setup_socket_def split: prod.splits)
  have s1: "sv_world s1 = w2" "sv_pc s1 = sv_pc s" "st = Proceed"
      "sv_handlers s1 = sv_handlers s @ [\<lparr>sh_id = sv_next_id s, sh_handler = Handle_preinit, sh_socket = c\<rparr>]"
    using acc c x
    by (auto simp: accept_preinit_def accept_connection_def socket_handle_ctor_def split: if_splits option.splits)
  have "ahead w2 = ahead w1" "prefix (pending w1) (pending w2)"
    using own_connectionD(8) [OF own, of w1 c] leaves_aloneD(1) [OF alone, of w1 c] w2 by simp_all
  then show ?thesis
    using s1 own_connectionD(7) [OF own none] leaves_aloneD(2,3) [OF alone, of ?w srv] bytes c
      prefix_order.trans [of "pending ?w" _ "pending w2"]
    by auto
qed

section \<open>The magic number\<close>

lemma assign_handlers_alone:
  "leaves_alone E fd pending \<Longrightarrow> assign_handlers E self i n s = (x, s') \<Longrightarrow>
   prefix (pending (sv_world s)) (pending (sv_world s')) \<and> sv_pc s' = sv_pc s"
proof (induction E self i n s rule: assign_handlers.induct)
  case (2 E self i n s)
  let ?h = "sv_handlers s ! i"
  show ?case
  proof (cases "i = 0 \<or> i = self")
    case True
    then show ?thesis using 2 by (cases "i = 0") (fastforce simp: Let_def)+
  next
    case False
    show ?thesis
    proof (cases "env_create_session E (sv_world s) (sh_id ?h)")
      case (Inl y)
      then show ?thesis using 2 False by (auto simp: Let_def)
    next
      case (Inr w)
      have more: "prefix (pending (sv_world s)) (pending w)" by (rule leaves_aloneD(6) [OF 2(4) Inr])
      have "prefix (pending w) (pending (sv_world s')) \<and> sv_pc s' = sv_pc s"
        using 2(3) [OF refl refl _ _ Inr 2(4)] 2(5) False Inr by (simp add: Let_def)
      with more prefix_order.trans show ?thesis by blast
    qed
  qed
qed simp

section \<open>Every turn\<close>

lemma starting_accept:
  assumes start: "starting srv fd ahead queued pending rest s" and own: "own_connection E srv fd ahead queued pending"
    and alone: "leaves_alone E fd pending" and pc: "sv_pc s = Visiting fds 0"
    and ready: "srv \<in> set fds" and next_id: "sv_next_id s \<noteq> - 1" and goes_on: "sv_pc (server_turn e E s) \<noteq> Ended"
  shows "starting srv fd ahead queued pending rest (server_turn e E s) \<and> start_less srv fd ahead (server_turn e E s) s"
proof -
  let ?t = "server_turn e E s" and ?w = "sv_world s"
  have kinds: "preinit_kinds (sv_handlers s)" and first: "sh_socket (sv_handlers s ! 0) = srv" and inv: "server_inv s"
    using start by (simp_all add: starting_def)
  then have hs: "0 < length (sv_handlers s)" and h: "sh_handler (sv_handlers s ! 0) = Accept_preinit"
    by (auto simp: preinit_kinds_def)
  obtain r s1 where acc: "accept_preinit E srv s = (r, s1)" by (cases "accept_preinit E srv s")
  then have "run_handler e E 0 s = (r, s1)" using h first by (simp add: run_handler_def)
  note turn = server_turn_visit [OF pc hs, of e E, unfolded first, OF ready, unfolded this]
  obtain st where st: "r = Inr st" using goes_on turn by (cases r) auto
  have inv_t: "server_inv ?t" by (rule server_turn_inv [OF inv next_id])
  have t: "?t = s1\<lparr>sv_pc := Visiting fds (Suc 0)\<rparr>" if "st = Proceed" "sv_pc s1 = sv_pc s"
    using that turn st pc by simp
  show ?thesis
  proof (cases "ahead ?w")
    case (Some n)
    obtain h' where h': "st = Proceed" "sv_handlers s1 = sv_handlers s @ [h']" "sh_handler h' = Handle_preinit"
      "sv_pc s1 = sv_pc s" and line: "case n of
       0 \<Rightarrow> sh_socket h' = fd \<and> ahead (sv_world s1) = None \<and> prefix (queued ?w) (pending (sv_world s1))
     | Suc m \<Rightarrow> sh_socket h' \<noteq> fd \<and> ahead (sv_world s1) = Some m \<and> prefix (queued ?w) (queued (sv_world s1))"
      using accept_preinit_line [OF own alone Some acc [unfolded st]] by blast
    note t = t [OF h'(1,4)]
    have front: "prefix (id_message init_magic @ rest) (queued ?w)" and others: "\<forall>h \<in> set (sv_handlers s). sh_socket h \<noteq> fd"
      using start Some by (simp_all add: starting_def)
    have "ahead_left ahead ?t < ahead_left ahead s"
      using line Some by (cases n) (simp_all add: t ahead_left_def)
    then have "start_less srv fd ahead ?t s" by (simp add: start_less_def)
    moreover have "starting srv fd ahead queued pending rest ?t"
      using line inv_t preinit_kinds_append [OF kinds h'(3)] first hs h'(2) front others
        own_at_new [OF others, of h'] prefix_order.trans [OF front]
      by (cases n) (auto simp: t starting_def nth_append)
    ultimately show ?thesis by blast
  next
    case None
    have front: "prefix (id_message init_magic @ rest) (pending ?w)" using start None by (simp add: starting_def)
    then have bytes: "pending ?w \<noteq> []" by (auto simp: id_message_def network_bytes_def)
    obtain j where j: "own_at fd (sv_handlers s) j" using start None by (auto simp: starting_def)
    obtain h' where h': "st = Proceed" "sv_handlers s1 = sv_handlers s @ [h']" "sh_handler h' = Handle_preinit"
      "sv_pc s1 = sv_pc s" "sh_socket h' \<noteq> fd" "ahead (sv_world s1) = None" "prefix (pending ?w) (pending (sv_world s1))"
      using accept_preinit_own [OF own alone None bytes acc [unfolded st]] by blast
    note t = t [OF h'(1,4)]
    have j': "own_at fd (sv_handlers ?t) j" using own_at_append [OF j h'(5)] by (simp add: t h'(2))
    have "start_stage srv fd ahead ?t \<le> start_stage srv fd ahead s"
      using start_stage_own [where ahead = ahead and srv = srv, OF pc None j]
        start_stage_own [where ahead = ahead and srv = srv, OF _ _ j', of fds "Suc 0"] h'(6) j
      by (auto simp: t own_at_def)
    then have "start_less srv fd ahead ?t s"
      using server_turn_pass_left [OF inv pc, of e E] None h'(6) by (intro start_less_pass) (simp_all add: t)
    moreover have "starting srv fd ahead queued pending rest ?t"
      using inv_t preinit_kinds_append [OF kinds h'(3)] first hs h' j' prefix_order.trans [OF front h'(7)]
      by (auto simp: t starting_def nth_append)
    ultimately show ?thesis by blast
  qed
qed

lemma starting_other:
  assumes start: "starting srv fd ahead queued pending rest s" and own: "own_connection E srv fd ahead queued pending"
    and alone: "leaves_alone E fd pending" and pc: "sv_pc s = Visiting fds k" and k: "0 < k" "k < length (sv_handlers s)"
    and ready: "sh_socket (sv_handlers s ! k) \<in> set fds" and next_id: "sv_next_id s \<noteq> - 1"
    and other: "sh_socket (sv_handlers s ! k) \<noteq> fd" and honest: "no_impostor e E fd s"
  shows "starting srv fd ahead queued pending rest (server_turn e E s) \<and> start_less srv fd ahead (server_turn e E s) s"
proof -
  let ?t = "server_turn e E s" and ?w = "sv_world s" and ?c = "sh_socket (sv_handlers s ! k)"
  have kinds: "preinit_kinds (sv_handlers s)" and inv: "server_inv s" using start by (simp_all add: starting_def)
  then have h: "sh_handler (sv_handlers s ! k) = Handle_preinit" using k by (simp add: preinit_kinds_def)
  obtain r magic w1 where peek: "recv_scalar e E ?w ?c Msg_peek = (r, magic, w1)" using prod_cases3 by blast
  moreover have "\<not> (r = 4 \<and> magic = init_magic)"
    using honest nth_mem [OF k(2)] h other peek by (auto simp: no_impostor_def)
  ultimately have "run_handler e E k s = (Inr Proceed, s\<lparr>sv_world := w1\<rparr>)"
    using h by (auto simp: run_handler_def handle_preinit_def)
  then have t: "?t = s\<lparr>sv_world := w1, sv_pc := Visiting fds (Suc k)\<rparr>"
    using server_turn_visit [OF pc k(2) ready, of e E] pc by simp
  have w1: "w1 = snd (env_recv E ?w ?c 4 Msg_peek)" using peek recv_scalar_world [of e E ?w ?c Msg_peek] by simp
  have ahead: "ahead w1 = ahead ?w" and queued: "prefix (queued ?w) (queued w1)"
    using own_connectionD(10,11) [OF own, of ?w ?c] by (simp_all add: w1)
  have pending: "prefix (pending ?w) (pending w1)" using leaves_aloneD(5) [OF alone other] by (simp add: w1)
  have "start_stage srv fd ahead ?t \<le> start_stage srv fd ahead s"
  proof (cases "ahead ?w")
    case None
    then obtain j where j: "own_at fd (sv_handlers s) j" using start by (auto simp: starting_def)
    have "k \<noteq> j" using j other by (auto simp: own_at_def)
    then show ?thesis
      using start_stage_own [where ahead = ahead and srv = srv, OF pc None j]
        start_stage_own [of ?t fds "Suc k" ahead fd j srv] None j
      by (auto simp: t ahead)
  next
    case (Some n)
    then show ?thesis
      using start_stage_line [where ahead = ahead and srv = srv and fd = fd, OF pc Some] k(1)
      by (simp add: start_stage_def t ahead)
  qed
  then have "start_less srv fd ahead ?t s"
    using server_turn_pass_left [OF inv pc, of e E] by (intro start_less_pass) (simp_all add: t ahead)
  moreover have "starting srv fd ahead queued pending rest ?t"
    using start server_turn_inv [OF inv next_id, of e E] prefix_order.trans [OF _ queued] prefix_order.trans [OF _ pending]
    by (simp add: t starting_def ahead)
  ultimately show ?thesis by blast
qed

lemma starting_found:
  assumes start: "starting srv fd ahead queued pending rest s" and alone: "leaves_alone E fd pending"
    and recv: "recv_stream E fd pending" and peek: "peek_stream E fd pending"
    and pc: "sv_pc s = Visiting fds k" and k: "k < length (sv_handlers s)" and ready: "fd \<in> set fds"
    and fd: "sh_socket (sv_handlers s ! k) = fd" and srv: "srv \<noteq> fd"
    and next_id: "sv_next_id s \<noteq> - 1" and goes_on: "sv_pc (server_turn e E s) \<noteq> Ended"
  shows "serving srv fd pending rest (server_turn e E s)"
proof -
  let ?t = "server_turn e E s" and ?w = "sv_world s"
  have kinds: "preinit_kinds (sv_handlers s)" and first: "sh_socket (sv_handlers s ! 0) = srv" and inv: "server_inv s"
    using start by (simp_all add: starting_def)
  have "\<not> (\<forall>h \<in> set (sv_handlers s). sh_socket h \<noteq> fd)" using nth_mem [OF k] fd by auto
  with start have front: "prefix (id_message init_magic @ rest) (pending ?w)" and j: "own_at fd (sv_handlers s) k"
    using k fd by (auto simp: starting_def own_at_def split: if_splits)
  have magic: "unat init_magic < 2 ^ 32" by (simp add: init_magic_def)
  obtain w1 where w1: "recv_scalar e E ?w fd Msg_peek = (4, init_magic, w1)" "pending w1 = pending ?w"
    using recv_scalar_peek [OF peek, of "unat init_magic" ?w e] front magic by (auto simp: id_message_def append_prefixD)
  obtain more where more: "pending w1 = id_message init_magic @ rest @ more" using front w1(2) by (auto simp: prefix_def)
  obtain w2 where w2: "recv_scalar e E w1 fd Msg_waitall = (4, init_magic, w2)" "pending w2 = rest @ more"
    using recv_scalar_stream [OF recv, of w1 "unat init_magic" "rest @ more" e] more magic by (auto simp: id_message_def)
  obtain x s1 where assign: "assign_handlers E k 0 (length (sv_handlers s)) (s\<lparr>sv_world := w2\<rparr>) = (x, s1)"
    by (cases "assign_handlers E k 0 (length (sv_handlers s)) (s\<lparr>sv_world := w2\<rparr>)")
  have k0: "0 < k" using j by (simp add: own_at_def)
  then have "sh_handler (sv_handlers s ! k) = Handle_preinit" using kinds k by (simp add: preinit_kinds_def)
  then have "run_handler e E k s = (case x of Some y \<Rightarrow> Inl y | None \<Rightarrow> Inr Proceed, s1)"
    using w1(1) w2(1) assign fd by (simp add: run_handler_def handle_preinit_def split: option.split)
  note turn = server_turn_visit [OF pc k, of e E, unfolded fd, OF ready, unfolded this]
  then have x: "x = None" using goes_on by (cases x) auto
  from assign_handlers_alone [OF alone assign] have s1: "prefix (rest @ more) (pending (sv_world s1))" "sv_pc s1 = sv_pc s"
    by (simp_all add: w2(2))
  have t: "?t = s1\<lparr>sv_pc := Visiting fds (Suc k)\<rparr>" using turn x s1(2) pc by simp
  from assign_handlers_result [OF assign [unfolded x]] have
    hs: "length (sv_handlers s1) = length (sv_handlers s)"
      "\<forall>l < length (sv_handlers s). sv_handlers s1 ! l =
         (sv_handlers s ! l)\<lparr>sh_handler := assigned k l (sh_id (sv_handlers s ! l))\<rparr>"
    by simp_all
  have "0 < length (sv_handlers s)" using k by linarith
  then have zero: "sh_handler (sv_handlers s1 ! 0) = Accept_regular" "sh_socket (sv_handlers s1 ! 0) = srv"
    using hs(2) first by (simp_all add: assigned_def)
  have aux: "aux_at fd (sh_id (sv_handlers s1 ! k)) (sv_handlers s1) k"
    using hs k k0 j by (auto simp: aux_at_eq assigned_def own_at_def)
  have "server_inv ?t" by (rule server_turn_inv [OF inv next_id])
  moreover have "\<forall>l < length (sv_handlers s1). 0 < l \<longrightarrow> l \<noteq> k \<longrightarrow>
      sh_handler (sv_handlers s1 ! l) = Handle_session (sh_id (sv_handlers s1 ! l))"
    using hs by (simp add: assigned_def)
  ultimately show ?thesis
    using zero aux k0 s1(1) by (auto simp: t serving_def dest: append_prefixD)
qed

lemma starting_turn:
  assumes start: "starting srv fd ahead queued pending rest s"
    and laws: "own_connection E srv fd ahead queued pending" "leaves_alone E fd pending" "recv_stream E fd pending"
      "peek_stream E fd pending" "reports E fd pending"
    and srv: "srv \<noteq> fd" and honest: "no_impostor e E fd s" and next_id: "sv_next_id s \<noteq> - 1"
    and goes_on: "sv_pc (server_turn e E s) \<notin> {Ended, Fd_set_overrun}"
  shows "serving srv fd pending rest (server_turn e E s) \<or>
    starting srv fd ahead queued pending rest (server_turn e E s) \<and> start_less srv fd ahead (server_turn e E s) s"
proof (cases "sv_pc s = Selecting")
  case True
  from starting_select [OF start laws(1,2,5) this next_id goes_on] show ?thesis by blast
next
  case False
  then obtain fds k where pc: "sv_pc s = Visiting fds k" using start by (auto simp: starting_def)
  show ?thesis
  proof (cases "k < length (sv_handlers s) \<and> sh_socket (sv_handlers s ! k) \<in> set fds")
    case False
    from starting_pass_by [OF start pc this] goes_on show ?thesis by blast
  next
    case True
    then have k: "k < length (sv_handlers s)" and ready: "sh_socket (sv_handlers s ! k) \<in> set fds" by simp_all
    have first: "sh_socket (sv_handlers s ! 0) = srv" using start by (simp add: starting_def)
    consider "k = 0" | "sh_socket (sv_handlers s ! k) = fd" | "0 < k" "sh_socket (sv_handlers s ! k) \<noteq> fd" by blast
    then show ?thesis
    proof cases
      case 1
      with starting_accept [OF start laws(1,2) _ _ next_id] pc ready first goes_on show ?thesis by blast
    next
      case 2
      with starting_found [OF start laws(2-4) pc k _ 2 srv next_id] ready goes_on show ?thesis by blast
    next
      case 3
      from starting_other [OF start laws(1,2) pc 3(1) k ready next_id 3(2) honest] show ?thesis by blast
    qed
  qed
qed

section \<open>The thread\<close>

lemma preinit_never_waits: "preinit_kinds (sv_handlers s) \<Longrightarrow> \<not> turn_waits e E avail shut s"
proof -
  assume kinds: "preinit_kinds (sv_handlers s)"
  have fn: "preinit_fn (sh_handler (sv_handlers s ! k))" if "k < length (sv_handlers s)" for k
    using preinit_kinds_nth [OF kinds that] .
  show "\<not> turn_waits e E avail shut s"
  proof (cases "sv_pc s")
    case (Visiting fds k)
    then show ?thesis
      using fn [of k] by (cases "sh_handler (sv_handlers s ! k)") (auto simp: turn_waits_def Let_def)
  qed (simp_all add: turn_waits_def)
qed

lemma starting_grown:
  assumes "starting srv fd ahead queued pending rest s" and "ahead w = ahead (sv_world s)"
    and "prefix (queued (sv_world s)) (queued w)" and "prefix (pending (sv_world s)) (pending w)"
  shows "starting srv fd ahead queued pending rest (s\<lparr>sv_world := w\<rparr>)"
  using assms prefix_order.trans [OF _ assms(3)] prefix_order.trans [OF _ assms(4)]
  by (simp add: starting_def server_inv_def)

lemma start_stage_world:
  "ahead w = ahead (sv_world s) \<Longrightarrow> start_stage srv fd ahead (s\<lparr>sv_world := w\<rparr>) = start_stage srv fd ahead s"
  by (cases "sv_pc s") (simp_all add: start_stage_def)

lemma thread_starts:
  assumes run: "thread_run e E avail shut W S"
    and laws: "own_connection E srv fd ahead queued (\<lambda>w. avail w fd)" "leaves_alone E fd (\<lambda>w. avail w fd)"
      "recv_stream E fd (\<lambda>w. avail w fd)" "peek_stream E fd (\<lambda>w. avail w fd)" "reports E fd (\<lambda>w. avail w fd)"
    and srv: "srv \<noteq> fd" and honest: "\<And>n. no_impostor e E fd (found W S n)"
    and more: "\<And>n. ahead (W n) = ahead (sv_world (S n))" "\<And>n. prefix (queued (sv_world (S n))) (queued (W n))"
      "\<And>n. prefix (avail (sv_world (S n)) fd) (avail (W n) fd)"
    and "starting srv fd ahead queued (\<lambda>w. avail w fd) rest (S m)"
  shows "\<exists>n. sv_pc (S n) \<in> {Ended, Fd_set_overrun} \<or> sv_next_id (S n) = - 1 \<or>
    serving srv fd (\<lambda>w. avail w fd) rest (S n)"
proof -
  have "wf (less_than <*lex*> less_than <*lex*> less_than)" by (intro wf_lex_prod wf_less_than)
  then show ?thesis
    using assms(12)
  proof (induction "(ahead_left ahead (S m), start_stage srv fd ahead (S m), pass_left (S m))" arbitrary: m
      rule: wf_induct_rule)
    case (less m)
    let ?s = "found W S m"
    have start: "starting srv fd ahead queued (\<lambda>w. avail w fd) rest ?s"
      unfolding found_def by (rule starting_grown [OF less.prems more])
    then have "\<not> turn_waits e E avail shut ?s" by (intro preinit_never_waits) (simp add: starting_def)
    then have turn: "S (Suc m) = server_turn e E ?s" using run by (simp add: thread_run_def)
    show ?case
    proof (cases "sv_next_id (S m) = - 1 \<or> sv_pc (S (Suc m)) \<in> {Ended, Fd_set_overrun}")
      case False
      then have "serving srv fd (\<lambda>w. avail w fd) rest (S (Suc m)) \<or>
          starting srv fd ahead queued (\<lambda>w. avail w fd) rest (S (Suc m)) \<and> start_less srv fd ahead (S (Suc m)) ?s"
        using starting_turn [where ahead = ahead and queued = queued, OF start laws srv honest] by (auto simp: turn found_def)
      moreover have "start_less srv fd ahead (S (Suc m)) ?s \<longleftrightarrow> start_less srv fd ahead (S (Suc m)) (S m)"
        by (simp add: start_less_def found_def ahead_left_def start_stage_world more(1))
      ultimately show ?thesis using less.hyps unfolding start_less_def by blast
    qed blast
  qed
qed

text \<open>With a zero behind the magic number, which the destructor sends, the thread ends.\<close>

lemma serving_stopping: "serving srv fd pending (id_message 0) s \<Longrightarrow> \<exists>a. stopping fd a pending [] s"
  by (auto simp: serving_def stopping_def)

section \<open>From the constructor on\<close>

text \<open>What is sent on the socket \<open>aux\<close> arrives at the other end of the server's own connection.\<close>

definition connects_own ::
  "'w env \<Rightarrow> int \<Rightarrow> ('w \<Rightarrow> nat option) \<Rightarrow> ('w \<Rightarrow> bytes) \<Rightarrow> bool" where
  "connects_own E aux ahead queued \<longleftrightarrow>
     (\<forall>w a. fst (env_connect E w aux a) = 0 \<longrightarrow>
        ahead (snd (env_connect E w aux a)) \<noteq> None \<and> queued (snd (env_connect E w aux a)) = []) \<and>
     (\<forall>w. ahead (env_ioctl E w aux) = ahead w \<and> queued (env_ioctl E w aux) = queued w) \<and>
     (\<forall>w bs. ahead w \<noteq> None \<longrightarrow> ahead (snd (env_send E w aux bs)) = ahead w \<and>
        queued (snd (env_send E w aux bs)) = queued w @ bs)"

lemma server_create_starting:
  assumes create: "server_create e E endpoint_id w = (Inr s, w')"
    and own: "connects_own E (sv_aux_socket s) ahead queued" and fd: "sh_socket (sv_handlers s ! 0) \<noteq> fd"
  shows "ahead (sv_world s) \<noteq> None \<and> queued (sv_world s) = id_message init_magic \<and>
    starting (sh_socket (sv_handlers s ! 0)) fd ahead queued pending [] s"
proof -
  obtain c w1 port where aux: "connect_aux e E port w1 = (Inr (sv_aux_socket s), sv_world s)"
    and hs: "sv_handlers s = [\<lparr>sh_id = 100, sh_handler = Accept_preinit, sh_socket = c\<rparr>]" and pc: "sv_pc s = Selecting"
    using create by (auto simp: server_create_def Let_def split: prod.splits sum.splits option.splits)
  obtain w2 w3 where con: "env_connect E w2 (sv_aux_socket s) (make_sockaddr_in e c_localhost port) = (0, w3)"
    and world: "sv_world s = snd (send_scalar e (\<lambda>w. env_send E w (sv_aux_socket s))
      (env_ioctl E w3 (sv_aux_socket s)) 4 (unat init_magic))"
    using aux by (auto simp: connect_aux_def split: prod.splits if_splits)
  have "ahead w3 \<noteq> None" "queued w3 = []"
    using own con unfolding connects_own_def by (metis fst_conv snd_conv)+
  then have sent: "ahead (sv_world s) \<noteq> None" "queued (sv_world s) = id_message init_magic"
    using own unfolding connects_own_def
    by (simp_all add: world send_scalar_def id_message_def reorder_store_value)
  moreover have "server_inv s" by (rule server_create_inv [OF create])
  ultimately show ?thesis
    using hs pc fd by (auto simp: starting_def preinit_kinds_def)
qed

lemma server_stop_starting:
  assumes own: "connects_own E (sv_aux_socket s) ahead queued"
    and sent: "ahead (sv_world s) \<noteq> None" "queued (sv_world s) = id_message init_magic"
    and start: "starting srv fd ahead queued pending [] s"
  shows "starting srv fd ahead queued pending (id_message 0) (server_stop e E s)"
  using assms
  by (auto simp: starting_def server_stop_def server_inv_def send_scalar_def connects_own_def id_message_def
      reorder_store_value)

section \<open>Another connection in its place\<close>

text \<open>
  The magic number is no secret: another connection that is accepted first and sends it takes the place
  of the server's own, which becomes a session. The zero of the destructor is then an empty message to
  that session, and the thread goes on.
\<close>

lemma impostor_absorbs_stop:
  assumes "recv_stream E fd (\<lambda>w. avail w fd)" and "avail (sv_world s) fd = id_message 0"
    and "handle_session e E fd i s = (r, s1)"
  shows "sv_trace s1 = sv_trace s @ [Got i []] \<and> (r = Inr Proceed \<or> (\<exists>x. r = Inl x))"
proof -
  obtain w1 where w1: "recv_scalar e E (sv_world s) fd Msg_waitall = (4, 0, w1)" "avail w1 fd = []"
    using recv_scalar_stream [OF assms(1), of "sv_world s" 0 "[]" e] assms(2) by (auto simp: id_message_def)
  obtain w2 where "env_recv E w1 fd 0 Msg_waitall = ((0, []), w2)"
    using recv_streamD [OF assms(1), of w1 0] w1(2) by auto
  then show ?thesis
    using assms(3) w1(1)
    by (auto simp: handle_session_def trace_def Let_def overwrite_def resize_def split: sum.splits)
qed

section \<open>A world in which this can be tried\<close>

text \<open>One other connection is ahead of the server's own, and sends nothing.\<close>

record startup_world =
  su_listens :: bool
  su_ahead :: "nat option"
  su_queued :: bytes
  su_avail :: "int \<Rightarrow> bytes"

definition startup_env :: "startup_world env" where
  "startup_env = \<lparr>
     env_socket = (\<lambda>w. (if su_listens w then 4 else 3, w\<lparr>su_listens := True\<rparr>)),
     env_setsockopt = (\<lambda>w s. (0, w)), env_bind = (\<lambda>w s a. (0, w)), env_listen = (\<lambda>w s n. (0, w)),
     env_connect = (\<lambda>w s a. (0, w\<lparr>su_ahead := Some 1, su_queued := []\<rparr>)), env_ioctl = (\<lambda>w s. w),
     env_accept = (\<lambda>w s. case su_ahead w of
         None \<Rightarrow> (- 1, w)
       | Some 0 \<Rightarrow>
           if su_avail w 5 = [] then (5, w\<lparr>su_ahead := None, su_avail := (su_avail w)(5 := su_queued w)\<rparr>)
           else (- 1, w)
       | Some (Suc n) \<Rightarrow> (7 + int n, w\<lparr>su_ahead := Some n\<rparr>)),
     env_close = (\<lambda>w s. w\<lparr>su_avail := (su_avail w)(s := [])\<rparr>),
     env_recv = (\<lambda>w s n opt. if s = 5
       then ((int (length (take n (su_avail w s))), take n (su_avail w s)),
         if opt = Msg_peek then w else w\<lparr>su_avail := (su_avail w)(s := drop n (su_avail w s))\<rparr>)
       else ((0, []), w)),
     env_send = (\<lambda>w s bs. (int (length bs), case su_ahead w of
         None \<Rightarrow> w\<lparr>su_avail := (su_avail w)(5 := su_avail w 5 @ bs)\<rparr>
       | Some n \<Rightarrow> w\<lparr>su_queued := su_queued w @ bs\<rparr>)),
     env_select = (\<lambda>w fds. ((1, filter (\<lambda>s. s = 3 \<and> su_ahead w \<noteq> None \<or> su_avail w s \<noteq> []) fds), w)),
     env_garbage = (\<lambda>w. 0),
     env_create_session = (\<lambda>w i. Inr w), env_session_message = (\<lambda>w i m. Inr w),
     env_session_disconnect = (\<lambda>w i. w), env_session_release = (\<lambda>w i. w)\<rparr>"

lemma startup_env_laws:
  "own_connection startup_env 3 5 su_ahead su_queued (\<lambda>w. su_avail w 5)"
  "leaves_alone startup_env 5 (\<lambda>w. su_avail w 5)"
  "recv_stream startup_env 5 (\<lambda>w. su_avail w 5)" "peek_stream startup_env 5 (\<lambda>w. su_avail w 5)"
  "reports startup_env 5 (\<lambda>w. su_avail w 5)" "connects_own startup_env s su_ahead su_queued"
  by (auto simp: own_connection_def leaves_alone_def recv_stream_def peek_stream_def reports_def connects_own_def
      startup_env_def split: option.split nat.split)

lemma startup_env_honest: "no_impostor e startup_env 5 s"
  by (auto simp: no_impostor_def recv_scalar_def startup_env_def)

end
