(* ===== verification/Socket_Isolation.thy ===== *)
theory Socket_Isolation
  imports Socket_Stop
begin

text \<open>
  Many connections at one thread: what a session is given while the turns of the thread go through the
  handlers of all others too. The stream of a connection is what its session has got of it, as
  frames, and what can still be received; whatever runs, it only grows at its end.
\<close>

fun got :: "u32 \<Rightarrow> session_event list \<Rightarrow> bytes list" where
  "got i [] = []"
| "got i (Got j m # evs) = (if j = i then m # got i evs else got i evs)"
| "got i (ev # evs) = got i evs"

lemma got_append [simp]: "got i (xs @ ys) = got i xs @ got i ys"
  by (induction i xs rule: got.induct) simp_all

text \<open>What a session is told.\<close>

fun concerns :: "u32 \<Rightarrow> session_event \<Rightarrow> bool" where
  "concerns i (Got j m) \<longleftrightarrow> j = i"
| "concerns i (Disconnected j) \<longleftrightarrow> j = i"
| "concerns i _ \<longleftrightarrow> False"

lemma got_concerns: "got i (filter (concerns i) tr) = got i tr"
  by (induction i tr rule: got.induct) simp_all

definition frames :: "endian \<Rightarrow> bytes list \<Rightarrow> bytes" where
  "frames e ms = concat (map (frame e True) ms)"

definition short_messages :: "bytes list \<Rightarrow> bool" where
  "short_messages ms \<longleftrightarrow> (\<forall>m \<in> set ms. length m < 2 ^ 32)"

definition connection_stream ::
  "endian \<Rightarrow> u32 \<Rightarrow> int \<Rightarrow> ('w \<Rightarrow> int \<Rightarrow> bytes) \<Rightarrow> 'w server \<Rightarrow> bytes" where
  "connection_stream e i c avail s = frames e (got i (sv_trace s)) @ avail (sv_world s) c"

definition session_at :: "u32 \<Rightarrow> int \<Rightarrow> socket_handler list \<Rightarrow> nat \<Rightarrow> bool" where
  "session_at i c hs j \<longleftrightarrow> sole_at (\<lambda>h. sh_socket h = c)
     \<lparr>sh_id = i, sh_handler = Handle_session i, sh_socket = c\<rparr> hs j"

text \<open>A peer that closes its end has sent all of its last message.\<close>

definition closes_whole :: "endian \<Rightarrow> bool \<Rightarrow> bytes \<Rightarrow> bool" where
  "closes_whole e closed pending \<longleftrightarrow>
     (closed \<longrightarrow> (\<exists>ms. pending = frames e ms \<and> short_messages ms))"

lemma session_at_gone:
  assumes "session_at i c hs j" shows "\<not> session_at i c (take j hs @ drop (Suc j) hs) l"
proof
  assume "session_at i c (take j hs @ drop (Suc j) hs) l"
  then have l: "l < length (take j hs @ drop (Suc j) hs)" "sh_socket ((take j hs @ drop (Suc j) hs) ! l) = c"
    by (simp_all add: session_at_def sole_at_def)
  have j: "j < length hs" "\<forall>m < length hs. m \<noteq> j \<longrightarrow> sh_socket (hs ! m) \<noteq> c"
    using assms by (simp_all add: session_at_def sole_at_def)
  have "(take j hs @ drop (Suc j) hs) ! l = hs ! (if l < j then l else Suc l)"
    using l(1) j(1) by (simp add: nth_append)
  with l j show False by (auto split: if_splits)
qed

lemma session_regular:
  assumes "server_inv s" and "sv_pc s \<noteq> Ended" and "session_at i c (sv_handlers s) j"
  shows "regular_kinds (sv_handlers s)"
proof -
  have "\<not> preinit_kinds (sv_handlers s)"
    using preinit_kinds_nth [of "sv_handlers s" j] assms(3) by (auto simp: session_at_def sole_at_def)
  with assms(1,2) show ?thesis by (simp add: server_inv_def)
qed

section \<open>A frame off the front\<close>

lemma network_header:
  assumes "4 \<le> length bs"
  shows "network_bytes 4 (header_value e True (take 4 bs)) = take 4 bs"
proof -
  let ?hdr = "take 4 bs"
  have len: "length ?hdr = 4" using assms by simp
  have "store_value e 4 (load_value e (reorder e ?hdr)) = reorder e ?hdr"
    using store_load_value [of e "reorder e ?hdr"] len by simp
  then have "network_bytes 4 (load_value e (reorder e ?hdr)) = reorder e (reorder e ?hdr)"
    using reorder_store_value [of e 4 "load_value e (reorder e ?hdr)"] by simp
  then show ?thesis by (simp add: header_value_def reorder_eq split: endian.splits)
qed

lemma whole_frame:
  assumes "4 \<le> length bs" and "header_value e True (take 4 bs) \<le> length bs - 4"
  shows "bs = frame e True (take (header_value e True (take 4 bs)) (drop 4 bs)) @
    drop (4 + header_value e True (take 4 bs)) bs"
proof -
  let ?n = "header_value e True (take 4 bs)"
  have "frame e True (take ?n (drop 4 bs)) = take 4 bs @ take ?n (drop 4 bs)"
    using assms network_header [OF assms(1), of e] by (simp add: frame_def frame_header_def)
  moreover have "bs = take 4 bs @ take ?n (drop 4 bs) @ drop ?n (drop 4 bs)" by (simp only: append_take_drop_id)
  ultimately show ?thesis by (metis add.commute append.assoc drop_drop)
qed

lemma frames_front:
  assumes "bs = frames e ms" and "short_messages ms" and "bs \<noteq> []"
  shows "4 \<le> length bs" and "header_value e True (take 4 bs) \<le> length bs - 4"
proof -
  obtain m ms' where ms: "ms = m # ms'" using assms(1,3) by (cases ms) (auto simp: frames_def)
  with assms(1) have bs: "bs = network_bytes 4 (length m) @ m @ frames e ms'"
    by (simp add: frames_def frame_def frame_header_def)
  then show "4 \<le> length bs" by simp
  have "header_value e True (take 4 bs) = length m"
    using assms(2) header_value_frame_header [of "length m" e True]
    by (simp add: bs ms frame_header_def short_messages_def)
  then show "header_value e True (take 4 bs) \<le> length bs - 4" by (simp add: bs)
qed

text \<open>Frames can be taken apart in one way only.\<close>

lemma frames_prefix:
  assumes "frames e ms @ rest = frames e ns" and "short_messages ms" and "short_messages ns"
  shows "prefix ms ns"
  using assms
proof (induction ms arbitrary: ns)
  case (Cons m ms)
  have ne: "frames e (m # ms) \<noteq> []" by (simp add: frames_def frame_def frame_header_def network_bytes_def)
  then obtain n ns' where ns: "ns = n # ns'" using Cons.prems(1) by (cases ns) (auto simp: frames_def)
  with Cons.prems(1) have eq: "network_bytes 4 (length m) @ m @ frames e ms @ rest =
      network_bytes 4 (length n) @ n @ frames e ns'"
    by (simp add: frames_def frame_def frame_header_def)
  then have hdr: "network_bytes 4 (length m) = network_bytes 4 (length n)" by simp
  have "length m < 2 ^ 32" "length n < 2 ^ 32" using Cons.prems(2,3) by (simp_all add: ns short_messages_def)
  then have "header_value e True (network_bytes 4 (length m)) = length m"
    "header_value e True (network_bytes 4 (length n)) = length n"
    using header_value_frame_header [of _ e True] by (simp_all add: frame_header_def)
  with hdr have len: "length m = length n" by metis
  from eq [unfolded hdr] have "m @ frames e ms @ rest = n @ frames e ns'" by (simp only: same_append_eq)
  then have "m = n" and rest: "frames e ms @ rest = frames e ns'"
    unfolding append_eq_append_conv [OF disjI1 [OF len]] by blast+
  have "prefix ms ns'" using Cons.prems(2,3) by (intro Cons.IH [OF rest]) (simp_all add: short_messages_def ns)
  with \<open>m = n\<close> show ?case by (simp add: ns)
qed simp

section \<open>The session's own turn\<close>

text \<open>
  A turn that does not wait takes one whole frame off the stream, or finds it at its end and tells
  the session so.
\<close>

lemma handle_session_stream:
  assumes recv: "recv_stream E c (\<lambda>w. avail w c)" and alone: "leaves_alone E c (\<lambda>w. avail w c)"
    and ready: "\<not> recv_waits (shut w c) (avail w c) 4"
      "case recv_scalar e E w c Msg_waitall of (r, sz, w1) \<Rightarrow>
        r > 0 \<longrightarrow> \<not> recv_waits (shut w c) (avail w1 c) (unat sz)"
    and whole: "closes_whole e (shut w c) (avail w c)" and w: "w = sv_world s"
    and run: "handle_session e E c i s = (r, s1)"
  shows "sv_pc s1 = sv_pc s \<and> sv_handlers s1 = sv_handlers s \<and>
    (if avail w c = [] then r = Inr Remove_this \<and> sv_trace s1 = sv_trace s @ [Disconnected i]
     else r \<noteq> Inr Remove_this \<and> r \<noteq> Inr Exit \<and>
       (\<exists>m. sv_trace s1 = sv_trace s @ [Got i m] \<and> length m < 2 ^ 32 \<and>
         prefix (avail w c) (frame e True m @ avail (sv_world s1) c)))"
proof -
  let ?bs = "avail w c"
  let ?n = "header_value e True (take 4 ?bs)"
  show ?thesis
  proof (cases "?bs = []")
    case True
    obtain w' where "env_recv E w c 4 Msg_waitall = ((0, []), w')"
      using recv_streamD [OF recv, of w 4] True by auto
    with run True show ?thesis by (auto simp: handle_session_def recv_scalar_def w)
  next
    case False
    have four: "4 \<le> length ?bs"
    proof (cases "shut w c")
      case True
      with whole obtain ms where "?bs = frames e ms" "short_messages ms"
        by (auto simp: closes_whole_def)
      from frames_front(1) [OF this False] show ?thesis .
    qed (use ready(1) in \<open>simp add: recv_waits_def\<close>)
    then obtain w1 where w1: "recv_scalar e E w c Msg_waitall = (4, word_of_nat ?n, w1)" "avail w1 c = drop 4 ?bs"
      using recv_scalar_stream_any [OF recv, of w e] by blast
    have "?n < 256 ^ 4"
      using load_value_less [of e "reorder e (take 4 ?bs)"] four by (simp add: header_value_def)
    then have n: "unat (word_of_nat ?n :: u32) = ?n" by (intro unat_of_nat_small) simp
    have len: "?n \<le> length ?bs - 4"
    proof (cases "shut w c")
      case True
      with whole obtain ms where "?bs = frames e ms" "short_messages ms"
        by (auto simp: closes_whole_def)
      from frames_front(2) [OF this False] show ?thesis .
    qed (use ready(2) w1 n in \<open>simp add: recv_waits_def\<close>)
    let ?m = "take ?n (drop 4 ?bs)"
    obtain w2 where w2: "env_recv E w1 c ?n Msg_waitall = ((int (length ?m), ?m), w2)" "avail w2 c = drop (4 + ?n) ?bs"
      using recv_streamD [OF recv, of w1 ?n] w1(2) by (auto simp: add.commute)
    have buffer: "overwrite (resize b ?n) ?m = ?m" for b using len by (intro overwrite_whole) (simp add: resize_def)
    have short: "length ?m < 2 ^ 32" using \<open>?n < 256 ^ 4\<close> by simp
    have bs: "?bs = frame e True ?m @ avail w2 c" using whole_frame [OF four len] w2(2) by simp
    show ?thesis
    proof (cases "env_session_message E w2 i ?m")
      case (Inl x)
      then show ?thesis
        using run w1 w2 bs False short by (auto simp: handle_session_def n buffer Let_def w [symmetric])
    next
      case (Inr w3)
      have "prefix (avail w2 c) (avail w3 c)" using leaves_aloneD(7) [OF alone Inr] .
      then have "prefix ?bs (frame e True ?m @ avail w3 c)" using bs by (metis same_prefix_prefix)
      with Inr show ?thesis
        using run w1 w2 False short by (auto simp: handle_session_def n buffer Let_def w [symmetric])
    qed
  qed
qed

section \<open>The turns of others\<close>

lemma session_ids:
  assumes "server_inv s" and "session_at i c (sv_handlers s) j" and "k < length (sv_handlers s)" and "k \<noteq> j"
  shows "sh_id (sv_handlers s ! k) \<noteq> i" and "sh_handler (sv_handlers s ! k) \<noteq> Handle_session i"
    and "sh_socket (sv_handlers s ! k) \<noteq> c"
proof -
  have ids: "ids_ok (sv_handlers s) (sv_next_id s)" using assms(1) by (simp add: server_inv_def handlers_fit_def)
  have j: "j < length (sv_handlers s)" "sh_id (sv_handlers s ! j) = i"
    using assms(2) by (simp_all add: session_at_def sole_at_def)
  show other: "sh_id (sv_handlers s ! k) \<noteq> i"
    using ids j assms(3,4) nth_eq_iff_index_eq [of "map sh_id (sv_handlers s)" k j] by (auto simp: ids_ok_def)
  have "sv_handlers s ! k \<in> set (sv_handlers s)" using assms(3) by simp
  with ids other show "sh_handler (sv_handlers s ! k) \<noteq> Handle_session i" unfolding ids_ok_def by metis
  show "sh_socket (sv_handlers s ! k) \<noteq> c" using assms(2-4) by (simp add: session_at_def sole_at_def)
qed

lemma accept_regular_trace:
  "accept_regular E fd s = (r, s1) \<Longrightarrow> filter (concerns i) (sv_trace s1) = filter (concerns i) (sv_trace s)"
  by (auto simp: accept_regular_def Let_def split: prod.splits sum.splits dest!: accept_connection_frame)

lemma handle_session_trace:
  "handle_session e E fd k s = (r, s1) \<Longrightarrow> k \<noteq> i \<Longrightarrow> filter (concerns i) (sv_trace s1) = filter (concerns i) (sv_trace s)"
  by (auto simp: handle_session_def Let_def split: prod.splits if_splits sum.splits)

lemma dtor_events_told [simp]: "filter (concerns i) (dtor_events f) = []"
  by (cases f) (simp_all add: dtor_events_def)

text \<open>What the turn of another handler leaves the session: its stream, and no message.\<close>

lemma other_turn_stream:
  assumes alone: "leaves_alone E c (\<lambda>w. avail w c)" and inv: "server_inv s"
    and sess: "session_at i c (sv_handlers s) j"
    and pc: "sv_pc s = Visiting fds k" and k: "k < length (sv_handlers s)" and kj: "k \<noteq> j"
    and ready: "sh_socket (sv_handlers s ! k) \<in> set fds"
  shows "(session_at i c (sv_handlers (server_turn e E s)) l \<longrightarrow>
      prefix (avail (sv_world s) c) (avail (sv_world (server_turn e E s)) c)) \<and>
    filter (concerns i) (sv_trace (server_turn e E s)) = filter (concerns i) (sv_trace s)"
proof -
  let ?h = "sv_handlers s ! k" and ?t = "server_turn e E s"
  note other = session_ids [OF inv sess k kj]
  have regular: "regular_kinds (sv_handlers s)" using session_regular [OF inv _ sess] pc by simp
  obtain r s1 where run: "run_handler e E k s = (r, s1)" by (cases "run_handler e E k s")
  note turn = server_turn_visit [OF pc k ready, of e E, unfolded run]
  have go: "prefix (avail (sv_world s) c) (avail (sv_world ?t) c) \<and> filter (concerns i) (sv_trace ?t) = filter (concerns i) (sv_trace s)"
    if "prefix (avail (sv_world s) c) (avail (sv_world s1) c)" "filter (concerns i) (sv_trace s1) = filter (concerns i) (sv_trace s)"
      "sv_handlers s1 = sv_handlers s \<or> r \<noteq> Inr Remove_this"
  proof (cases "r = Inr Remove_this")
    case True
    with that(3) have hs: "sv_handlers s1 = sv_handlers s" by blast
    have "prefix (avail (sv_world s1) c) (avail (sv_world (erase_handler E k s1)) c)"
      using erase_handler_alone [OF alone, of s1 k] other(3) by (simp add: hs)
    with that True prefix_order.trans show ?thesis by (auto simp: turn)
  qed (use that in \<open>auto simp: turn split: sum.split status.split\<close>)
  show ?thesis
  proof (cases "sh_handler ?h")
    case Accept_regular
    then have "accept_regular E (sh_socket ?h) s = (r, s1)" using run by (simp add: run_handler_def)
    from accept_regular_kept [OF alone this] accept_regular_trace [OF this, of i] go show ?thesis by auto
  next
    case (Handle_session i')
    then have s1: "handle_session e E (sh_socket ?h) i' s = (r, s1)" using run by (simp add: run_handler_def)
    have "i' \<noteq> i" using Handle_session other(2) by blast
    from handle_session_alone [OF alone other(3) s1] handle_session_trace [OF s1 this] go show ?thesis by simp
  next
    case Handle_aux
    obtain n i' w1 where w1: "recv_scalar e E (sv_world s) (sh_socket ?h) Msg_waitall = (n, i', w1)"
      using prod_cases3 by blast
    then have more: "prefix (avail (sv_world s) c) (avail w1 c)" using recv_scalar_alone [OF alone other(3)] by blast
    show ?thesis
    proof (cases "n > 0")
      case False
      then have "run_handler e E k s = (Inr Exit, s\<lparr>sv_world := w1\<rparr>)"
        using Handle_aux w1 by (simp add: run_handler_def handle_aux_def)
      with run more show ?thesis by (auto simp: turn)
    next
      case True
      note aux = server_turn_aux [OF pc k Handle_aux ready w1 True]
      show ?thesis
      proof (cases "find_handler i' (sv_handlers s)")
        case None
        with more show ?thesis by (simp add: aux)
      next
        case (Some m)
        then have m: "m < length (sv_handlers s)" using find_handler_Some by blast
        have "prefix (avail w1 c) (avail (sv_world (erase_handler E m (s\<lparr>sv_world := w1\<rparr>))) c)"
          if "session_at i c (sv_handlers ?t) l"
        proof -
          have "m \<noteq> j" using that session_at_gone [OF sess, of l] by (auto simp: aux Some)
          then have "sh_socket (sv_handlers s ! m) \<noteq> c" using session_ids(3) [OF inv sess m] by blast
          then show ?thesis using erase_handler_alone [OF alone, of "s\<lparr>sv_world := w1\<rparr>" m] by simp
        qed
        with more prefix_order.trans show ?thesis by (auto simp: aux Some)
      qed
    qed
  qed (use regular_kinds_nth [OF regular k] in simp_all)
qed

section \<open>Every turn\<close>

lemma session_turn_stream:
  assumes recv: "recv_stream E c (\<lambda>w. avail w c)" and alone: "leaves_alone E c (\<lambda>w. avail w c)"
    and sess: "session_at i c (sv_handlers s) k"
    and pc: "sv_pc s = Visiting fds k" and c: "c \<in> set fds"
    and ready: "\<not> turn_waits e E avail shut s" and whole: "closes_whole e (shut (sv_world s) c) (avail (sv_world s) c)"
  shows "if avail (sv_world s) c = []
    then sv_trace (server_turn e E s) = sv_trace s @ [Disconnected i, Released i] \<and>
      \<not> session_at i c (sv_handlers (server_turn e E s)) l
    else \<exists>m. sv_trace (server_turn e E s) = sv_trace s @ [Got i m] \<and> length m < 2 ^ 32 \<and>
      prefix (avail (sv_world s) c) (frame e True m @ avail (sv_world (server_turn e E s)) c)"
proof -
  have h: "k < length (sv_handlers s)" "sh_handler (sv_handlers s ! k) = Handle_session i"
      "sh_socket (sv_handlers s ! k) = c"
    using sess by (simp_all add: session_at_def sole_at_def)
  have waits: "\<not> recv_waits (shut (sv_world s) c) (avail (sv_world s) c) 4"
      "case recv_scalar e E (sv_world s) c Msg_waitall of (r, sz, w1) \<Rightarrow>
        r > 0 \<longrightarrow> \<not> recv_waits (shut (sv_world s) c) (avail w1 c) (unat sz)"
    using ready pc h c by (auto simp: turn_waits_def Let_def)
  obtain r s1 where run: "handle_session e E c i s = (r, s1)" by (cases "handle_session e E c i s")
  then have "run_handler e E k s = (r, s1)" using h by (simp add: run_handler_def)
  note turn = server_turn_visit [OF pc h(1), of e E, unfolded h(3), OF c, unfolded this]
  note stream = handle_session_stream [where avail = avail and shut = shut and c = c, OF recv alone waits whole refl run]
  show ?thesis
  proof (cases "avail (sv_world s) c = []")
    case True
    with stream have s1: "r = Inr Remove_this" "sv_trace s1 = sv_trace s @ [Disconnected i]"
        "sv_handlers s1 = sv_handlers s" by simp_all
    have "server_turn e E s = erase_handler E k s1" by (simp add: turn s1(1))
    with True s1(2,3) h session_at_gone [OF sess, of l] show ?thesis by (simp add: dtor_events_def)
  next
    case False
    with stream obtain m where m: "r \<noteq> Inr Remove_this" "sv_trace s1 = sv_trace s @ [Got i m]"
        "length m < 2 ^ 32" "prefix (avail (sv_world s) c) (frame e True m @ avail (sv_world s1) c)" by auto
    have "sv_trace (server_turn e E s) = sv_trace s1 \<and> sv_world (server_turn e E s) = sv_world s1"
      using m(1) by (auto simp: turn split: sum.split status.split)
    with m False show ?thesis by simp
  qed
qed

lemma connection_stream_turn:
  assumes recv: "recv_stream E c (\<lambda>w. avail w c)" and alone: "leaves_alone E c (\<lambda>w. avail w c)"
    and inv: "server_inv s" and sess: "session_at i c (sv_handlers s) j"
    and ready: "\<not> turn_waits e E avail shut s" and whole: "closes_whole e (shut (sv_world s) c) (avail (sv_world s) c)"
  shows "(session_at i c (sv_handlers (server_turn e E s)) l \<longrightarrow>
      prefix (connection_stream e i c avail s) (connection_stream e i c avail (server_turn e E s))) \<and>
    (filter (concerns i) (sv_trace (server_turn e E s)) = filter (concerns i) (sv_trace s) @ [Disconnected i] \<longrightarrow>
      connection_stream e i c avail s = frames e (got i (sv_trace (server_turn e E s)))) \<and>
    (short_messages (got i (sv_trace s)) \<longrightarrow> short_messages (got i (sv_trace (server_turn e E s))))"
proof -
  let ?t = "server_turn e E s"
  have quiet: ?thesis if "session_at i c (sv_handlers ?t) l \<longrightarrow>
      prefix (avail (sv_world s) c) (avail (sv_world ?t) c)"
    "filter (concerns i) (sv_trace ?t) = filter (concerns i) (sv_trace s)"
    using that got_concerns [of i "sv_trace s"] got_concerns [of i "sv_trace ?t"]
    by (auto simp: connection_stream_def)
  show ?thesis
  proof (cases "sv_pc s")
    case Selecting
    have "prefix (avail (sv_world s) c) (avail (sv_world ?t) c) \<and> sv_trace ?t = sv_trace s"
      using leaves_aloneD(10) [OF alone, of "sv_world s" "map sh_socket (sv_handlers s)"] Selecting
      by (auto simp: server_turn_def split: prod.split)
    with quiet show ?thesis by simp
  next
    case (Visiting fds k)
    show ?thesis
    proof (cases "k < length (sv_handlers s) \<and> sh_socket (sv_handlers s ! k) \<in> set fds")
      case False
      then have "sv_world ?t = sv_world s \<and> sv_trace ?t = sv_trace s"
        using Visiting by (auto simp: server_turn_def)
      with quiet show ?thesis by simp
    next
      case True
      show ?thesis
      proof (cases "k = j")
        case False
        with other_turn_stream [where avail = avail and c = c, OF alone inv sess Visiting _ False, of e l] True quiet show ?thesis by blast
      next
        case True
        with sess have sess': "session_at i c (sv_handlers s) k" by simp
        then have "c \<in> set fds" using \<open>k < _ \<and> _\<close> by (simp add: session_at_def sole_at_def)
        from session_turn_stream [where avail = avail and shut = shut and c = c, OF recv alone sess' Visiting this ready whole, of l]
        show ?thesis by (auto simp: connection_stream_def frames_def short_messages_def split: if_splits)
      qed
    qed
  qed (use quiet in \<open>simp_all add: server_turn_def\<close>)
qed

section \<open>Runs\<close>

lemma connection_stream_found:
  "prefix (avail (sv_world s) c) (avail w c) \<Longrightarrow>
   prefix (connection_stream e i c avail s) (connection_stream e i c avail (s\<lparr>sv_world := w\<rparr>))"
  by (simp add: connection_stream_def)

text \<open>As long as the session has its handler, its stream only grows.\<close>

lemma thread_run_stream:
  assumes run: "thread_run e E avail shut W S"
    and recv: "recv_stream E c (\<lambda>w. avail w c)" and alone: "leaves_alone E c (\<lambda>w. avail w c)"
    and inv: "server_inv (S 0)" and ids: "\<And>n. sv_next_id (S n) \<noteq> - 1"
    and more: "\<And>n. prefix (avail (sv_world (S n)) c) (avail (W n) c)"
    and whole: "\<And>n. closes_whole e (shut (W n) c) (avail (W n) c)"
    and alive: "\<And>m. m \<le> n \<Longrightarrow> \<exists>j. session_at i c (sv_handlers (S m)) j"
  shows "server_inv (S n) \<and> prefix (connection_stream e i c avail (S 0)) (connection_stream e i c avail (S n)) \<and>
    (short_messages (got i (sv_trace (S 0))) \<longrightarrow> short_messages (got i (sv_trace (S n))))"
  using alive
proof (induction n)
  case 0
  show ?case using inv by simp
next
  case (Suc n)
  then have inv_n: "server_inv (S n)"
    and so_far: "prefix (connection_stream e i c avail (S 0)) (connection_stream e i c avail (S n))"
    and short: "short_messages (got i (sv_trace (S 0))) \<longrightarrow> short_messages (got i (sv_trace (S n)))" by simp_all
  let ?s = "found W S n"
  have grown: "prefix (connection_stream e i c avail (S n)) (connection_stream e i c avail ?s)"
    unfolding found_def by (rule connection_stream_found [where avail = avail and c = c, OF more])
  have inv_s: "server_inv ?s" using inv_n by (simp add: found_def server_inv_def)
  show ?case
  proof (cases "turn_waits e E avail shut ?s")
    case True
    then have "S (Suc n) = ?s" using run by (simp add: thread_run_def)
    with inv_s so_far grown short prefix_order.trans show ?thesis by (auto simp: found_def)
  next
    case False
    then have next_state: "S (Suc n) = server_turn e E ?s" using run by (simp add: thread_run_def)
    obtain j where j: "session_at i c (sv_handlers ?s) j" using Suc.prems [of n] by (auto simp: found_def)
    obtain l where l: "session_at i c (sv_handlers (S (Suc n))) l" using Suc.prems [of "Suc n"] by auto
    have "closes_whole e (shut (sv_world ?s) c) (avail (sv_world ?s) c)" using whole by (simp add: found_def)
    note turn = connection_stream_turn [where avail = avail and shut = shut and c = c, OF recv alone inv_s j False this]
    have "prefix (connection_stream e i c avail ?s) (connection_stream e i c avail (S (Suc n)))"
      using turn l by (simp add: next_state)
    moreover have "server_inv (S (Suc n))"
      unfolding next_state by (rule server_turn_inv [OF inv_s]) (use ids in \<open>simp add: found_def\<close>)
    moreover have "short_messages (got i (sv_trace (S 0))) \<longrightarrow> short_messages (got i (sv_trace (S (Suc n))))"
      using turn short by (simp add: next_state found_def)
    ultimately show ?thesis using so_far grown prefix_order.trans by blast
  qed
qed

text \<open>When the session is told of the disconnection it has got all there was.\<close>

lemma thread_run_disconnected:
  assumes "thread_run e E avail shut W S"
    and "recv_stream E c (\<lambda>w. avail w c)" and "leaves_alone E c (\<lambda>w. avail w c)"
    and "server_inv (S 0)" and "\<And>n. sv_next_id (S n) \<noteq> - 1"
    and more: "\<And>n. prefix (avail (sv_world (S n)) c) (avail (W n) c)"
    and whole: "\<And>n. closes_whole e (shut (W n) c) (avail (W n) c)"
    and alive: "\<And>m. m \<le> n \<Longrightarrow> \<exists>j. session_at i c (sv_handlers (S m)) j"
    and told: "filter (concerns i) (sv_trace (S (Suc n))) = filter (concerns i) (sv_trace (S n)) @ [Disconnected i]"
  shows "prefix (connection_stream e i c avail (S 0)) (frames e (got i (sv_trace (S (Suc n)))))"
proof -
  let ?s = "found W S n"
  note so_far = thread_run_stream [where avail = avail and shut = shut and c = c, OF assms(1-5) more whole alive]
  have grown: "prefix (connection_stream e i c avail (S n)) (connection_stream e i c avail ?s)"
    unfolding found_def by (rule connection_stream_found [where avail = avail and c = c, OF more])
  have inv_s: "server_inv ?s" using so_far by (simp add: found_def server_inv_def)
  have "S (Suc n) = (if turn_waits e E avail shut ?s then ?s else server_turn e E ?s)"
    using assms(1) by (simp add: thread_run_def)
  with told have run: "\<not> turn_waits e E avail shut ?s" "S (Suc n) = server_turn e E ?s"
    by (auto simp: found_def split: if_splits)
  obtain j where j: "session_at i c (sv_handlers ?s) j" using alive [of n] by (auto simp: found_def)
  have "closes_whole e (shut (sv_world ?s) c) (avail (sv_world ?s) c)" using whole by (simp add: found_def)
  from connection_stream_turn [where avail = avail and shut = shut and c = c, OF assms(2,3) inv_s j run(1) this]
  have "connection_stream e i c avail ?s = frames e (got i (sv_trace (S (Suc n))))"
    using told by (simp add: run(2) found_def)
  with so_far grown prefix_order.trans show ?thesis by metis
qed

end
