(* ===== verification/Socket_Descriptors.thy ===== *)
theory Socket_Descriptors
  imports Socket_Sessions
begin

text \<open>
  The descriptors of the socket server: which it has open, and that it closes each of them once.
  \<open>opened\<close> reads off the outside world the descriptors that the server has been given and has not
  closed; \<open>books\<close> is what the system calls do to them.
\<close>

section \<open>What the system calls do\<close>

definition gives_descriptor :: "('w \<Rightarrow> int set) \<Rightarrow> 'w \<Rightarrow> int \<times> 'w \<Rightarrow> bool" where
  "gives_descriptor opened w r \<longleftrightarrow>
     (if fst r = - 1 then opened (snd r) = opened w
      else 0 < fst r \<and> fst r \<notin> opened w \<and> opened (snd r) = insert (fst r) (opened w))"

definition books :: "'w env \<Rightarrow> ('w \<Rightarrow> int set) \<Rightarrow> bool" where
  "books E opened \<longleftrightarrow>
     (\<forall>w. gives_descriptor opened w (env_socket E w)) \<and>
     (\<forall>w fd. gives_descriptor opened w (env_accept E w fd)) \<and>
     (\<forall>w fd. opened (env_close E w fd) = opened w - {fd}) \<and>
     (\<forall>w fd. opened (snd (env_setsockopt E w fd)) = opened w) \<and>
     (\<forall>w fd a. opened (snd (env_bind E w fd a)) = opened w) \<and>
     (\<forall>w fd n. opened (snd (env_listen E w fd n)) = opened w) \<and>
     (\<forall>w fd a. opened (snd (env_connect E w fd a)) = opened w) \<and>
     (\<forall>w fd. opened (env_ioctl E w fd) = opened w) \<and>
     (\<forall>w fd n opts. opened (snd (env_recv E w fd n opts)) = opened w) \<and>
     (\<forall>w fd bs. opened (snd (env_send E w fd bs)) = opened w) \<and>
     (\<forall>w fds. opened (snd (env_select E w fds)) = opened w) \<and>
     (\<forall>w i. case env_create_session E w i of Inl _ \<Rightarrow> True | Inr w' \<Rightarrow> opened w' = opened w) \<and>
     (\<forall>w i m. case env_session_message E w i m of Inl _ \<Rightarrow> True | Inr w' \<Rightarrow> opened w' = opened w) \<and>
     (\<forall>w i. opened (env_session_disconnect E w i) = opened w) \<and>
     (\<forall>w i. opened (env_session_release E w i) = opened w)"

lemma books_closed:
  assumes "books E opened"
  shows "opened (env_close E w fd) = opened w - {fd}"
    and "opened (env_ioctl E w fd) = opened w"
    and "opened (env_session_disconnect E w i) = opened w"
    and "opened (env_session_release E w i) = opened w"
  using assms by (simp_all add: books_def)

lemma books_sessions:
  assumes "books E opened"
  shows "env_create_session E w i = Inr w' \<Longrightarrow> opened w' = opened w"
    and "env_session_message E w i m = Inr w' \<Longrightarrow> opened w' = opened w"
proof -
  have "case env_create_session E w i of Inl _ \<Rightarrow> True | Inr w' \<Rightarrow> opened w' = opened w"
    and "case env_session_message E w i m of Inl _ \<Rightarrow> True | Inr w' \<Rightarrow> opened w' = opened w"
    using assms by (simp_all only: books_def)
  then show "env_create_session E w i = Inr w' \<Longrightarrow> opened w' = opened w"
    and "env_session_message E w i m = Inr w' \<Longrightarrow> opened w' = opened w"
    by simp_all
qed

lemma books_calls:
  assumes "books E opened"
  shows "opened (snd (env_setsockopt E w fd)) = opened w"
    and "opened (snd (env_bind E w fd a)) = opened w"
    and "opened (snd (env_listen E w fd n)) = opened w"
    and "opened (snd (env_connect E w fd a)) = opened w"
    and "opened (snd (env_recv E w fd n opts)) = opened w"
    and "opened (snd (env_send E w fd bs)) = opened w"
    and "opened (snd (env_select E w fds)) = opened w"
    and "gives_descriptor opened w (env_socket E w)"
    and "gives_descriptor opened w (env_accept E w fd)"
  using assms by (simp_all add: books_def)

lemma socket_handle_reset_books:
  "books E opened \<Longrightarrow> 0 < c \<Longrightarrow> opened (socket_handle_reset E c w) = opened w - {c}"
  by (simp add: socket_handle_reset_def books_closed(1))

lemma setup_socket_books:
  assumes "books E opened" and "setup_socket E c w = (x, w1)"
  shows "opened w1 = opened w"
  using assms(2) books_calls(1) [OF assms(1), of w c]
  by (cases "env_setsockopt E w c") (auto simp: setup_socket_def)

lemma recv_scalar_books:
  assumes "books E opened" and "recv_scalar e E w fd opts = (r, v, w1)"
  shows "opened w1 = opened w"
  using assms(2) books_calls(5) [OF assms(1), of w fd 4 opts]
  by (cases "env_recv E w fd 4 opts") (auto simp: recv_scalar_def split: prod.splits)

lemma send_scalar_books:
  "books E opened \<Longrightarrow> opened (snd (send_scalar e (\<lambda>w. env_send E w fd) w n v)) = opened w"
  by (simp add: send_scalar_def books_calls(6))

section \<open>The server owns its sockets\<close>

definition sockets_of :: "'w server \<Rightarrow> int list" where
  "sockets_of s = sv_aux_socket s # map sh_socket (sv_handlers s)"

definition owns :: "('w \<Rightarrow> int set) \<Rightarrow> 'w server \<Rightarrow> bool" where
  [inv_defs]: "owns opened s \<longleftrightarrow> distinct (sockets_of s) \<and> (\<forall>fd \<in> set (sockets_of s). 0 < fd) \<and>
     opened (sv_world s) = set (sockets_of s)"

lemma owns_world [simp]:
  "opened w = opened (sv_world s) \<Longrightarrow> owns opened (s\<lparr>sv_world := w\<rparr>) = owns opened s"
  by (simp add: owns_def sockets_of_def)

lemma owns_pc [simp]: "owns opened (s\<lparr>sv_pc := pc\<rparr>) = owns opened s"
  by (simp add: owns_def sockets_of_def)

text \<open>A state with the same sockets and the same descriptors open.\<close>

lemma owns_same:
  "owns opened s \<Longrightarrow> sv_aux_socket t = sv_aux_socket s \<Longrightarrow>
   map sh_socket (sv_handlers t) = map sh_socket (sv_handlers s) \<Longrightarrow>
   opened (sv_world t) = opened (sv_world s) \<Longrightarrow> owns opened t"
  by (simp add: owns_def sockets_of_def)

lemma owns_append:
  assumes "owns opened s" and "0 < c" and "c \<notin> opened (sv_world s)"
    and "opened (sv_world t) = insert c (opened (sv_world s))"
    and "sv_aux_socket t = sv_aux_socket s" and "sv_handlers t = sv_handlers s @ [h]" and "sh_socket h = c"
  shows "owns opened t"
  using assms by (auto simp: owns_def sockets_of_def)

lemma owns_erase:
  assumes "books E opened" and "owns opened s" and "k < length (sv_handlers s)"
  shows "owns opened (erase_handler E k s)"
proof -
  let ?fd = "sh_socket (sv_handlers s ! k)"
  define xs ys where "xs = map sh_socket (take k (sv_handlers s))"
    and "ys = map sh_socket (drop (Suc k) (sv_handlers s))"
  have split: "map sh_socket (sv_handlers s) = xs @ ?fd # ys"
    using id_take_nth_drop [OF assms(3)] by (metis xs_def ys_def list.simps(9) map_append)
  have "0 < ?fd" using assms(2) split by (simp add: owns_def sockets_of_def)
  then have "opened (sv_world (erase_handler E k s)) = opened (sv_world s) - {?fd}"
    using assms(1)
    by (simp add: erase_handler_def socket_handler_dtor_def release_handler_def Let_def
        socket_handle_reset_books books_closed(4) split: handler_fn.split)
  moreover have "map sh_socket (sv_handlers (erase_handler E k s)) = xs @ ys"
    by (simp add: xs_def ys_def)
  ultimately show ?thesis
    using assms(2) by (auto simp: owns_def sockets_of_def split)
qed

lemma accept_connection_owns:
  assumes "books E opened" and "owns opened s" and "accept_connection E fd s = (r, s1)"
  shows "case r of
      Inl x \<Rightarrow> owns opened s1
    | Inr c \<Rightarrow> 0 < c \<and> c \<notin> opened (sv_world s) \<and> opened (sv_world s1) = insert c (opened (sv_world s))"
proof -
  obtain c w1 where acc: "env_accept E (sv_world s) fd = (c, w1)" by fastforce
  obtain x w2 where opts: "setup_socket E c w1 = (x, w2)" by fastforce
  have w2: "opened w2 = opened w1" using assms(1) opts by (rule setup_socket_books)
  have new: "gives_descriptor opened (sv_world s) (c, w1)" unfolding acc [symmetric] using assms(1) by (rule books_calls(9))
  obtain w where s1: "s1 = s\<lparr>sv_world := w\<rparr>" using accept_connection_frame [OF assms(3)] by blast
  show ?thesis
  proof (cases "c = - 1")
    case True
    then show ?thesis
      using assms(2,3) acc new
      by (auto simp: accept_connection_def socket_handle_ctor_def gives_descriptor_def intro: owns_same)
  next
    case False
    then have c: "0 < c" "c \<notin> opened (sv_world s)" "opened w2 = insert c (opened (sv_world s))"
      using new w2 by (simp_all add: gives_descriptor_def)
    then have "opened (socket_handle_reset E c w2) = opened (sv_world s)"
      using assms(1) by (simp add: socket_handle_reset_books)
    then show ?thesis
      using assms(2,3) acc False c opts
      by (cases x) (auto simp: accept_connection_def socket_handle_ctor_def intro: owns_same)
  qed
qed

lemma accept_preinit_owns:
  assumes "books E opened" and "owns opened s" and "accept_preinit E fd s = (r, s1)"
  shows "owns opened s1"
proof -
  obtain a s2 where acc: "accept_connection E fd s = (a, s2)" by fastforce
  then obtain w where s2: "s2 = s\<lparr>sv_world := w\<rparr>" using accept_connection_frame by blast
  note own = accept_connection_owns [OF assms(1,2) acc]
  show ?thesis
  proof (cases a)
    case (Inl x)
    with own assms(3) acc show ?thesis by (simp add: accept_preinit_def)
  next
    case (Inr c)
    with own have c: "0 < c" "c \<notin> opened (sv_world s)" "opened w = insert c (opened (sv_world s))"
      by (simp_all add: s2)
    let ?h = "\<lparr>sh_id = sv_next_id s, sh_handler = Handle_preinit, sh_socket = c\<rparr>"
    have "s1 = s\<lparr>sv_world := w, sv_handlers := sv_handlers s @ [?h], sv_next_id := sv_next_id s + 1\<rparr>"
      using assms(3) acc Inr by (simp add: accept_preinit_def s2)
    then show ?thesis using c(3) by (intro owns_append [OF assms(2) c(1,2), of s1 ?h]) simp_all
  qed
qed

lemma accept_regular_owns:
  assumes "books E opened" and "owns opened s" and "accept_regular E fd s = (r, s1)"
  shows "owns opened s1"
proof -
  obtain a s2 where acc: "accept_connection E fd s = (a, s2)" by fastforce
  then obtain w where s2: "s2 = s\<lparr>sv_world := w\<rparr>" using accept_connection_frame by blast
  note own = accept_connection_owns [OF assms(1,2) acc]
  show ?thesis
  proof (cases a)
    case (Inl x)
    with own assms(3) acc show ?thesis by (simp add: accept_regular_def)
  next
    case (Inr c)
    with own have c: "0 < c" "c \<notin> opened (sv_world s)" "opened w = insert c (opened (sv_world s))"
      by (simp_all add: s2)
    show ?thesis
    proof (cases "env_create_session E w (sv_next_id s)")
      case (Inl x)
      then have "s1 = s\<lparr>sv_next_id := sv_next_id s + 1, sv_world := socket_handle_reset E c w\<rparr>"
        using assms(3) acc \<open>a = Inr c\<close> by (simp add: accept_regular_def s2 Let_def)
      then show ?thesis
        using c by (intro owns_same [OF assms(2)]) (simp_all add: socket_handle_reset_books [OF assms(1)])
    next
      case (Inr w')
      let ?i = "sv_next_id s"
      let ?h = "\<lparr>sh_id = ?i, sh_handler = Handle_session ?i, sh_socket = c\<rparr>"
      have "opened w' = insert c (opened (sv_world s))" using books_sessions(1) [OF assms(1) Inr] c(3) by simp
      moreover have "s1 = trace (Created ?i) (s\<lparr>sv_world := w', sv_handlers := sv_handlers s @ [?h], sv_next_id := ?i + 1\<rparr>)"
        using assms(3) acc Inr \<open>a = Inr c\<close> by (auto simp: accept_regular_def s2 Let_def)
      ultimately show ?thesis by (intro owns_append [OF assms(2) c(1,2), of s1 ?h]) simp_all
    qed
  qed
qed

text \<open>Nothing is done with the sockets themselves.\<close>

definition same_sockets :: "('w \<Rightarrow> int set) \<Rightarrow> 'w server \<Rightarrow> 'w server \<Rightarrow> bool" where
  "same_sockets opened s t \<longleftrightarrow> sv_aux_socket t = sv_aux_socket s \<and>
     map sh_socket (sv_handlers t) = map sh_socket (sv_handlers s) \<and>
     opened (sv_world t) = opened (sv_world s)"

lemma same_sockets_owns: "same_sockets opened s t \<Longrightarrow> owns opened s \<Longrightarrow> owns opened t"
  unfolding same_sockets_def by (blast intro: owns_same)

lemma same_sockets_trans: "same_sockets opened s t \<Longrightarrow> same_sockets opened t u \<Longrightarrow> same_sockets opened s u"
  by (simp add: same_sockets_def)

lemma assign_handlers_sockets:
  assumes "books E opened" and "assign_handlers E self i n s = (x, s1)" and "i + n = length (sv_handlers s)"
  shows "same_sockets opened s s1"
  using assms
proof (induction E self i n s rule: assign_handlers.induct)
  case (2 E self i n s)
  let ?h = "sv_handlers s ! i"
  let ?set = "\<lambda>f s. s\<lparr>sv_handlers := (sv_handlers s)[i := ?h\<lparr>sh_handler := f\<rparr>]\<rparr>"
  have set: "same_sockets opened s (?set f s)" for f
    using "2.prems"(3) by (simp add: same_sockets_def map_update list_update_same_conv)
  consider "i = 0" | "i \<noteq> 0" "i = self" | "i \<noteq> 0" "i \<noteq> self" by blast
  then show ?case
  proof cases
    case 1
    then show ?thesis using "2.IH"(1) [OF refl refl 1] "2.prems" same_sockets_trans [OF set] by simp
  next
    case 2
    then show ?thesis using "2.IH"(2) [OF refl refl 2] "2.prems" same_sockets_trans [OF set] by simp
  next
    case 3
    show ?thesis
    proof (cases "env_create_session E (sv_world s) (sh_id ?h)")
      case (Inl y)
      then show ?thesis using 3 "2.prems" by (auto simp: same_sockets_def)
    next
      case (Inr w)
      let ?s1 = "trace (Created (sh_id ?h)) (?set (Handle_session (sh_id ?h)) (s\<lparr>sv_world := w\<rparr>))"
      have "same_sockets opened s ?s1"
        using set [of "Handle_session (sh_id ?h)"] books_sessions(1) [OF "2.prems"(1) Inr]
        by (simp add: same_sockets_def)
      with "2.IH"(3) [OF refl refl 3 Inr] "2.prems" 3 Inr same_sockets_trans show ?thesis
        by (fastforce simp: Let_def)
    qed
  qed
qed (simp add: same_sockets_def)

lemma handle_preinit_sockets:
  assumes "books E opened" and "handle_preinit e E self fd s = (r, s1)"
  shows "same_sockets opened s s1"
proof -
  obtain n magic w1 where peek: "recv_scalar e E (sv_world s) fd Msg_peek = (n, magic, w1)"
    using prod_cases3 by blast
  obtain n' m' w2 where recv: "recv_scalar e E w1 fd Msg_waitall = (n', m', w2)"
    using prod_cases3 by blast
  obtain x s2 where assign: "assign_handlers E self 0 (length (sv_handlers s)) (s\<lparr>sv_world := w2\<rparr>) = (x, s2)"
    by fastforce
  have w: "opened w1 = opened (sv_world s)" "opened w2 = opened (sv_world s)"
    using recv_scalar_books [OF assms(1) peek] recv_scalar_books [OF assms(1) recv] by simp_all
  have "same_sockets opened s s2"
    using assign_handlers_sockets [OF assms(1) assign] w by (simp add: same_sockets_def)
  then show ?thesis
    using assms(2) peek recv assign w
    by (auto simp: handle_preinit_def same_sockets_def split: option.splits if_splits)
qed

lemma handle_session_sockets:
  assumes "books E opened" and "handle_session e E fd i s = (r, s1)"
  shows "same_sockets opened s s1"
proof -
  obtain n sz w1 where recv: "recv_scalar e E (sv_world s) fd Msg_waitall = (n, sz, w1)"
    using prod_cases3 by blast
  obtain d w2 where payload: "env_recv E w1 fd (unat sz) Msg_waitall = (d, w2)" by fastforce
  have "opened w1 = opened (sv_world s)" "opened w2 = opened w1"
    using recv_scalar_books [OF assms(1) recv] books_calls(5) [OF assms(1), of w1 fd "unat sz" Msg_waitall] payload
    by simp_all
  then show ?thesis
    using assms recv payload
    by (auto simp: handle_session_def same_sockets_def Let_def books_closed books_sessions
        split: prod.splits sum.splits if_splits)
qed

lemma handle_aux_owns:
  assumes "books E opened" and "owns opened s" and "handle_aux e E fd s = (r, s1)"
  shows "owns opened s1"
proof -
  obtain n i w1 where recv: "recv_scalar e E (sv_world s) fd Msg_waitall = (n, i, w1)"
    using prod_cases3 by blast
  let ?s = "s\<lparr>sv_world := w1\<rparr>"
  have own: "owns opened ?s"
    using assms(2) recv_scalar_books [OF assms(1) recv] by (intro owns_same [OF assms(2)]) simp_all
  then show ?thesis
    using assms(3) recv own owns_erase [OF assms(1) own] find_handler_Some
    by (auto simp: handle_aux_def Let_def split: if_splits option.splits)
qed

lemma run_handler_owns:
  assumes "books E opened" and "owns opened s" and "run_handler e E k s = (r, s1)"
  shows "owns opened s1"
  using assms
  by (auto simp: run_handler_def Let_def split: handler_fn.splits
      intro: accept_preinit_owns accept_regular_owns handle_aux_owns same_sockets_owns
        handle_preinit_sockets handle_session_sockets)

text \<open>A turn of the thread.\<close>

lemma server_turn_owns:
  assumes books: "books E opened" and own: "owns opened s"
  shows "owns opened (server_turn e E s)"
proof (cases "sv_pc s")
  case Selecting
  obtain r ready w1 where "env_select E (sv_world s) (map sh_socket (sv_handlers s)) = ((r, ready), w1)"
    by (metis prod.collapse)
  with Selecting own books_calls(7) [OF books, of "sv_world s" "map sh_socket (sv_handlers s)"] show ?thesis
    by (simp add: server_turn_def)
next
  case (Visiting fds k)
  obtain r s1 where run: "run_handler e E k s = (r, s1)" by fastforce
  then have own1: "owns opened s1" by (rule run_handler_owns [OF books own])
  show ?thesis
  proof (cases "k < length (sv_handlers s) \<and> sh_socket (sv_handlers s ! k) \<in> set fds")
    case True
    have "owns opened (erase_handler E k s1)" if "r = Inr Remove_this"
    proof -
      have "sv_handlers s1 = sv_handlers s" using run that
        by (auto simp: run_handler_def handle_session_def accept_preinit_def accept_regular_def
            handle_preinit_def handle_aux_def Let_def
            split: handler_fn.splits prod.splits sum.splits option.splits if_splits)
      with True own1 show ?thesis by (intro owns_erase [OF books]) simp_all
    qed
    with True Visiting run own1 show ?thesis
      by (auto simp: server_turn_def split: sum.split status.split)
  qed (use Visiting own in \<open>auto simp: server_turn_def\<close>)
qed (use own in \<open>simp_all add: server_turn_def\<close>)

section \<open>Construction and destruction\<close>

lemma listen_on_books:
  assumes "books E opened" and "listen_on e E fd hp w = (x, w1)"
  shows "opened w1 = opened w"
proof -
  obtain y w2 where opts: "setup_socket E fd w = (y, w2)" by fastforce
  obtain r w3 where bound: "env_bind E w2 fd (make_sockaddr_in e (hp_host hp) (hp_port hp)) = (r, w3)" by fastforce
  obtain r' w4 where listen: "env_listen E w3 fd max_backlog = (r', w4)" by fastforce
  have "opened w2 = opened w" "opened w3 = opened w2" "opened w4 = opened w3"
    using setup_socket_books [OF assms(1) opts] books_calls(2) [OF assms(1), of w2 fd "make_sockaddr_in e (hp_host hp) (hp_port hp)"]
      books_calls(3) [OF assms(1), of w3 fd max_backlog] bound listen by simp_all
  with assms(2) opts bound listen show ?thesis
    by (cases y) (auto simp: listen_on_def split: if_splits)
qed

lemma connect_aux_books:
  assumes "books E opened" and "connect_aux e E port w = (r, w1)"
  shows "case r of
      Inl x \<Rightarrow> opened w1 = opened w
    | Inr fd \<Rightarrow> 0 < fd \<and> fd \<notin> opened w \<and> opened w1 = insert fd (opened w)"
proof -
  obtain fd w2 where fd: "env_socket E w = (fd, w2)" by fastforce
  have new: "gives_descriptor opened w (fd, w2)"
    unfolding fd [symmetric] using assms(1) by (rule books_calls(8))
  obtain c w3 where conn: "env_connect E w2 fd (make_sockaddr_in e c_localhost port) = (c, w3)" by fastforce
  have "opened w3 = opened w2"
    using books_calls(4) [OF assms(1), of w2 fd "make_sockaddr_in e c_localhost port"] conn by simp
  with assms fd new conn show ?thesis
    by (auto simp: connect_aux_def gives_descriptor_def books_closed send_scalar_books split: if_splits)
qed

lemma server_create_books:
  assumes "books E opened" and "server_create e E endpoint_id w = (r, w1)" and "opened w = {}"
  shows "case r of Inl x \<Rightarrow> opened w1 = {} | Inr s \<Rightarrow> owns opened s \<and> sv_world s = w1"
proof -
  let ?hp = "host_port_ctor endpoint_id c_localhost"
  obtain fd w2 where fd: "env_socket E w = (fd, w2)" by fastforce
  have new: "gives_descriptor opened w (fd, w2)"
    unfolding fd [symmetric] using assms(1) by (rule books_calls(8))
  show ?thesis
  proof (cases "fd = - 1")
    case True
    with assms fd new show ?thesis
      by (auto simp: server_create_def socket_handle_ctor_def gives_descriptor_def)
  next
    case False
    then have open2: "0 < fd" "opened w2 = {fd}" using new assms(3) by (simp_all add: gives_descriptor_def)
    obtain x w3 where listen: "listen_on e E fd ?hp w2 = (x, w3)" by fastforce
    have open3: "opened w3 = {fd}" using listen_on_books [OF assms(1) listen] open2 by simp
    obtain a w4 where aux: "connect_aux e E (hp_port ?hp) w3 = (a, w4)" by fastforce
    have closed: "opened (socket_handle_reset E fd w') = opened w' - {fd}" for w'
      using assms(1) open2(1) by (rule socket_handle_reset_books)
    show ?thesis
      using assms(2) fd False listen aux connect_aux_books [OF assms(1) aux] open2 open3 closed
      by (cases x; cases a)
        (auto simp: server_create_def socket_handle_ctor_def Let_def owns_def sockets_of_def)
  qed
qed

lemma destroy_handlers_owns:
  assumes "books E opened" and "owns opened s" and "n = length (sv_handlers s)"
  shows "owns opened (destroy_handlers E n s) \<and> sv_handlers (destroy_handlers E n s) = []"
  using assms(2,3)
proof (induction n arbitrary: s)
  case (Suc n)
  have "0 < length (sv_handlers s)" by (simp flip: Suc.prems(2))
  then have "owns opened (erase_handler E 0 s)" by (rule owns_erase [OF assms(1) Suc.prems(1)])
  moreover have "n = length (sv_handlers (erase_handler E 0 s))" by (simp flip: Suc.prems(2))
  ultimately have "owns opened (destroy_handlers E n (erase_handler E 0 s)) \<and>
      sv_handlers (destroy_handlers E n (erase_handler E 0 s)) = []" by (rule Suc.IH)
  then show ?case by simp
qed simp

lemma server_dtor_closes:
  assumes "books E opened" and "owns opened s"
  shows "opened (sv_world (server_dtor E s)) = {}"
proof -
  let ?t = "destroy_handlers E (length (sv_handlers s)) s"
  have "owns opened ?t" "sv_handlers ?t = []" using destroy_handlers_owns [OF assms refl] by simp_all
  then have "0 < sv_aux_socket ?t" "opened (sv_world ?t) = {sv_aux_socket ?t}"
    by (simp_all add: owns_def sockets_of_def)
  then show ?thesis using assms(1) by (simp add: server_dtor_def Let_def socket_handle_reset_books)
qed

section \<open>Runs\<close>

text \<open>What happens outside leaves the descriptors of the server alone.\<close>

inductive owned_run :: "endian \<Rightarrow> 'w env \<Rightarrow> ('w \<Rightarrow> int set) \<Rightarrow> 'w server \<Rightarrow> bool" for e E opened where
  start: "server_create e E endpoint_id w = (Inr s, w') \<Longrightarrow> opened w = {} \<Longrightarrow> owned_run e E opened s"
| turn: "owned_run e E opened s \<Longrightarrow> owned_run e E opened (server_turn e E s)"
| outside: "owned_run e E opened s \<Longrightarrow> opened w = opened (sv_world s) \<Longrightarrow>
    owned_run e E opened (s\<lparr>sv_world := w\<rparr>)"

lemma owned_run_owns: "owned_run e E opened s \<Longrightarrow> books E opened \<Longrightarrow> owns opened s"
proof (induction rule: owned_run.induct)
  case (start endpoint_id w s w')
  from server_create_books [OF start(3,1,2)] show ?case by simp
qed (simp_all add: server_turn_owns)

text \<open>Distinct positive descriptors: from \<open>fd_setsize\<close> handlers on, one of them is too large.\<close>

lemma too_many_sockets:
  assumes "owns opened s" and "nat fd_setsize \<le> length (sv_handlers s)"
  shows "\<not> fits_fd_set (map sh_socket (sv_handlers s))"
proof
  assume "fits_fd_set (map sh_socket (sv_handlers s))"
  then have "set (map sh_socket (sv_handlers s)) \<subseteq> {0 <..< fd_setsize}"
    using assms(1) by (auto simp: fits_fd_set_def list_all_iff owns_def sockets_of_def)
  then have "card (set (map sh_socket (sv_handlers s))) \<le> card {0 <..< fd_setsize}"
    by (rule card_mono [rotated]) simp
  moreover have "card (set (map sh_socket (sv_handlers s))) = length (sv_handlers s)"
    using assms(1) distinct_card [of "map sh_socket (sv_handlers s)"] by (simp add: owns_def sockets_of_def)
  ultimately show False using assms(2) by (simp add: fd_setsize_def)
qed

section \<open>An environment that hands out descriptors\<close>

definition fresh_descriptor :: "int list \<Rightarrow> int" where
  "fresh_descriptor w = fold max w 2 + 1"

lemma fold_max_le: "a \<le> fold max w (a :: int) \<and> (\<forall>x \<in> set w. x \<le> fold max w a)"
proof (induction w arbitrary: a)
  case (Cons b w)
  from Cons.IH [of "max b a"] show ?case by auto
qed simp

lemma fresh_descriptor: "0 < fresh_descriptor w \<and> fresh_descriptor w \<notin> set w"
  using fold_max_le [of 2 w] by (auto simp: fresh_descriptor_def)

definition descriptor_env :: "int list env" where
  "descriptor_env = \<lparr>
     env_socket = (\<lambda>w. (fresh_descriptor w, fresh_descriptor w # w)), env_setsockopt = (\<lambda>w s. (0, w)),
     env_bind = (\<lambda>w s a. (0, w)), env_listen = (\<lambda>w s n. (0, w)), env_connect = (\<lambda>w s a. (0, w)),
     env_ioctl = (\<lambda>w s. w), env_accept = (\<lambda>w s. (fresh_descriptor w, fresh_descriptor w # w)),
     env_close = (\<lambda>w s. filter (\<lambda>d. d \<noteq> s) w), env_recv = (\<lambda>w s n opt. ((0, []), w)),
     env_send = (\<lambda>w s bs. (int (length bs), w)), env_select = (\<lambda>w fds. ((1, fds), w)),
     env_garbage = (\<lambda>w. 0),
     env_create_session = (\<lambda>w i. Inr w), env_session_message = (\<lambda>w i m. Inr w),
     env_session_disconnect = (\<lambda>w i. w), env_session_release = (\<lambda>w i. w)\<rparr>"

lemma descriptor_env_books: "books descriptor_env set"
proof -
  have "fresh_descriptor w \<noteq> - 1" for w using fresh_descriptor [of w] by auto
  then show ?thesis using fresh_descriptor by (auto simp: books_def gives_descriptor_def descriptor_env_def)
qed

end
