(* ===== verification/Stream_Endpoint.thy ===== *)
theory Stream_Endpoint
  imports Framing Cancellable_Unix
begin

text \<open>
  \<^verbatim>\<open>stream::connect\<close> (\<^verbatim>\<open>src/server_endpoint_stream.cpp\<close>): an object whose one thread, the worker,
  creates a session and feeds it with the messages of an input stream, read through a
  \<^verbatim>\<open>cancellable_read\<close>; its destructor cancels and joins. Here \<^verbatim>\<open>read_messages\<close> runs step by step,
  since what others do to the stream and when they cancel matters: a turn of the worker is the
  creation of the session, a \<^verbatim>\<open>select\<close> or an \<^verbatim>\<open>fread\<close> with what follows it up to the next read.
  Both calls are those of \<open>Cancellable_Unix\<close>. The stream is not buffered, for \<^verbatim>\<open>connect\<close> has it so.
\<close>

section \<open>The connection\<close>

datatype stream_read = Header | Payload nat

fun read_size :: "stream_read \<Rightarrow> nat" where
  "read_size Header = 4"
| "read_size (Payload n) = n"

text \<open>
  Where the worker is; after \<open>Finished\<close> it has told the session of the disconnection, after
  \<open>Failed\<close> it has caught an exception. In either case the session has been released.
\<close>

datatype stream_pc =
    Creating
  | In_select stream_read
  | In_fread stream_read
  | Finished
  | Failed exn

record 'c stream_conn =
  sn_signal_pipe :: nat
  sn_data :: bytes
  sn_closed :: bool
  sn_worker :: stream_pc
  sn_buffer :: bytes
  sn_session :: 'c

definition stream_conn_init :: "'c \<Rightarrow> 'c stream_conn" where
  "stream_conn_init c = \<lparr>sn_signal_pipe = 0, sn_data = [], sn_closed = False, sn_worker = Creating,
     sn_buffer = [], sn_session = c\<rparr>"

text \<open>The \<^verbatim>\<open>cancellable_read\<close> in a given stage of its one call.\<close>

definition reader_of :: "'c stream_conn \<Rightarrow> unix_read \<Rightarrow> unix_impl" where
  "reader_of s r = \<lparr>ur_signal_pipe = sn_signal_pipe s, ur_data = length (sn_data s),
     ur_closed = sn_closed s, ur_reads = (\<lambda>_. r)\<rparr>"

definition worker_select :: "select_result \<Rightarrow> stream_read \<Rightarrow> 'c stream_conn \<Rightarrow> 'c stream_conn option"
  where
  "worker_select r p s =
     (case ur_reads (unix_select_turn 0 (read_size p) r
        (reader_of s (U_selecting (read_size p)))) 0 of
        U_reading _ \<Rightarrow> Some (s\<lparr>sn_worker := In_fread p\<rparr>)
      | U_threw x \<Rightarrow> Some (s\<lparr>sn_worker := Failed x\<rparr>)
      | _ \<Rightarrow> if r = Select_eintr then Some s else None)"

text \<open>What \<^verbatim>\<open>read_messages\<close> does with the bytes a read has returned.\<close>

definition take_header ::
    "endian \<Rightarrow> 'c channel \<Rightarrow> bytes \<Rightarrow> 'c stream_conn \<Rightarrow> 'c stream_conn" where
  "take_header e ch hdr s =
     (if length hdr \<noteq> 4
      then s\<lparr>sn_session := ch_disconnect ch (sn_session s), sn_worker := Finished\<rparr>
      else (let n = header_value e False hdr
            in s\<lparr>sn_buffer := resize (sn_buffer s) n, sn_worker := In_select (Payload n)\<rparr>))"

definition take_payload :: "'c channel \<Rightarrow> bytes \<Rightarrow> 'c stream_conn \<Rightarrow> 'c stream_conn" where
  "take_payload ch data s =
     (let buffer = overwrite (sn_buffer s) data
      in case ch_message ch (sn_session s) buffer of
           Inl x \<Rightarrow> s\<lparr>sn_worker := Failed x\<rparr>
         | Inr c \<Rightarrow> s\<lparr>sn_session := c, sn_buffer := buffer, sn_worker := In_select Header\<rparr>)"

definition worker_fread ::
    "endian \<Rightarrow> 'c channel \<Rightarrow> stream_read \<Rightarrow> 'c stream_conn \<Rightarrow> 'c stream_conn option" where
  "worker_fread e ch p s =
     (if read_size p \<le> length (sn_data s) \<or> sn_closed s
      then (case ur_reads (unix_fread_done 0 (read_size p)
              (reader_of s (U_reading (read_size p)))) 0 of
              U_returned k \<Rightarrow>
                (let s1 = s\<lparr>sn_data := drop k (sn_data s)\<rparr>
                 in Some (case p of
                      Header \<Rightarrow> take_header e ch (take k (sn_data s)) s1
                    | Payload _ \<Rightarrow> take_payload ch (take k (sn_data s)) s1))
            | _ \<Rightarrow> None)
      else None)"

text \<open>A turn of the worker; \<open>None\<close> is a call that does not return yet, or no worker any more.\<close>

definition worker_turn ::
  "endian \<Rightarrow> ('c \<Rightarrow> exn + 'c) \<Rightarrow> 'c channel \<Rightarrow> select_result \<Rightarrow> 'c stream_conn \<Rightarrow>
   'c stream_conn option" where
  "worker_turn e create ch r s =
     (case sn_worker s of
        Creating \<Rightarrow>
          (case create (sn_session s) of
             Inl x \<Rightarrow> Some (s\<lparr>sn_worker := Failed x\<rparr>)
           | Inr c \<Rightarrow> Some (s\<lparr>sn_session := c, sn_worker := In_select Header\<rparr>))
      | In_select p \<Rightarrow> worker_select r p s
      | In_fread p \<Rightarrow> worker_fread e ch p s
      | Finished \<Rightarrow> None
      | Failed _ \<Rightarrow> None)"

text \<open>The destructor cancels; it returns when the worker has come to its end.\<close>

definition stream_conn_cancel :: "'c stream_conn \<Rightarrow> 'c stream_conn" where
  "stream_conn_cancel s =
     s\<lparr>sn_signal_pipe := ur_signal_pipe (unix_cancel (reader_of s U_idle))\<rparr>"

fun worker_ended :: "stream_pc \<Rightarrow> bool" where
  "worker_ended Finished = True"
| "worker_ended (Failed _) = True"
| "worker_ended Creating = False"
| "worker_ended (In_select _) = False"
| "worker_ended (In_fread _) = False"

lemma stream_conn_cancel_eq:
  "stream_conn_cancel s = s\<lparr>sn_signal_pipe := Suc (sn_signal_pipe s)\<rparr>"
  by (simp add: stream_conn_cancel_def unix_cancel_def reader_of_def)

lemma worker_select_ready:
  "worker_select Select_ready p s =
     (if 0 < sn_signal_pipe s then Some (s\<lparr>sn_worker := Failed Cancelled_exception\<rparr>)
      else if sn_data s \<noteq> [] \<or> sn_closed s then Some (s\<lparr>sn_worker := In_fread p\<rparr>)
      else None)"
  by (simp add: worker_select_def reader_of_def set_uread_def signal_ready_def data_ready_def)

lemma worker_select_eintr: "worker_select Select_eintr p s = Some s"
  by (simp add: worker_select_def reader_of_def)

lemma worker_fread_eq:
  "worker_fread e ch p s =
     (if read_size p \<le> length (sn_data s) \<or> sn_closed s
      then let data = take (read_size p) (sn_data s);
               s1 = s\<lparr>sn_data := drop (read_size p) (sn_data s)\<rparr>
           in Some (case p of Header \<Rightarrow> take_header e ch data s1 | Payload _ \<Rightarrow> take_payload ch data s1)
      else None)"
  by (simp add: worker_fread_def reader_of_def unix_ops min_def Let_def split: stream_read.split)

section \<open>What becomes of a connection\<close>

text \<open>
  Runs before anything is cancelled, with the bytes that have been written to the stream meanwhile.
\<close>

inductive stream_run ::
  "endian \<Rightarrow> ('c \<Rightarrow> exn + 'c) \<Rightarrow> 'c channel \<Rightarrow> 'c stream_conn \<Rightarrow> bytes \<Rightarrow> 'c stream_conn \<Rightarrow> bool"
  for e create ch s where
  start: "stream_run e create ch s [] s"
| turn: "stream_run e create ch s bs t \<Longrightarrow> r \<noteq> Select_error \<Longrightarrow>
    worker_turn e create ch r t = Some u \<Longrightarrow> stream_run e create ch s bs u"
| written: "stream_run e create ch s bs t \<Longrightarrow> \<not> sn_closed t \<Longrightarrow>
    stream_run e create ch s (bs @ data) (t\<lparr>sn_data := sn_data t @ data\<rparr>)"
| closed: "stream_run e create ch s bs t \<Longrightarrow> stream_run e create ch s bs (t\<lparr>sn_closed := True\<rparr>)"

text \<open>
  How the worker ends and what the session has been told by then, if the stream goes on with the
  bytes \<open>future\<close> and then ends: the outcome that the abstract splitter gives.
\<close>

fun ending :: "'c channel \<Rightarrow> exn option \<times> 'c \<Rightarrow> stream_pc \<times> 'c" where
  "ending ch (None, c) = (Finished, ch_disconnect ch c)"
| "ending ch (Some x, c) = (Failed x, c)"

definition deliver_stream ::
    "endian \<Rightarrow> 'c channel \<Rightarrow> 'c \<Rightarrow> bytes \<Rightarrow> bytes \<Rightarrow> stream_pc \<times> 'c" where
  "deliver_stream e ch c buffer bs =
     ending ch (deliver_all ch c (split_frames (header_value e False) buffer bs))"

definition deliver_payload ::
    "endian \<Rightarrow> 'c channel \<Rightarrow> 'c \<Rightarrow> bytes \<Rightarrow> nat \<Rightarrow> bytes \<Rightarrow> stream_pc \<times> 'c" where
  "deliver_payload e ch c buffer n bs =
     (let m = overwrite buffer (take n bs)
      in ending ch (deliver_all ch c (m # split_frames (header_value e False) m (drop n bs))))"

fun fate_at :: "endian \<Rightarrow> ('c \<Rightarrow> exn + 'c) \<Rightarrow> 'c channel \<Rightarrow> stream_pc \<Rightarrow> 'c \<Rightarrow> bytes \<Rightarrow> bytes \<Rightarrow>
    stream_pc \<times> 'c" where
  "fate_at e create ch Creating c buffer bs =
     (case create c of Inl x \<Rightarrow> (Failed x, c) | Inr c' \<Rightarrow> deliver_stream e ch c' buffer bs)"
| "fate_at e create ch (In_select Header) c buffer bs = deliver_stream e ch c buffer bs"
| "fate_at e create ch (In_fread Header) c buffer bs = deliver_stream e ch c buffer bs"
| "fate_at e create ch (In_select (Payload n)) c buffer bs = deliver_payload e ch c buffer n bs"
| "fate_at e create ch (In_fread (Payload n)) c buffer bs = deliver_payload e ch c buffer n bs"
| "fate_at e create ch Finished c buffer bs = (Finished, c)"
| "fate_at e create ch (Failed x) c buffer bs = (Failed x, c)"

definition fate :: "endian \<Rightarrow> ('c \<Rightarrow> exn + 'c) \<Rightarrow> 'c channel \<Rightarrow> 'c stream_conn \<Rightarrow> bytes \<Rightarrow> stream_pc \<times> 'c"
  where
  "fate e create ch s future =
     fate_at e create ch (sn_worker s) (sn_session s) (sn_buffer s) (sn_data s @ future)"

lemma deliver_stream_short:
  "length bs < 4 \<Longrightarrow> deliver_stream e ch c buffer bs = (Finished, ch_disconnect ch c)"
  by (simp add: deliver_stream_def split_frames_short)

lemma deliver_stream_header:
  "length hdr = 4 \<Longrightarrow> deliver_stream e ch c buffer (hdr @ bs) =
    deliver_payload e ch c (resize buffer (header_value e False hdr)) (header_value e False hdr) bs"
  by (simp add: deliver_stream_def deliver_payload_def split_frames_header Let_def del: deliver_all.simps)

lemma deliver_payload_step:
  "deliver_payload e ch c buffer n bs =
     (case ch_message ch c (overwrite buffer (take n bs)) of
        Inl x \<Rightarrow> (Failed x, c)
      | Inr c' \<Rightarrow> deliver_stream e ch c' (overwrite buffer (take n bs)) (drop n bs))"
  by (simp add: deliver_payload_def deliver_stream_def Let_def split: sum.split)

text \<open>A header read from the front of the stream, be the rest there already or not.\<close>

lemma fate_take_header:
  assumes "4 \<le> length (sn_data s) \<or> future = []"
  shows "fate e create ch (take_header e ch (take 4 (sn_data s)) (s\<lparr>sn_data := drop 4 (sn_data s)\<rparr>)) future
    = deliver_stream e ch (sn_session s) (sn_buffer s) (sn_data s @ future)"
proof (cases "4 \<le> length (sn_data s)")
  case True
  then have len: "length (take 4 (sn_data s)) = 4" by simp
  have data: "sn_data s @ future = take 4 (sn_data s) @ drop 4 (sn_data s) @ future"
    by (metis append.assoc append_take_drop_id)
  show ?thesis
    unfolding data deliver_stream_header [OF len]
    using len by (simp add: fate_def take_header_def Let_def)
next
  case False
  with assms show ?thesis by (simp add: fate_def take_header_def deliver_stream_short)
qed

lemma fate_take_payload:
  assumes "n \<le> length (sn_data s) \<or> future = []"
  shows "fate e create ch (take_payload ch (take n (sn_data s)) (s\<lparr>sn_data := drop n (sn_data s)\<rparr>)) future
    = deliver_payload e ch (sn_session s) (sn_buffer s) n (sn_data s @ future)"
proof -
  have "take n (sn_data s @ future) = take n (sn_data s)"
    and "drop n (sn_data s @ future) = drop n (sn_data s) @ future"
    using assms by auto
  then show ?thesis
    unfolding deliver_payload_step
    by (simp add: fate_def take_payload_def Let_def del: take_append drop_append split: sum.split)
qed

lemma worker_turn_fate:
  assumes "worker_turn e create ch r s = Some t" and "r \<noteq> Select_error" and "sn_signal_pipe s = 0"
    and "sn_closed s \<longrightarrow> future = []"
  shows "fate e create ch t future = fate e create ch s future"
proof (cases "sn_worker s")
  case Creating
  with assms(1) show ?thesis by (auto simp: worker_turn_def fate_def split: sum.splits)
next
  case (In_select p)
  with assms(1-3) show ?thesis
    by (cases r; cases p)
      (auto simp: worker_turn_def worker_select_ready worker_select_eintr fate_def split: if_splits)
next
  case (In_fread p)
  with assms(1) have fr: "worker_fread e ch p s = Some t" by (simp add: worker_turn_def)
  then have rest: "read_size p \<le> length (sn_data s) \<or> future = []"
    using assms(4) by (auto simp: worker_fread_eq split: if_splits)
  show ?thesis
  proof (cases p)
    case Header
    with fr have "t = take_header e ch (take 4 (sn_data s)) (s\<lparr>sn_data := drop 4 (sn_data s)\<rparr>)"
      by (auto simp: worker_fread_eq Let_def split: if_splits)
    with Header rest In_fread fate_take_header [of s future e create ch] show ?thesis
      by (simp add: fate_def)
  next
    case (Payload n)
    with fr have "t = take_payload ch (take n (sn_data s)) (s\<lparr>sn_data := drop n (sn_data s)\<rparr>)"
      by (auto simp: worker_fread_eq Let_def split: if_splits)
    with Payload rest In_fread fate_take_payload [of n s future e create ch] show ?thesis
      by (simp add: fate_def)
  qed
qed (use assms(1) in \<open>simp_all add: worker_turn_def\<close>)

lemma take_frame [simp]:
  "sn_signal_pipe (take_header e ch hdr s) = sn_signal_pipe s"
  "sn_signal_pipe (take_payload ch data s) = sn_signal_pipe s"
  "sn_closed (take_header e ch hdr s) = sn_closed s"
  "sn_closed (take_payload ch data s) = sn_closed s"
  "sn_data (take_header e ch hdr s) = sn_data s"
  "sn_data (take_payload ch data s) = sn_data s"
  by (simp_all add: take_header_def take_payload_def Let_def split: sum.split)

lemma worker_turn_frame:
  assumes "worker_turn e create ch r s = Some t"
  shows "sn_signal_pipe t = sn_signal_pipe s" and "sn_closed t = sn_closed s"
  using assms
  by (auto simp: worker_turn_def worker_select_def worker_fread_eq Let_def
      split: stream_pc.splits sum.splits unix_read.splits if_splits stream_read.splits)

lemma stream_run_fate:
  assumes "stream_run e create ch s bs t" and "sn_signal_pipe s = 0"
  shows "sn_signal_pipe t = 0 \<and> (\<forall>future. (sn_closed t \<longrightarrow> future = []) \<longrightarrow>
    fate e create ch t future = fate e create ch s (bs @ future))"
  using assms(1)
proof induction
  case start
  show ?case using assms(2) by simp
next
  case (turn bs t r u)
  then show ?case using worker_turn_fate [OF turn(3,2)] worker_turn_frame [OF turn(3)] by simp
next
  case (written bs t data)
  then have "fate e create ch (t\<lparr>sn_data := sn_data t @ data\<rparr>) future = fate e create ch t (data @ future)"
    for future by (simp add: fate_def)
  with written show ?case by simp
next
  case (closed bs t)
  have "fate e create ch (t\<lparr>sn_closed := True\<rparr>) [] = fate e create ch t []" by (simp add: fate_def)
  with closed show ?case by simp
qed

section \<open>The worker comes to its end\<close>

text \<open>Turns in a row, until one does not return.\<close>

fun worker_turns ::
  "endian \<Rightarrow> ('c \<Rightarrow> exn + 'c) \<Rightarrow> 'c channel \<Rightarrow> nat \<Rightarrow> 'c stream_conn \<Rightarrow> 'c stream_conn" where
  "worker_turns e create ch 0 s = s"
| "worker_turns e create ch (Suc n) s =
     (case worker_turn e create ch Select_ready s of
        None \<Rightarrow> s
      | Some t \<Rightarrow> worker_turns e create ch n t)"

text \<open>A header of four bytes may lead to the longest way to the next header, so it counts for it.\<close>

fun pc_left :: "stream_pc \<Rightarrow> nat" where
  "pc_left (In_select (Payload _)) = 4"
| "pc_left (In_fread (Payload _)) = 3"
| "pc_left Creating = 3"
| "pc_left (In_select Header) = 2"
| "pc_left (In_fread Header) = 1"
| "pc_left Finished = 0"
| "pc_left (Failed _) = 0"

definition turns_left :: "'c stream_conn \<Rightarrow> nat" where
  "turns_left s = length (sn_data s) + pc_left (sn_worker s)"

lemma worker_turn_left:
  assumes "worker_turn e create ch Select_ready s = Some t"
  shows "turns_left t < turns_left s"
proof (cases "sn_worker s")
  case Creating
  with assms show ?thesis by (auto simp: worker_turn_def turns_left_def split: sum.splits)
next
  case (In_select p)
  with assms show ?thesis
    by (cases p) (auto simp: worker_turn_def worker_select_ready turns_left_def split: if_splits)
next
  case (In_fread p)
  with assms show ?thesis
    by (cases p)
      (auto simp: worker_turn_def worker_fread_eq turns_left_def take_header_def take_payload_def
        Let_def split: if_splits sum.splits)
qed (use assms in \<open>simp_all add: worker_turn_def\<close>)

lemma worker_turn_closed:
  assumes "sn_closed s" and "\<not> worker_ended (sn_worker s)"
  shows "\<exists>t. worker_turn e create ch Select_ready s = Some t"
  using assms
  by (cases "sn_worker s")
    (auto simp: worker_turn_def worker_select_ready worker_fread_eq Let_def split: sum.split)

lemma worker_turns_closed:
  assumes "sn_closed s" and "sn_signal_pipe s = 0" and "turns_left s \<le> n"
  shows "(sn_worker (worker_turns e create ch n s), sn_session (worker_turns e create ch n s)) =
    fate e create ch s []"
  using assms
proof (induction n arbitrary: s)
  case 0
  then have "worker_ended (sn_worker s)" by (cases s; cases "sn_worker s" rule: pc_left.cases) (auto simp: turns_left_def)
  then show ?case by (cases "sn_worker s") (simp_all add: fate_def)
next
  case (Suc n)
  show ?case
  proof (cases "worker_ended (sn_worker s)")
    case True
    then show ?thesis by (cases "sn_worker s") (simp_all add: fate_def worker_turn_def)
  next
    case False
    then obtain t where t: "worker_turn e create ch Select_ready s = Some t"
      using worker_turn_closed [OF Suc.prems(1)] by blast
    have "turns_left t \<le> n" using worker_turn_left [OF t] Suc.prems(3) by simp
    with Suc.IH [of t] Suc.prems worker_turn_frame [OF t] worker_turn_fate [OF t, of "[]"] t
    show ?thesis by simp
  qed
qed

section \<open>Cancelling\<close>

text \<open>A worker that waits inside \<^verbatim>\<open>fread\<close> for bytes that are not there.\<close>

definition stream_starved :: "'c stream_conn \<Rightarrow> bool" where
  "stream_starved s \<longleftrightarrow> (\<exists>p. sn_worker s = In_fread p \<and> length (sn_data s) < read_size p \<and> \<not> sn_closed s)"

text \<open>The steps of a connection whose stream stays as it is.\<close>

inductive quiet_step ::
    "endian \<Rightarrow> ('c \<Rightarrow> exn + 'c) \<Rightarrow> 'c channel \<Rightarrow> 'c stream_conn \<Rightarrow> 'c stream_conn \<Rightarrow> bool"
  for e create ch where
  turn: "worker_turn e create ch r s = Some t \<Longrightarrow> quiet_step e create ch s t"
| cancel: "quiet_step e create ch s (stream_conn_cancel s)"

lemma worker_turn_starved: "stream_starved s \<Longrightarrow> worker_turn e create ch r s = None"
  by (auto simp: stream_starved_def worker_turn_def worker_fread_eq)

lemma quiet_steps_starved:
  assumes "(quiet_step e create ch)\<^sup>*\<^sup>* s t" and "stream_starved s"
  shows "stream_starved t \<and> sn_worker t = sn_worker s \<and> sn_session t = sn_session s"
  using assms
proof (induction rule: rtranclp_induct)
  case (step t u)
  from step(2) show ?case
  proof cases
    case (turn r)
    with step.IH step.prems show ?thesis by (simp add: worker_turn_starved)
  next
    case cancel
    with step.IH step.prems show ?thesis by (auto simp: stream_conn_cancel_eq stream_starved_def)
  qed
qed simp

text \<open>
  What a worker still does once it has been cancelled: at most the step it is in, then its next
  \<^verbatim>\<open>select\<close> throws.
\<close>

fun last_words :: "endian \<Rightarrow> ('c \<Rightarrow> exn + 'c) \<Rightarrow> 'c channel \<Rightarrow> 'c stream_conn \<Rightarrow> stream_pc \<Rightarrow> stream_pc \<times> 'c"
  where
  "last_words e create ch s Creating =
     (case create (sn_session s) of
        Inl x \<Rightarrow> (Failed x, sn_session s)
      | Inr c \<Rightarrow> (Failed Cancelled_exception, c))"
| "last_words e create ch s (In_select _) = (Failed Cancelled_exception, sn_session s)"
| "last_words e create ch s (In_fread Header) =
     (if length (sn_data s) < 4 then (Finished, ch_disconnect ch (sn_session s))
      else (Failed Cancelled_exception, sn_session s))"
| "last_words e create ch s (In_fread (Payload n)) =
     (case ch_message ch (sn_session s) (overwrite (sn_buffer s) (take n (sn_data s))) of
        Inl x \<Rightarrow> (Failed x, sn_session s)
      | Inr c \<Rightarrow> (Failed Cancelled_exception, c))"
| "last_words e create ch s Finished = (Finished, sn_session s)"
| "last_words e create ch s (Failed x) = (Failed x, sn_session s)"

lemma worker_turn_ended: "worker_ended (sn_worker s) \<Longrightarrow> worker_turn e create ch r s = None"
  by (cases "sn_worker s") (simp_all add: worker_turn_def)

lemma worker_turns_ended: "worker_ended (sn_worker s) \<Longrightarrow> worker_turns e create ch n s = s"
  by (cases n) (simp_all add: worker_turn_ended)

lemma worker_turns_select_cancelled:
  "sn_worker s = In_select p \<Longrightarrow> 0 < sn_signal_pipe s \<Longrightarrow>
   worker_turns e create ch (Suc n) s = s\<lparr>sn_worker := Failed Cancelled_exception\<rparr>"
  by (simp add: worker_turn_def worker_select_ready worker_turns_ended)

lemma worker_turns_cancelled:
  assumes "0 < sn_signal_pipe s" and "\<not> stream_starved s"
  shows "(sn_worker (worker_turns e create ch (Suc (Suc n)) s), sn_session (worker_turns e create ch (Suc (Suc n)) s))
    = last_words e create ch s (sn_worker s)"
proof (cases "sn_worker s")
  case Creating
  with assms(1) show ?thesis
    by (simp add: worker_turn_def worker_select_ready worker_turns_ended del: worker_turns.simps(2)
        split: sum.split)
      (auto simp: worker_turn_def worker_select_ready worker_turns_ended split: sum.split)
next
  case (In_select p)
  with assms(1) show ?thesis
    by (simp add: worker_turns_select_cancelled del: worker_turns.simps)
next
  case (In_fread p)
  with assms(2) have there: "read_size p \<le> length (sn_data s) \<or> sn_closed s"
    by (auto simp: stream_starved_def)
  show ?thesis
  proof (cases p)
    case Header
    with In_fread there assms(1) show ?thesis
      by (auto simp: worker_turn_def worker_fread_eq worker_select_ready take_header_def Let_def
          worker_turns_ended)
  next
    case (Payload k)
    with In_fread there assms(1) show ?thesis
      by (auto simp: worker_turn_def worker_fread_eq worker_select_ready take_payload_def Let_def
          worker_turns_ended split: sum.split)
  qed
qed (simp_all add: worker_turn_ended)

section \<open>A message without bytes\<close>

text \<open>
  The payload of an empty message is read like any other: by a \<^verbatim>\<open>select\<close> that waits for the stream
  to become readable, then an \<^verbatim>\<open>fread\<close> of no bytes.
\<close>

definition awaits_nothing :: "'c stream_conn \<Rightarrow> bool" where
  "awaits_nothing s \<longleftrightarrow> sn_worker s = In_select (Payload 0) \<and> sn_data s = [] \<and> \<not> sn_closed s \<and>
     sn_signal_pipe s = 0"

lemma empty_message_awaits_nothing:
  assumes "sn_worker s = In_select Header" and "sn_data s = []" and "\<not> sn_closed s" and "sn_signal_pipe s = 0"
  shows "worker_turns e create ch 2 (s\<lparr>sn_data := frame e False []\<rparr>) =
    s\<lparr>sn_worker := In_select (Payload 0), sn_buffer := []\<rparr>"
proof -
  have len: "length (frame_header e False 0) = 4" by simp
  then have "frame_header e False 0 \<noteq> []" by (metis list.size(3) zero_neq_numeral)
  with assms show ?thesis
    by (cases s) (simp add: numeral_2_eq_2 frame_def worker_turn_def worker_select_ready worker_fread_eq
        take_header_def header_value_frame_header resize_def Let_def)
qed

lemma stream_run_awaits_nothing:
  assumes "stream_run e create ch s bs t" and "awaits_nothing s" and "bs = []" and "\<not> sn_closed t"
  shows "t = s"
  using assms
proof induction
  case (turn bs t r u)
  then have "t = s" using worker_turn_frame(2) [OF turn(3)] by simp
  with turn show ?case
    by (cases r) (auto simp: awaits_nothing_def worker_turn_def worker_select_ready worker_select_eintr)
next
  case (written bs t data)
  then show ?case by simp
qed simp_all

lemma worker_turns_next_byte:
  assumes "awaits_nothing s" and "bs \<noteq> []" and "sn_buffer s = []"
  shows "worker_turns e create ch 2 (s\<lparr>sn_data := bs\<rparr>) =
    (case ch_message ch (sn_session s) [] of
       Inl x \<Rightarrow> s\<lparr>sn_data := bs, sn_worker := Failed x\<rparr>
     | Inr c \<Rightarrow> s\<lparr>sn_data := bs, sn_worker := In_select Header, sn_session := c\<rparr>)"
  using assms
  by (cases s) (auto simp: awaits_nothing_def numeral_2_eq_2 worker_turn_def worker_select_ready
      worker_fread_eq take_payload_def overwrite_def Let_def split: sum.split)

end
