(* ===== verification/Descriptors.thy ===== *)
theory Descriptors
  imports Prelude
begin

text \<open>
  Tables of file descriptors, of one process. The system calls that make descriptors promise the
  lowest number that is free, and code depends on it; that and what the others promise is the
  locale \<open>descriptor_table\<close>. The table here is a list, position \<open>i\<close> being what descriptor \<open>i\<close>
  stands for.
\<close>

locale descriptor_table =
  fixes lookup :: "'t \<Rightarrow> nat \<Rightarrow> 'd option"
    and alloc :: "'d \<Rightarrow> 't \<Rightarrow> nat \<times> 't"
    and remove :: "nat \<Rightarrow> 't \<Rightarrow> 't"
  assumes alloc_at: "alloc d t = (i, t') \<Longrightarrow> lookup t' = (lookup t)(i := Some d)"
    and alloc_free: "alloc d t = (i, t') \<Longrightarrow> lookup t i = None"
    and alloc_lowest: "alloc d t = (i, t') \<Longrightarrow> j < i \<Longrightarrow> lookup t j \<noteq> None"
    and remove_at: "lookup (remove i t) = (lookup t)(i := None)"
begin

text \<open>Descriptors made one after the other go up.\<close>

lemma alloc_increasing:
  assumes "alloc d t = (i, t')" and "alloc d' t' = (j, t'')"
  shows "i < j"
proof (rule ccontr)
  assume "\<not> i < j"
  then have "j < i \<or> j = i" by arith
  moreover have "lookup t' j = None" using alloc_free [OF assms(2)] .
  ultimately show False
    using alloc_lowest [OF assms(1), of j] by (auto simp: alloc_at [OF assms(1)])
qed

text \<open>A number of removals, and a table that gets back to what it was.\<close>

lemma remove_all_at: "lookup (fold remove is t) = (\<lambda>i. if i \<in> set is then None else lookup t i)"
  by (induction "is" arbitrary: t) (auto simp: remove_at fun_eq_iff)

lemma alloc_two:
  assumes "alloc d t = (i, t')" and "alloc d' t' = (j, t'')"
  shows "lookup t'' = (lookup t)(i := Some d, j := Some d')" and "lookup t i = None"
    and "lookup t j = None" and "i < j"
proof -
  show "lookup t'' = (lookup t)(i := Some d, j := Some d')"
    by (simp add: alloc_at [OF assms(1)] alloc_at [OF assms(2)])
  show "lookup t i = None" using assms(1) by (rule alloc_free)
  show "lookup t j = None"
    using alloc_free [OF assms(2)] by (simp add: alloc_at [OF assms(1)] split: if_splits)
  show "i < j" using assms by (rule alloc_increasing)
qed

end

section \<open>Tables as lists\<close>

type_synonym 'd fd_list = "'d option list"

definition fd_at :: "'d fd_list \<Rightarrow> nat \<Rightarrow> 'd option" where
  "fd_at t i = (if i < length t then t ! i else None)"

fun fd_alloc :: "'d \<Rightarrow> 'd fd_list \<Rightarrow> nat \<times> 'd fd_list" where
  "fd_alloc d [] = (0, [Some d])"
| "fd_alloc d (None # t) = (0, Some d # t)"
| "fd_alloc d (Some x # t) = (case fd_alloc d t of (i, t') \<Rightarrow> (Suc i, Some x # t'))"

definition fd_close :: "nat \<Rightarrow> 'd fd_list \<Rightarrow> 'd fd_list" where
  "fd_close i t = t[i := None]"

definition fd_put :: "nat \<Rightarrow> 'd \<Rightarrow> 'd fd_list \<Rightarrow> 'd fd_list" where
  "fd_put i d t = (t @ replicate (Suc i - length t) None)[i := Some d]"

lemma fd_at_Nil [simp]: "fd_at [] i = None"
  by (simp add: fd_at_def)

lemma fd_at_Cons: "fd_at (x # t) i = (case i of 0 \<Rightarrow> x | Suc k \<Rightarrow> fd_at t k)"
  by (simp add: fd_at_def split: nat.split)

lemma fd_alloc_at: "fd_alloc d t = (i, t') \<Longrightarrow> fd_at t' = (fd_at t)(i := Some d)"
  by (induction d t arbitrary: i t' rule: fd_alloc.induct)
    (auto simp: fun_eq_iff fd_at_Cons split: prod.splits nat.split if_splits)

lemma fd_alloc_free: "fd_alloc d t = (i, t') \<Longrightarrow> fd_at t i = None"
  by (induction d t arbitrary: i t' rule: fd_alloc.induct)
    (auto simp: fd_at_Cons split: prod.splits)

lemma fd_alloc_lowest: "fd_alloc d t = (i, t') \<Longrightarrow> j < i \<Longrightarrow> fd_at t j \<noteq> None"
  by (induction d t arbitrary: i j t' rule: fd_alloc.induct)
    (auto simp: fd_at_Cons split: prod.splits nat.splits)

lemma fd_close_at: "fd_at (fd_close i t) = (fd_at t)(i := None)"
  by (auto simp: fun_eq_iff fd_at_def fd_close_def)

lemma fd_put_at: "fd_at (fd_put i d t) = (fd_at t)(i := Some d)"
  by (auto simp: fun_eq_iff fd_at_def fd_put_def nth_append nth_list_update)

interpretation fds: descriptor_table fd_at fd_alloc fd_close
  by unfold_locales (auto dest: fd_alloc_at fd_alloc_free fd_alloc_lowest simp: fd_close_at)

end
