(* ===== verification/Spawn_Unix.thy ===== *)
theory Spawn_Unix
  imports Descriptors C_Strings Exceptions
begin

text \<open>
  Spawning a server process on Unix, \<^verbatim>\<open>src/client_endpoint_spawn.unix.cpp\<close>: three pipes, \<^verbatim>\<open>fork\<close>,
  the child's descriptors and \<^verbatim>\<open>execve\<close>, and the third pipe that tells the parent whether the
  last of these has failed. What matters of a process is its descriptors; a pipe is a number, and
  is at its end for those who read it when no process has a descriptor for writing to it.
  \<open>spawn_env\<close> is what the system calls answer.
\<close>

section \<open>Processes\<close>

datatype open_file = Pipe_read nat | Pipe_write nat | Other_file nat

text \<open>What a descriptor stands for, and its \<^verbatim>\<open>FD_CLOEXEC\<close>.\<close>

type_synonym fd_table = "(open_file \<times> bool) fd_list"

datatype child_state =
    Running fd_table
  | Exited nat          \<comment> \<open>with a status, until it is waited for\<close>

record os =
  os_parent :: fd_table
  os_children :: "(nat \<times> child_state) list"
  os_pipes :: nat

record spawn_env =
  se_pipe :: "nat \<Rightarrow> bool"
  se_fdopen :: "nat \<Rightarrow> bool"
  se_fork :: "nat option"
  se_execve :: "string \<Rightarrow> string list \<Rightarrow> string list \<Rightarrow> nat option"
  se_environ :: "string list"

definition fd_dup2 :: "nat \<Rightarrow> nat \<Rightarrow> fd_table \<Rightarrow> fd_table" where
  "fd_dup2 old new t =
     (case fd_at t old of
        None \<Rightarrow> t
      | Some (f, _) \<Rightarrow> if old = new then t else fd_put new (f, False) t)"

definition fd_set_cloexec :: "nat \<Rightarrow> fd_table \<Rightarrow> fd_table" where
  "fd_set_cloexec i t = (case fd_at t i of None \<Rightarrow> t | Some (f, _) \<Rightarrow> fd_put i (f, True) t)"

definition fd_exec :: "fd_table \<Rightarrow> fd_table" where
  "fd_exec t = map (\<lambda>d. case d of Some (f, True) \<Rightarrow> None | _ \<Rightarrow> d) t"

text \<open>Whether anyone can still write to a pipe.\<close>

definition holds_writer :: "nat \<Rightarrow> fd_table \<Rightarrow> bool" where
  "holds_writer p t \<longleftrightarrow>
     Some (Pipe_write p, True) \<in> set t \<or> Some (Pipe_write p, False) \<in> set t"

fun child_table :: "child_state \<Rightarrow> fd_table" where
  "child_table (Running t) = t"
| "child_table (Exited _) = []"

definition pipe_at_end :: "nat \<Rightarrow> os \<Rightarrow> bool" where
  "pipe_at_end p s \<longleftrightarrow> \<not> holds_writer p (os_parent s) \<and>
     (\<forall>c \<in> set (os_children s). \<not> holds_writer p (child_table (snd c)))"

section \<open>The code\<close>

definition close_in_parent :: "nat list \<Rightarrow> os \<Rightarrow> os" where
  "close_in_parent ds s = s\<lparr>os_parent := fold fd_close ds (os_parent s)\<rparr>"

text \<open>\<^verbatim>\<open>anonymous_pipe\<close>, the \<open>n\<close>-th of them; its streams are closed with it.\<close>

definition anonymous_pipe :: "spawn_env \<Rightarrow> nat \<Rightarrow> os \<Rightarrow> (exn + nat \<times> nat) \<times> os" where
  "anonymous_pipe E n s =
     (if \<not> se_pipe E n then (Inl Std_bad_alloc, s)
      else (case fd_alloc (Pipe_read (os_pipes s), False) (os_parent s) of (r, t1) \<Rightarrow>
        (case fd_alloc (Pipe_write (os_pipes s), False) t1 of (w, t2) \<Rightarrow>
           (let s1 = s\<lparr>os_parent := t2, os_pipes := Suc (os_pipes s)\<rparr>
            in if se_fdopen E r \<and> se_fdopen E w then (Inr (r, w), s1)
               else (Inl (Std_runtime_error ''crt stream error''), close_in_parent [r, w] s1)))))"

text \<open>The descriptors of the child before \<^verbatim>\<open>execve\<close>, and what it is called with.\<close>

definition child_descriptors :: "nat \<times> nat \<Rightarrow> nat \<times> nat \<Rightarrow> nat \<times> nat \<Rightarrow> fd_table \<Rightarrow> fd_table" where
  "child_descriptors to from from_error t =
     fd_dup2 (snd from) 1 (fd_dup2 (fst to) 0
       (fold fd_close [snd to, fst from, fst from_error] t))"

definition child_argv :: "string \<Rightarrow> string list \<Rightarrow> string list" where
  "child_argv spawned_path arguments = c_str spawned_path # map c_str arguments"

definition child_environment :: "string list \<Rightarrow> string list \<Rightarrow> string list" where
  "child_environment environ extra_environment = environ @ map c_str extra_environment"

definition exec_error_text :: "string \<Rightarrow> nat \<Rightarrow> string" where
  "exec_error_text spawned_path exec_error =
     c_str (''Failed to execute: '' @ spawned_path @ '', error: '' @ print_dec exec_error)"

record spawned =
  sp_to :: nat
  sp_from :: nat
  sp_pid :: nat

text \<open>
  From the \<^verbatim>\<open>fork\<close> on. The child that cannot be replaced writes its error and exits with \<^verbatim>\<open>-1\<close>, of
  which a parent sees the low byte.
\<close>

definition fork_and_exec ::
  "spawn_env \<Rightarrow> string \<Rightarrow> string list \<Rightarrow> string list \<Rightarrow> nat \<times> nat \<Rightarrow> nat \<times> nat \<Rightarrow> nat \<times> nat \<Rightarrow>
   os \<Rightarrow> (exn + spawned) \<times> os" where
  "fork_and_exec E spawned_path arguments extra_environment to from from_error s =
     (let t = fd_set_cloexec (snd from_error) (os_parent s);
          s1 = s\<lparr>os_parent := t\<rparr>;
          all_of_them = [fst to, snd to, fst from, snd from, fst from_error, snd from_error]
      in case se_fork E of
           None \<Rightarrow> (Inl (Std_runtime_error ''forking the process failed''), close_in_parent all_of_them s1)
         | Some pid \<Rightarrow>
             (case se_execve E (c_str spawned_path) (child_argv spawned_path arguments)
                     (child_environment (se_environ E) extra_environment) of
                Some exec_error \<Rightarrow>
                  (Inl (Server_exe_not_found (exec_error_text spawned_path exec_error)),
                   close_in_parent all_of_them
                     (s1\<lparr>os_children := os_children s @ [(pid, Exited 255)]\<rparr>))
              | None \<Rightarrow>
                  (Inr \<lparr>sp_to = snd to, sp_from = fst from, sp_pid = pid\<rparr>,
                   close_in_parent [snd from_error, fst to, snd from, fst from_error]
                     (s1\<lparr>os_children := os_children s @
                        [(pid, Running (fd_exec (child_descriptors to from from_error t)))]\<rparr>))))"

definition spawn ::
  "spawn_env \<Rightarrow> string \<Rightarrow> string list \<Rightarrow> string list \<Rightarrow> os \<Rightarrow> (exn + spawned) \<times> os" where
  "spawn E spawned_path arguments extra_environment s =
     (case anonymous_pipe E 0 s of
        (Inl x, s1) \<Rightarrow> (Inl x, s1)
      | (Inr to, s1) \<Rightarrow>
          (case anonymous_pipe E 1 s1 of
             (Inl x, s2) \<Rightarrow> (Inl x, close_in_parent [fst to, snd to] s2)
           | (Inr from, s2) \<Rightarrow>
               (case anonymous_pipe E 2 s2 of
                  (Inl x, s3) \<Rightarrow> (Inl x, close_in_parent [fst to, snd to, fst from, snd from] s3)
                | (Inr from_error, s3) \<Rightarrow>
                    fork_and_exec E spawned_path arguments extra_environment to from from_error s3)))"

text \<open>
  The destructor of the client: \<^verbatim>\<open>_outbound.reset()\<close>. And what the deleter of the wait handle does:
  wait for the child and call the handler of the user with its status.
\<close>

definition release_outbound :: "spawned \<Rightarrow> os \<Rightarrow> os" where
  "release_outbound sp s = close_in_parent [sp_to sp] s"

fun wait_and_report :: "nat \<Rightarrow> (nat \<times> child_state) list \<Rightarrow> (nat \<times> (nat \<times> child_state) list) option" where
  "wait_and_report pid [] = None"
| "wait_and_report pid ((p, Exited status) # cs) =
     (if p = pid then Some (status, cs)
      else map_option (\<lambda>(st, cs'). (st, (p, Exited status) # cs')) (wait_and_report pid cs))"
| "wait_and_report pid ((p, Running t) # cs) =
     (if p = pid then None
      else map_option (\<lambda>(st, cs'). (st, (p, Running t) # cs')) (wait_and_report pid cs))"

section \<open>Tables\<close>

lemma fd_at_set: "Some d \<in> set t \<longleftrightarrow> (\<exists>i. fd_at t i = Some d)"
  by (auto simp: in_set_conv_nth fd_at_def)

lemma holds_writer_at: "holds_writer p t \<longleftrightarrow> (\<exists>i c. fd_at t i = Some (Pipe_write p, c))"
  unfolding holds_writer_def fd_at_set by (metis (full_types))

lemma fd_dup2_at:
  "fd_at t old = Some (f, c) \<Longrightarrow>
   fd_at (fd_dup2 old new t) = (if old = new then fd_at t else (fd_at t)(new := Some (f, False)))"
  by (simp add: fd_dup2_def fd_put_at)

lemma fd_set_cloexec_at:
  "fd_at t i = Some (f, c) \<Longrightarrow> fd_at (fd_set_cloexec i t) = (fd_at t)(i := Some (f, True))"
  by (simp add: fd_set_cloexec_def fd_put_at)

definition drop_cloexec :: "(open_file \<times> bool) option \<Rightarrow> (open_file \<times> bool) option" where
  "drop_cloexec d = (case d of Some (f, True) \<Rightarrow> None | _ \<Rightarrow> d)"

lemma drop_cloexec_simps [simp]:
  "drop_cloexec None = None"
  "drop_cloexec (Some (f, c)) = (if c then None else Some (f, c))"
  by (simp_all add: drop_cloexec_def)

lemma drop_cloexec_Some: "drop_cloexec d = Some x \<Longrightarrow> d = Some x"
  by (auto simp: drop_cloexec_def split: option.splits bool.splits)

lemma fd_exec_at: "fd_at (fd_exec t) i = drop_cloexec (fd_at t i)"
  by (simp add: fd_at_def fd_exec_def drop_cloexec_def)

lemma close_in_parent_simps [simp]:
  "fd_at (os_parent (close_in_parent ds s)) = (\<lambda>i. if i \<in> set ds then None else fd_at (os_parent s) i)"
  "os_children (close_in_parent ds s) = os_children s"
  "os_pipes (close_in_parent ds s) = os_pipes s"
  by (simp_all add: close_in_parent_def fds.remove_all_at)

text \<open>The pipes that are open are among those that have been made.\<close>

fun pipe_of :: "open_file \<Rightarrow> nat option" where
  "pipe_of (Pipe_read p) = Some p"
| "pipe_of (Pipe_write p) = Some p"
| "pipe_of (Other_file _) = None"

definition table_ok :: "nat \<Rightarrow> fd_table \<Rightarrow> bool" where
  "table_ok n t \<longleftrightarrow> (\<forall>i f c p. fd_at t i = Some (f, c) \<longrightarrow> pipe_of f = Some p \<longrightarrow> p < n)"

definition os_ok :: "os \<Rightarrow> bool" where
  [inv_defs]: "os_ok s \<longleftrightarrow> table_ok (os_pipes s) (os_parent s) \<and>
     (\<forall>c \<in> set (os_children s). table_ok (os_pipes s) (child_table (snd c)))"

lemma table_ok_holds: "table_ok n t \<Longrightarrow> holds_writer p t \<Longrightarrow> p < n"
  unfolding table_ok_def holds_writer_at using pipe_of.simps(2) by blast

lemma table_ok_mono: "table_ok n t \<Longrightarrow> n \<le> m \<Longrightarrow> table_ok m t"
  unfolding table_ok_def by (meson less_le_trans)

lemma table_ok_Nil [simp]: "table_ok n []"
  by (simp add: table_ok_def)

section \<open>Three pipes\<close>

lemma anonymous_pipe_Inr:
  assumes "anonymous_pipe E n s = (Inr (r, w), s1)"
  shows "fd_at (os_parent s1) = (fd_at (os_parent s))
      (r := Some (Pipe_read (os_pipes s), False), w := Some (Pipe_write (os_pipes s), False))"
    and "fd_at (os_parent s) r = None" and "fd_at (os_parent s) w = None" and "r < w"
    and "os_pipes s1 = Suc (os_pipes s)" and "os_children s1 = os_children s"
    and "\<And>i. fd_at (os_parent s) i = None \<Longrightarrow> i \<noteq> r \<Longrightarrow> r < i"
    and "\<And>i. fd_at (os_parent s) i = None \<Longrightarrow> i \<noteq> r \<Longrightarrow> i \<noteq> w \<Longrightarrow> w < i"
proof -
  obtain t1 t2 where a: "fd_alloc (Pipe_read (os_pipes s), False) (os_parent s) = (r, t1)"
      "fd_alloc (Pipe_write (os_pipes s), False) t1 = (w, t2)"
    and s1: "s1 = s\<lparr>os_parent := t2, os_pipes := Suc (os_pipes s)\<rparr>"
    using assms by (auto simp: anonymous_pipe_def Let_def split: prod.splits if_splits)
  note two = fds.alloc_two [OF a]
  show "fd_at (os_parent s1) = (fd_at (os_parent s))
      (r := Some (Pipe_read (os_pipes s), False), w := Some (Pipe_write (os_pipes s), False))"
    using two(1) by (simp add: s1)
  show "fd_at (os_parent s) r = None" "fd_at (os_parent s) w = None" "r < w" using two by simp_all
  show "os_pipes s1 = Suc (os_pipes s)" "os_children s1 = os_children s" by (simp_all add: s1)
  show "r < i" if "fd_at (os_parent s) i = None" "i \<noteq> r" for i
    using fds.alloc_lowest [OF a(1), of i] that by (meson linorder_neqE_nat)
  show "w < i" if "fd_at (os_parent s) i = None" "i \<noteq> r" "i \<noteq> w" for i
    using fds.alloc_lowest [OF a(2), of i] that
    by (cases i w rule: linorder_cases) (simp_all add: fds.alloc_at [OF a(1)])
qed

lemma anonymous_pipe_Inl:
  assumes "anonymous_pipe E n s = (Inl x, s1)"
  shows "fd_at (os_parent s1) = fd_at (os_parent s) \<and> os_children s1 = os_children s \<and>
    os_pipes s \<le> os_pipes s1 \<and> x \<in> {Std_bad_alloc, Std_runtime_error ''crt stream error''}"
proof (cases "se_pipe E n")
  case True
  obtain r t1 where a1: "fd_alloc (Pipe_read (os_pipes s), False) (os_parent s) = (r, t1)" by force
  obtain w t2 where a2: "fd_alloc (Pipe_write (os_pipes s), False) t1 = (w, t2)" by force
  have "x = Std_runtime_error ''crt stream error''"
    and "s1 = close_in_parent [r, w] (s\<lparr>os_parent := t2, os_pipes := Suc (os_pipes s)\<rparr>)"
    using assms True by (auto simp: anonymous_pipe_def a1 a2 Let_def split: if_splits)
  with fds.alloc_two [OF a1 a2] show ?thesis by (auto simp: fun_eq_iff)
next
  case False
  with assms show ?thesis by (simp add: anonymous_pipe_def)
qed

text \<open>
  The six descriptors of the three pipes go up; the second pipe's end for writing is neither
  standard input nor, like all but the first two, standard output.
\<close>

lemma three_pipes:
  assumes "anonymous_pipe E 0 s = (Inr (r0, w0), s1)" and "anonymous_pipe E 1 s1 = (Inr (r1, w1), s2)"
    and "anonymous_pipe E 2 s2 = (Inr (r2, w2), s3)"
  defines "k \<equiv> os_pipes s"
  shows "r0 < w0 \<and> w0 < r1 \<and> r1 < w1 \<and> w1 < r2 \<and> r2 < w2"
    and "fd_at (os_parent s3) = (fd_at (os_parent s))
      (r0 := Some (Pipe_read k, False), w0 := Some (Pipe_write k, False),
       r1 := Some (Pipe_read (k + 1), False), w1 := Some (Pipe_write (k + 1), False),
       r2 := Some (Pipe_read (k + 2), False), w2 := Some (Pipe_write (k + 2), False))"
    and "\<forall>i \<in> {r0, w0, r1, w1, r2, w2}. fd_at (os_parent s) i = None"
    and "os_pipes s3 = k + 3" and "os_children s3 = os_children s"
proof -
  note p0 = anonymous_pipe_Inr [OF assms(1)]
  note p1 = anonymous_pipe_Inr [OF assms(2)]
  note p2 = anonymous_pipe_Inr [OF assms(3)]
  have free1: "fd_at (os_parent s) i = None \<and> i \<noteq> r0 \<and> i \<noteq> w0 \<and> w0 < i" if "i \<in> {r1, w1}" for i
    using p1(2,3) p0(8) [of i] that by (auto simp: p0(1) split: if_splits)
  have free2: "fd_at (os_parent s1) i = None \<and> w1 < i" if "i \<in> {r2, w2}" for i
    using p2(2,3) p1(8) [of i] that by (auto simp: p1(1) split: if_splits)
  show ord: "r0 < w0 \<and> w0 < r1 \<and> r1 < w1 \<and> w1 < r2 \<and> r2 < w2"
    using p0(4) p1(4) p2(4) free1 [of r1] free2 [of r2] by simp
  show "fd_at (os_parent s3) = (fd_at (os_parent s))
      (r0 := Some (Pipe_read k, False), w0 := Some (Pipe_write k, False),
       r1 := Some (Pipe_read (k + 1), False), w1 := Some (Pipe_write (k + 1), False),
       r2 := Some (Pipe_read (k + 2), False), w2 := Some (Pipe_write (k + 2), False))"
    by (simp add: p0(1,5) p1(1,5) p2(1) k_def numeral_2_eq_2)
  have "fd_at (os_parent s) r2 = None" "fd_at (os_parent s) w2 = None"
    using free2 [of r2] free2 [of w2] ord by (auto simp: p0(1) split: if_splits)
  then show "\<forall>i \<in> {r0, w0, r1, w1, r2, w2}. fd_at (os_parent s) i = None"
    using p0(2,3) free1 by simp
  show "os_pipes s3 = k + 3" "os_children s3 = os_children s"
    using p0(5,6) p1(5,6) p2(5,6) by (simp_all add: k_def)
qed

section \<open>What a spawn leaves behind\<close>

lemma child_descriptors_at:
  assumes "r0 < w0" "w0 < r1" "r1 < w1" "w1 < r2" "r2 < w2"
    and t: "fd_at t r0 = Some (f0, c0)" "fd_at t w1 = Some (f1, c1)"
  shows "fd_at (child_descriptors (r0, w0) (r1, w1) (r2, w2) t) =
    (\<lambda>i. if i = 1 then Some (f1, False)
         else if i = 0 then Some (f0, if r0 = 0 then c0 else False)
         else if i \<in> {w0, r1, r2} then None else fd_at t i)"
proof -
  let ?t1 = "fold fd_close [w0, r1, r2] t"
  have t1: "fd_at ?t1 = (\<lambda>i. if i \<in> {w0, r1, r2} then None else fd_at t i)"
    by (simp only: fds.remove_all_at) auto
  let ?t2 = "fd_dup2 r0 0 ?t1"
  have "fd_at ?t1 r0 = Some (f0, c0)" using assms unfolding t1 by simp
  then have t2: "fd_at ?t2 = (if r0 = 0 then fd_at ?t1 else (fd_at ?t1)(0 := Some (f0, False)))"
    by (rule fd_dup2_at)
  have "fd_at ?t2 w1 = Some (f1, c1)" using assms unfolding t2 t1 by simp
  then have "fd_at (fd_dup2 w1 1 ?t2) = (if w1 = 1 then fd_at ?t2 else (fd_at ?t2)(1 := Some (f1, False)))"
    by (rule fd_dup2_at)
  moreover have "w1 \<noteq> 1" using assms by simp
  ultimately show ?thesis
    using assms unfolding child_descriptors_def fst_conv snd_conv t2 t1 by (auto simp: fun_eq_iff)
qed

lemma fork_and_exec_Inr:
  assumes "fork_and_exec E path args extra to from err s = (Inr sp, s')"
  shows "sp_to sp = snd to \<and> sp_from sp = fst from \<and> se_fork E = Some (sp_pid sp) \<and>
    se_execve E (c_str path) (child_argv path args) (child_environment (se_environ E) extra) = None \<and>
    os_pipes s' = os_pipes s \<and>
    os_children s' = os_children s @ [(sp_pid sp, Running (fd_exec (child_descriptors to from err
      (fd_set_cloexec (snd err) (os_parent s)))))] \<and>
    fd_at (os_parent s') = (\<lambda>i. if i \<in> {snd err, fst to, snd from, fst err} then None
      else fd_at (fd_set_cloexec (snd err) (os_parent s)) i)"
  using assms by (auto simp: fork_and_exec_def Let_def split: option.splits)

lemma fork_and_exec_Inl:
  assumes "fork_and_exec E path args extra to from err s = (Inl x, s')"
  shows "fd_at (os_parent s') = (\<lambda>i. if i \<in> {fst to, snd to, fst from, snd from, fst err, snd err} then None
      else fd_at (fd_set_cloexec (snd err) (os_parent s)) i)"
    and "se_fork E = None \<and> x = Std_runtime_error ''forking the process failed'' \<and> os_children s' = os_children s \<or>
      (\<exists>pid n. se_fork E = Some pid \<and> x = Server_exe_not_found (exec_error_text path n) \<and>
        se_execve E (c_str path) (child_argv path args) (child_environment (se_environ E) extra) = Some n \<and>
        os_children s' = os_children s @ [(pid, Exited 255)])"
  using assms by (auto simp: fork_and_exec_def Let_def split: option.splits)

lemma spawn_Inr:
  assumes "spawn E path args extra s = (Inr sp, s')"
  obtains r0 w1 ct where "r0 < sp_to sp" and "sp_to sp < sp_from sp" and "sp_from sp < w1"
    and "\<forall>i \<in> {r0, sp_to sp, sp_from sp, w1}. fd_at (os_parent s) i = None"
    and "os_children s' = os_children s @ [(sp_pid sp, Running ct)]"
    and "fd_at (os_parent s') = (fd_at (os_parent s))
      (sp_to sp := Some (Pipe_write (os_pipes s), False), sp_from sp := Some (Pipe_read (os_pipes s + 1), False))"
    and "\<And>i. fd_at ct i = (if i = 1 then Some (Pipe_write (os_pipes s + 1), False)
         else if i = 0 \<or> i = r0 then Some (Pipe_read (os_pipes s), False)
         else if i = w1 then Some (Pipe_write (os_pipes s + 1), False)
         else drop_cloexec (fd_at (os_parent s) i))"
    and "os_pipes s' = os_pipes s + 3"
    and "se_execve E (c_str path) (child_argv path args) (child_environment (se_environ E) extra) = None"
proof -
  obtain r0 w0 s1 r1 w1 s2 r2 w2 s3 where
    pipes: "anonymous_pipe E 0 s = (Inr (r0, w0), s1)" "anonymous_pipe E 1 s1 = (Inr (r1, w1), s2)"
      "anonymous_pipe E 2 s2 = (Inr (r2, w2), s3)"
    and fork: "fork_and_exec E path args extra (r0, w0) (r1, w1) (r2, w2) s3 = (Inr sp, s')"
    using assms by (auto simp: spawn_def split: prod.splits sum.splits)
  note three = three_pipes [OF pipes]
  note forked = fork_and_exec_Inr [OF fork, unfolded fst_conv snd_conv]
  let ?t = "fd_set_cloexec w2 (os_parent s3)"
  have t: "fd_at ?t = (fd_at (os_parent s3))(w2 := Some (Pipe_write (os_pipes s + 2), True))"
    by (rule fd_set_cloexec_at [where c = False]) (simp add: three(2))
  have at_r0: "fd_at ?t r0 = Some (Pipe_read (os_pipes s), False)"
    and at_w1: "fd_at ?t w1 = Some (Pipe_write (os_pipes s + 1), False)"
    using three(1) by (simp_all add: t three(2))
  have "fd_at (child_descriptors (r0, w0) (r1, w1) (r2, w2) ?t) =
    (\<lambda>i. if i = 1 then Some (Pipe_write (os_pipes s + 1), False)
         else if i = 0 then Some (Pipe_read (os_pipes s), if r0 = 0 then False else False)
         else if i \<in> {w0, r1, r2} then None else fd_at ?t i)"
    using three(1) by (intro child_descriptors_at [OF _ _ _ _ _ at_r0 at_w1]) simp_all
  then have child: "fd_at (fd_exec (child_descriptors (r0, w0) (r1, w1) (r2, w2) ?t)) i =
      (if i = 1 then Some (Pipe_write (os_pipes s + 1), False)
       else if i = 0 \<or> i = r0 then Some (Pipe_read (os_pipes s), False)
       else if i = w1 then Some (Pipe_write (os_pipes s + 1), False)
       else drop_cloexec (fd_at (os_parent s) i))" for i
    using three(1,3) by (simp add: fd_exec_at t three(2))
  have parent: "fd_at (os_parent s') = (fd_at (os_parent s))
      (sp_to sp := Some (Pipe_write (os_pipes s), False), sp_from sp := Some (Pipe_read (os_pipes s + 1), False))"
    using three(1,3) forked by (auto simp: fun_eq_iff t three(2))
  show ?thesis
    using three(1,3,4,5) forked parent child
    by (intro that [of r0 w1 "fd_exec (child_descriptors (r0, w0) (r1, w1) (r2, w2) ?t)"]) simp_all
qed

text \<open>The steps that can throw, each with the pipes that are open by then.\<close>

lemma spawn_Inl_cases:
  assumes "spawn E path args extra s = (Inl x, s')"
  obtains (pipe0) "anonymous_pipe E 0 s = (Inl x, s')"
  | (pipe1) r0 w0 s1 s2 where "anonymous_pipe E 0 s = (Inr (r0, w0), s1)"
      "anonymous_pipe E 1 s1 = (Inl x, s2)" "s' = close_in_parent [r0, w0] s2"
  | (pipe2) r0 w0 s1 r1 w1 s2 s3 where "anonymous_pipe E 0 s = (Inr (r0, w0), s1)"
      "anonymous_pipe E 1 s1 = (Inr (r1, w1), s2)" "anonymous_pipe E 2 s2 = (Inl x, s3)"
      "s' = close_in_parent [r0, w0, r1, w1] s3"
  | (fork) r0 w0 s1 r1 w1 s2 r2 w2 s3 where "anonymous_pipe E 0 s = (Inr (r0, w0), s1)"
      "anonymous_pipe E 1 s1 = (Inr (r1, w1), s2)" "anonymous_pipe E 2 s2 = (Inr (r2, w2), s3)"
      "fork_and_exec E path args extra (r0, w0) (r1, w1) (r2, w2) s3 = (Inl x, s')"
proof -
  obtain a s1 where a: "anonymous_pipe E 0 s = (a, s1)" by force
  obtain b s2 where b: "anonymous_pipe E 1 s1 = (b, s2)" by force
  obtain d s3 where d: "anonymous_pipe E 2 s2 = (d, s3)" by force
  from assms a b d show thesis
    by (cases a; cases b; cases d) (auto simp: spawn_def intro: that)
qed

lemma spawn_Inl_parent:
  assumes "spawn E path args extra s = (Inl x, s')"
  shows "fd_at (os_parent s') = fd_at (os_parent s)"
  using assms
proof (cases rule: spawn_Inl_cases)
  case pipe0
  then show ?thesis using anonymous_pipe_Inl by blast
next
  case (pipe1 r0 w0 s1 s2)
  note one = anonymous_pipe_Inr [OF pipe1(1)]
  show ?thesis
    using anonymous_pipe_Inl [OF pipe1(2)] one(1-3) by (auto simp: pipe1(3) fun_eq_iff)
next
  case (pipe2 r0 w0 s1 r1 w1 s2 s3)
  note one = anonymous_pipe_Inr [OF pipe2(1)] and two = anonymous_pipe_Inr [OF pipe2(2)]
  have "fd_at (os_parent s) r1 = None" "fd_at (os_parent s) w1 = None"
    using two(2,3) by (auto simp: one(1) split: if_splits)
  then show ?thesis
    using anonymous_pipe_Inl [OF pipe2(3)] one(1-3) two(1) by (auto simp: pipe2(4) fun_eq_iff)
next
  case (fork r0 w0 s1 r1 w1 s2 r2 w2 s3)
  note three = three_pipes [OF fork(1-3)]
  have "fd_at (fd_set_cloexec w2 (os_parent s3)) =
      (fd_at (os_parent s3))(w2 := Some (Pipe_write (os_pipes s + 2), True))"
    by (rule fd_set_cloexec_at [where c = False]) (simp add: three(2))
  then show ?thesis
    using three(3) fork_and_exec_Inl(1) [OF fork(4), unfolded fst_conv snd_conv]
    by (auto simp: fun_eq_iff three(2))
qed

text \<open>What is thrown, and what becomes of the child if there is one by then.\<close>

definition spawn_failed :: "spawn_env \<Rightarrow> string \<Rightarrow> string list \<Rightarrow> string list \<Rightarrow> exn \<Rightarrow> (nat \<times> child_state) list \<Rightarrow> bool"
  where
  "spawn_failed E path args extra x cs \<longleftrightarrow>
     cs = [] \<and> x \<in> {Std_bad_alloc, Std_runtime_error ''crt stream error'',
       Std_runtime_error ''forking the process failed''} \<or>
     (\<exists>pid n. cs = [(pid, Exited 255)] \<and> x = Server_exe_not_found (exec_error_text path n) \<and>
       se_execve E (c_str path) (child_argv path args) (child_environment (se_environ E) extra) = Some n)"

lemma spawn_Inl_children:
  assumes "spawn E path args extra s = (Inl x, s')"
  shows "\<exists>cs. os_children s' = os_children s @ cs \<and> spawn_failed E path args extra x cs"
  using assms
proof (cases rule: spawn_Inl_cases)
  case pipe0
  then show ?thesis using anonymous_pipe_Inl [OF pipe0] by (auto simp: spawn_failed_def)
next
  case (pipe1 r0 w0 s1 s2)
  then show ?thesis
    using anonymous_pipe_Inl [OF pipe1(2)] anonymous_pipe_Inr(6) [OF pipe1(1)]
    by (auto simp: spawn_failed_def)
next
  case (pipe2 r0 w0 s1 r1 w1 s2 s3)
  then show ?thesis
    using anonymous_pipe_Inl [OF pipe2(3)] anonymous_pipe_Inr(6) [OF pipe2(1)]
      anonymous_pipe_Inr(6) [OF pipe2(2)]
    by (auto simp: spawn_failed_def)
next
  case (fork r0 w0 s1 r1 w1 s2 r2 w2 s3)
  then show ?thesis
    using fork_and_exec_Inl(2) [OF fork(4)] three_pipes(5) [OF fork(1-3)]
    by (auto simp: spawn_failed_def)
qed

text \<open>The numbering of the pipes stays ahead of those that are open.\<close>

lemma table_okI:
  assumes "\<And>i f c p. fd_at t i = Some (f, c) \<Longrightarrow> pipe_of f = Some p \<Longrightarrow> p < n"
  shows "table_ok n t"
  using assms by (auto simp: table_ok_def)

lemma spawn_Inl_pipes:
  assumes "spawn E path args extra s = (Inl x, s')"
  shows "os_pipes s \<le> os_pipes s'"
  using assms
proof (cases rule: spawn_Inl_cases)
  case pipe0
  then show ?thesis using anonymous_pipe_Inl by blast
next
  case (pipe1 r0 w0 s1 s2)
  then show ?thesis using anonymous_pipe_Inl [OF pipe1(2)] anonymous_pipe_Inr(5) [OF pipe1(1)] by simp
next
  case (pipe2 r0 w0 s1 r1 w1 s2 s3)
  then show ?thesis
    using anonymous_pipe_Inl [OF pipe2(3)] anonymous_pipe_Inr(5) [OF pipe2(1)]
      anonymous_pipe_Inr(5) [OF pipe2(2)] by simp
next
  case (fork r0 w0 s1 r1 w1 s2 r2 w2 s3)
  then have "os_pipes s' = os_pipes s3"
    by (auto simp: fork_and_exec_def Let_def split: option.splits)
  then show ?thesis using three_pipes(4) [OF fork(1-3)] by simp
qed

lemma spawn_os_ok:
  assumes "os_ok s" and "spawn E path args extra s = (r, s')"
  shows "os_ok s'"
proof (cases r)
  case (Inl x)
  note inl = assms(2) [unfolded Inl]
  obtain cs where cs: "os_children s' = os_children s @ cs" "spawn_failed E path args extra x cs"
    using spawn_Inl_children [OF inl] by blast
  have "table_ok (os_pipes s') (os_parent s')"
    using table_ok_mono [OF _ spawn_Inl_pipes [OF inl], of "os_parent s"] assms(1)
    by (simp add: os_ok_def table_ok_def spawn_Inl_parent [OF inl])
  moreover have "table_ok (os_pipes s') (child_table (snd c))" if "c \<in> set (os_children s')" for c
    using that cs assms(1) table_ok_mono [OF _ spawn_Inl_pipes [OF inl]]
    by (auto simp: os_ok_def spawn_failed_def)
  ultimately show ?thesis by (simp add: os_ok_def)
next
  case (Inr sp)
  note ok = assms(1) [unfolded os_ok_def]
  show ?thesis
  proof (rule spawn_Inr [OF assms(2) [unfolded Inr]])
    fix r0 w1 ct
    assume ch: "os_children s' = os_children s @ [(sp_pid sp, Running ct)]"
      and pa: "fd_at (os_parent s') = (fd_at (os_parent s))
        (sp_to sp := Some (Pipe_write (os_pipes s), False), sp_from sp := Some (Pipe_read (os_pipes s + 1), False))"
      and ct: "\<And>i. fd_at ct i = (if i = 1 then Some (Pipe_write (os_pipes s + 1), False)
           else if i = 0 \<or> i = r0 then Some (Pipe_read (os_pipes s), False)
           else if i = w1 then Some (Pipe_write (os_pipes s + 1), False)
           else drop_cloexec (fd_at (os_parent s) i))"
      and n: "os_pipes s' = os_pipes s + 3"
    have old: "p < os_pipes s + 3" if "fd_at (os_parent s) i = Some (f, c)" "pipe_of f = Some p" for i f c p
      using ok that unfolding table_ok_def by (meson trans_less_add1)
    have "table_ok (os_pipes s') (os_parent s')"
      using old by (intro table_okI) (auto simp: pa n split: if_splits)
    moreover have "table_ok (os_pipes s') ct"
      using old by (intro table_okI) (auto simp: ct n dest!: drop_cloexec_Some split: if_splits)
    moreover have "\<forall>c \<in> set (os_children s). table_ok (os_pipes s') (child_table (snd c))"
      using ok n table_ok_mono by auto
    ultimately show ?thesis by (auto simp: os_ok_def ch)
  qed
qed

section \<open>When a child sees the end of its input\<close>

text \<open>The child that has just been spawned cannot keep its own input open.\<close>

lemma release_at_end:
  assumes "os_ok s" and "spawn E path args extra s = (Inr sp, s')"
  shows "pipe_at_end (os_pipes s) (release_outbound sp s')"
proof (rule spawn_Inr [OF assms(2)])
  fix r0 w1 ct
  assume ord: "r0 < sp_to sp" "sp_to sp < sp_from sp" "sp_from sp < w1"
    and ch: "os_children s' = os_children s @ [(sp_pid sp, Running ct)]"
    and pa: "fd_at (os_parent s') = (fd_at (os_parent s))
      (sp_to sp := Some (Pipe_write (os_pipes s), False), sp_from sp := Some (Pipe_read (os_pipes s + 1), False))"
    and ct: "\<And>i. fd_at ct i = (if i = 1 then Some (Pipe_write (os_pipes s + 1), False)
         else if i = 0 \<or> i = r0 then Some (Pipe_read (os_pipes s), False)
         else if i = w1 then Some (Pipe_write (os_pipes s + 1), False)
         else drop_cloexec (fd_at (os_parent s) i))"
  have fresh: "\<not> holds_writer (os_pipes s) t" if "table_ok (os_pipes s) t" for t
    using table_ok_holds [OF that] by blast
  have parent: "\<not> holds_writer (os_pipes s) (os_parent s)"
    and kids: "\<forall>c \<in> set (os_children s). \<not> holds_writer (os_pipes s) (child_table (snd c))"
    using assms(1) fresh by (auto simp: os_ok_def)
  have "\<not> holds_writer (os_pipes s) ct"
    using parent by (auto simp: holds_writer_at ct dest!: drop_cloexec_Some split: if_splits)
  moreover have "\<not> holds_writer (os_pipes s) (os_parent (release_outbound sp s'))"
    using parent ord by (auto simp: holds_writer_at release_outbound_def pa split: if_splits)
  ultimately show ?thesis
    using kids by (auto simp: pipe_at_end_def release_outbound_def ch)
qed

text \<open>One that is spawned later inherits the parent's end of it and keeps it open.\<close>

lemma later_child_holds:
  assumes "fd_at (os_parent s) i = Some (Pipe_write p, False)" and "1 < i"
    and "spawn E path args extra s = (Inr sp, s')"
  shows "\<exists>ct. os_children s' = os_children s @ [(sp_pid sp, Running ct)] \<and> holds_writer p ct"
proof (rule spawn_Inr [OF assms(3)])
  fix r0 w1 ct
  assume free: "\<forall>i \<in> {r0, sp_to sp, sp_from sp, w1}. fd_at (os_parent s) i = None"
    and ch: "os_children s' = os_children s @ [(sp_pid sp, Running ct)]"
    and ct: "\<And>i. fd_at ct i = (if i = 1 then Some (Pipe_write (os_pipes s + 1), False)
         else if i = 0 \<or> i = r0 then Some (Pipe_read (os_pipes s), False)
         else if i = w1 then Some (Pipe_write (os_pipes s + 1), False)
         else drop_cloexec (fd_at (os_parent s) i))"
  have "i \<noteq> r0" "i \<noteq> w1" using free assms(1) by auto
  then have "fd_at ct i = Some (Pipe_write p, False)" using assms(1,2) by (simp add: ct)
  then show ?thesis using ch by (auto simp: holds_writer_at)
qed

end
