(* ===== verification/Spawn_Lifetime.thy ===== *)
theory Spawn_Lifetime
  imports Spawn_Unix
begin

text \<open>
  The end of a spawned server, from the destructor of its client
  (\<^verbatim>\<open>src/client_endpoint_spawn.cpp\<close>) through both pipes and back: the destructor lets go of the
  stream to the server and joins the client's thread; the server's \<^verbatim>\<open>main\<close>
  (\<^verbatim>\<open>src/server_endpoint_spawn.cpp\<close>) returns when its standard input is at its end, and with the
  process its standard output ends; the client's thread returns when that is at its end. The
  descriptors are those of \<open>Spawn_Unix\<close>; what is in the two pipes is counted in bytes.
\<close>

datatype dtor_stage = Not_begun | Stream_released | Thread_joined

record spawn_link =
  sl_os :: os
  sl_stage :: dtor_stage
  sl_thread_ended :: bool
  sl_told :: bool
  sl_to_server :: nat
  sl_from_server :: nat

text \<open>A process exits: its descriptors are closed.\<close>

definition exit_child :: "nat \<Rightarrow> nat \<Rightarrow> os \<Rightarrow> os" where
  "exit_child pid status s =
     s\<lparr>os_children := map (\<lambda>(p, st). (p, if p = pid then Exited status else st)) (os_children s)\<rparr>"

definition server_running :: "nat \<Rightarrow> os \<Rightarrow> bool" where
  "server_running pid s \<longleftrightarrow> (\<exists>t. (pid, Running t) \<in> set (os_children s))"

text \<open>
  The steps of the destructor, the server and the client's thread; \<open>k\<close> is the number of the pipe to
  the server. The server answers what it reads with any number of bytes. The thread tells its
  channel of the disconnection if \<^verbatim>\<open>_outbound\<close> is still there.
\<close>

inductive dtor_step :: "nat \<Rightarrow> spawned \<Rightarrow> spawn_link \<Rightarrow> spawn_link \<Rightarrow> bool" for k sp where
  dtor_reset: "sl_stage l = Not_begun \<Longrightarrow>
    dtor_step k sp l (l\<lparr>sl_stage := Stream_released, sl_os := release_outbound sp (sl_os l)\<rparr>)"
| dtor_join: "sl_stage l = Stream_released \<Longrightarrow> sl_thread_ended l \<Longrightarrow>
    dtor_step k sp l (l\<lparr>sl_stage := Thread_joined\<rparr>)"
| server_serves: "server_running (sp_pid sp) (sl_os l) \<Longrightarrow> sl_to_server l = Suc n \<Longrightarrow>
    dtor_step k sp l (l\<lparr>sl_to_server := n, sl_from_server := sl_from_server l + answered\<rparr>)"
| server_returns: "server_running (sp_pid sp) (sl_os l) \<Longrightarrow> sl_to_server l = 0 \<Longrightarrow>
    pipe_at_end k (sl_os l) \<Longrightarrow> dtor_step k sp l (l\<lparr>sl_os := exit_child (sp_pid sp) 0 (sl_os l)\<rparr>)"
| thread_reads: "\<not> sl_thread_ended l \<Longrightarrow> sl_from_server l = Suc n \<Longrightarrow>
    dtor_step k sp l (l\<lparr>sl_from_server := n\<rparr>)"
| thread_ends: "\<not> sl_thread_ended l \<Longrightarrow> sl_from_server l = 0 \<Longrightarrow> pipe_at_end (k + 1) (sl_os l) \<Longrightarrow>
    dtor_step k sp l (l\<lparr>sl_thread_ended := True, sl_told := (sl_stage l = Not_begun)\<rparr>)"

inductive_cases dtor_stepE: "dtor_step k sp l l'"

section \<open>It ends\<close>

fun stage_rank :: "dtor_stage \<Rightarrow> nat" where
  "stage_rank Not_begun = 2"
| "stage_rank Stream_released = 1"
| "stage_rank Thread_joined = 0"

definition events_left :: "spawned \<Rightarrow> spawn_link \<Rightarrow> nat" where
  "events_left sp l = stage_rank (sl_stage l) + of_bool (server_running (sp_pid sp) (sl_os l)) +
     of_bool (\<not> sl_thread_ended l)"

lemma not_running_exit: "\<not> server_running pid (exit_child pid status s)"
  by (auto simp: server_running_def exit_child_def split: if_splits)

lemma holds_writer_Nil [simp]: "\<not> holds_writer p []"
  by (simp add: holds_writer_def)

lemma release_outbound_children [simp]: "os_children (release_outbound sp s) = os_children s"
  by (simp add: release_outbound_def)

lemma server_running_release [simp]: "server_running pid (release_outbound sp s) = server_running pid s"
  by (simp add: server_running_def release_outbound_def)

lemma dtor_step_less:
  "dtor_step k sp l l' \<Longrightarrow> (l', l) \<in> measures [events_left sp, sl_to_server, sl_from_server]"
  by (erule dtor_stepE)
    (auto simp: events_left_def not_running_exit)

lemma dtor_steps_end: "\<not> (\<exists>f. \<forall>i. dtor_step k sp (f i) (f (Suc i)))"
proof
  assume "\<exists>f. \<forall>i. dtor_step k sp (f i) (f (Suc i))"
  then obtain f where "\<And>i. dtor_step k sp (f i) (f (Suc i))" by blast
  then have "\<forall>i. (f (Suc i), f i) \<in> measures [events_left sp, sl_to_server, sl_from_server]"
    using dtor_step_less by blast
  moreover have "wf (measures [events_left sp, sl_to_server, sl_from_server])" by (rule wf_measures)
  ultimately show False using wf_iff_no_infinite_down_chain by metis
qed

section \<open>Who holds what\<close>

text \<open>
  \<open>pre\<close> and \<open>post\<close> are the other children. The server is running with its descriptors or has
  exited with zero, which it has only if nobody can write to its input any more.
\<close>

definition dtor_inv :: "nat \<Rightarrow> spawned \<Rightarrow> (nat \<times> child_state) list \<Rightarrow> (nat \<times> child_state) list \<Rightarrow>
    spawn_link \<Rightarrow> child_state \<Rightarrow> bool" where
  [inv_defs]: "dtor_inv k sp pre post l st \<longleftrightarrow>
     os_children (sl_os l) = pre @ (sp_pid sp, st) # post \<and>
     (\<forall>c \<in> set (pre @ post). fst c \<noteq> sp_pid sp \<and> \<not> holds_writer (k + 1) (child_table (snd c))) \<and>
     (\<forall>c \<in> set pre. \<not> holds_writer k (child_table (snd c))) \<and>
     \<not> holds_writer (k + 1) (os_parent (sl_os l)) \<and>
     (holds_writer k (os_parent (sl_os l)) \<longleftrightarrow> sl_stage l = Not_begun) \<and>
     (st = Exited 0 \<or> (\<exists>ct. st = Running ct \<and> holds_writer (k + 1) ct \<and> \<not> holds_writer k ct)) \<and>
     (st = Exited 0 \<longrightarrow> sl_stage l \<noteq> Not_begun \<and> (\<forall>c \<in> set post. \<not> holds_writer k (child_table (snd c)))) \<and>
     (sl_thread_ended l \<longrightarrow> st = Exited 0) \<and>
     (sl_stage l = Thread_joined \<longrightarrow> sl_thread_ended l) \<and> \<not> sl_told l"

definition only_writer :: "nat \<Rightarrow> nat \<Rightarrow> fd_table \<Rightarrow> bool" where
  "only_writer k d t \<longleftrightarrow> (\<forall>i c. fd_at t i = Some (Pipe_write k, c) \<longrightarrow> i = d)"

lemma only_writer_close: "only_writer k d t \<Longrightarrow> \<not> holds_writer k (fd_close d t)"
  by (auto simp: only_writer_def holds_writer_at fds.remove_at split: if_splits)

lemma holds_writer_close: "holds_writer p (fd_close d t) \<Longrightarrow> holds_writer p t"
  by (auto simp: holds_writer_at fds.remove_at split: if_splits)

lemma dtor_inv_running:
  "dtor_inv k sp pre post l st \<Longrightarrow> server_running (sp_pid sp) (sl_os l) \<longleftrightarrow> st \<noteq> Exited 0"
proof -
  assume inv: "dtor_inv k sp pre post l st"
  then have children: "os_children (sl_os l) = pre @ (sp_pid sp, st) # post"
    and others: "\<forall>c \<in> set (pre @ post). fst c \<noteq> sp_pid sp" unfolding dtor_inv_def by blast+
  have "(sp_pid sp, t) \<notin> set (pre @ post)" for t using others by (metis fst_conv)
  with children have "server_running (sp_pid sp) (sl_os l) \<longleftrightarrow> (\<exists>t. st = Running t)"
    by (auto simp: server_running_def)
  with inv show ?thesis by (auto simp: dtor_inv_def)
qed

lemma exit_child_others:
  "\<forall>c \<in> set cs. fst c \<noteq> pid \<Longrightarrow> map (\<lambda>(p, st). (p, if p = pid then Exited n else st)) cs = cs"
  by (induction cs) auto

lemma dtor_step_inv:
  assumes inv: "dtor_inv k sp pre post l st" and own: "only_writer k (sp_to sp) (os_parent (sl_os l))"
    and step: "dtor_step k sp l l'"
  shows "(\<exists>st'. dtor_inv k sp pre post l' st') \<and> only_writer k (sp_to sp) (os_parent (sl_os l'))"
  using step
proof (cases rule: dtor_step.cases)
  case dtor_reset
  have "\<not> holds_writer k (os_parent (release_outbound sp (sl_os l)))"
    using only_writer_close [OF own] by (simp add: release_outbound_def close_in_parent_def)
  moreover have "\<not> holds_writer (k + 1) (os_parent (release_outbound sp (sl_os l)))"
    using inv holds_writer_close by (auto simp: dtor_inv_def release_outbound_def close_in_parent_def)
  moreover have "only_writer k (sp_to sp) (os_parent (release_outbound sp (sl_os l)))"
    using own by (auto simp: only_writer_def release_outbound_def split: if_splits)
  moreover from this calculation have "dtor_inv k sp pre post l' st"
    using dtor_reset inv unfolding dtor_inv_def by auto
  ultimately show ?thesis using dtor_reset by auto
next
  case server_returns
  have "dtor_inv k sp pre post l' (Exited 0)"
    using server_returns inv by (auto simp: dtor_inv_def exit_child_def exit_child_others pipe_at_end_def)
  then show ?thesis using server_returns own by (auto simp: exit_child_def)
next
  case thread_ends
  then have "st = Exited 0" "sl_stage l \<noteq> Not_begun" using inv by (auto simp: dtor_inv_def pipe_at_end_def)
  then show ?thesis using thread_ends inv own by (auto simp: dtor_inv_def)
qed (use inv own in \<open>auto simp: dtor_inv_def\<close>)

lemma dtor_steps_inv:
  assumes "(dtor_step k sp)\<^sup>*\<^sup>* l l'" and "dtor_inv k sp pre post l st"
    and "only_writer k (sp_to sp) (os_parent (sl_os l))"
  shows "(\<exists>st'. dtor_inv k sp pre post l' st') \<and> only_writer k (sp_to sp) (os_parent (sl_os l'))"
  using assms
proof (induction rule: rtranclp_induct)
  case (step l' l'')
  then obtain st' where "dtor_inv k sp pre post l' st'" "only_writer k (sp_to sp) (os_parent (sl_os l'))"
    by blast
  then show ?case using dtor_step_inv step(2) by blast
qed blast

text \<open>Unless another child can write to the server's input, something can happen until the thread is joined.\<close>

lemma dtor_progress:
  assumes inv: "dtor_inv k sp pre post l st"
    and post: "\<forall>c \<in> set post. \<not> holds_writer k (child_table (snd c))" and "sl_stage l \<noteq> Thread_joined"
  shows "\<exists>l'. dtor_step k sp l l'"
proof (cases "sl_stage l = Not_begun")
  case True
  then show ?thesis by (intro exI) (rule dtor_reset)
next
  case False
  then have stage: "sl_stage l = Stream_released" using assms(3) by (cases "sl_stage l") auto
  have in_end: "pipe_at_end k (sl_os l)"
    using inv post False by (auto simp: dtor_inv_def pipe_at_end_def)
  show ?thesis
  proof (cases "st = Exited 0")
    case True
    then have out_end: "pipe_at_end (k + 1) (sl_os l)" using inv by (auto simp: dtor_inv_def pipe_at_end_def)
    show ?thesis
    proof (cases "sl_thread_ended l")
      case True
      then show ?thesis using dtor_join [OF stage] by blast
    next
      case False
      show ?thesis
      proof (cases "sl_from_server l")
        case 0
        show ?thesis by (rule exI) (rule thread_ends [OF False 0 out_end])
      next
        case (Suc n)
        show ?thesis by (rule exI) (rule thread_reads [OF False Suc])
      qed
    qed
  next
    case False
    then have run: "server_running (sp_pid sp) (sl_os l)" using dtor_inv_running [OF inv] by simp
    show ?thesis
    proof (cases "sl_to_server l")
      case 0
      show ?thesis by (rule exI) (rule server_returns [OF run 0 in_end])
    next
      case (Suc n)
      show ?thesis by (rule exI) (rule server_serves [OF run Suc])
    qed
  qed
qed

section \<open>From the spawning on\<close>

definition fresh_link :: "os \<Rightarrow> nat \<Rightarrow> nat \<Rightarrow> spawn_link" where
  "fresh_link s n m = \<lparr>sl_os = s, sl_stage = Not_begun, sl_thread_ended = False, sl_told = False,
     sl_to_server = n, sl_from_server = m\<rparr>"

lemma fresh_dtor_inv:
  assumes ok: "os_ok s" and sp: "spawn E path args extra s = (Inr sp, s')"
    and pid: "sp_pid sp \<notin> fst ` set (os_children s)" and std: "fd_at (os_parent s) 0 \<noteq> None" "fd_at (os_parent s) 1 \<noteq> None"
  shows "(\<exists>ct. dtor_inv (os_pipes s) sp (os_children s) [] (fresh_link s' n m) (Running ct)) \<and>
    only_writer (os_pipes s) (sp_to sp) (os_parent s') \<and>
    fd_at (os_parent s') (sp_to sp) = Some (Pipe_write (os_pipes s), False) \<and> 1 < sp_to sp"
proof (rule spawn_Inr [OF sp])
  fix r0 w1 ct
  assume ord: "r0 < sp_to sp" "sp_to sp < sp_from sp" "sp_from sp < w1"
    and free: "\<forall>i \<in> {r0, sp_to sp, sp_from sp, w1}. fd_at (os_parent s) i = None"
    and ch: "os_children s' = os_children s @ [(sp_pid sp, Running ct)]"
    and pa: "fd_at (os_parent s') = (fd_at (os_parent s))
      (sp_to sp := Some (Pipe_write (os_pipes s), False), sp_from sp := Some (Pipe_read (os_pipes s + 1), False))"
    and ct: "\<And>i. fd_at ct i = (if i = 1 then Some (Pipe_write (os_pipes s + 1), False)
         else if i = 0 \<or> i = r0 then Some (Pipe_read (os_pipes s), False)
         else if i = w1 then Some (Pipe_write (os_pipes s + 1), False)
         else drop_cloexec (fd_at (os_parent s) i))"
  have fresh: "\<not> holds_writer (os_pipes s) t" "\<not> holds_writer (os_pipes s + 1) t"
    if "table_ok (os_pipes s) t" for t
    using table_ok_holds [OF that] by force+
  have parent: "\<not> holds_writer (os_pipes s) (os_parent s)" "\<not> holds_writer (os_pipes s + 1) (os_parent s)"
    and kids: "\<forall>c \<in> set (os_children s). \<not> holds_writer (os_pipes s) (child_table (snd c)) \<and>
      \<not> holds_writer (os_pipes s + 1) (child_table (snd c))"
    using ok fresh by (auto simp: os_ok_def)
  have "\<not> holds_writer (os_pipes s) ct"
    using parent by (auto simp: holds_writer_at ct dest!: drop_cloexec_Some split: if_splits)
  moreover have "holds_writer (os_pipes s + 1) ct"
    unfolding holds_writer_at by (intro exI [of _ 1] exI [of _ False]) (simp add: ct)
  moreover have only: "only_writer (os_pipes s) (sp_to sp) (os_parent s')"
    using parent(1) by (auto simp: only_writer_def pa holds_writer_at split: if_splits)
  moreover have to: "fd_at (os_parent s') (sp_to sp) = Some (Pipe_write (os_pipes s), False)"
    using ord by (simp add: pa)
  moreover have "holds_writer (os_pipes s) (os_parent s')"
    using to unfolding holds_writer_at by blast
  moreover have "\<not> holds_writer (os_pipes s + 1) (os_parent s')"
    using parent(2) by (auto simp: holds_writer_at pa split: if_splits)
  moreover have "fd_at (os_parent s) (sp_to sp) = None" using free by simp
  then have "sp_to sp \<noteq> 0" "sp_to sp \<noteq> 1" using std by metis+
  then have "1 < sp_to sp" by simp
  moreover have "\<forall>c \<in> set (os_children s). fst c \<noteq> sp_pid sp" using pid by force
  ultimately show ?thesis using kids ch by (auto simp: dtor_inv_def fresh_link_def)
qed

text \<open>
  A server spawned later has a copy of the parent's end of the pipe to the first one.
\<close>

lemma later_dtor_inv:
  assumes inv: "dtor_inv k sp pre [] (fresh_link s n m) (Running ct)" and k: "k + 1 < os_pipes s"
    and to: "fd_at (os_parent s) (sp_to sp) = Some (Pipe_write k, False)" "1 < sp_to sp"
    and own: "only_writer k (sp_to sp) (os_parent s)"
    and later: "spawn E path args extra s = (Inr sp2, s2)" and pid: "sp_pid sp2 \<noteq> sp_pid sp"
  shows "\<exists>ct2. dtor_inv k sp pre [(sp_pid sp2, Running ct2)] (fresh_link s2 n m) (Running ct) \<and>
    holds_writer k ct2 \<and> only_writer k (sp_to sp) (os_parent s2)"
proof (rule spawn_Inr [OF later])
  fix r0 w1 ct2
  assume free: "\<forall>i \<in> {r0, sp_to sp2, sp_from sp2, w1}. fd_at (os_parent s) i = None"
    and ch: "os_children s2 = os_children s @ [(sp_pid sp2, Running ct2)]"
    and pa: "fd_at (os_parent s2) = (fd_at (os_parent s))
      (sp_to sp2 := Some (Pipe_write (os_pipes s), False), sp_from sp2 := Some (Pipe_read (os_pipes s + 1), False))"
    and ct2: "\<And>i. fd_at ct2 i = (if i = 1 then Some (Pipe_write (os_pipes s + 1), False)
         else if i = 0 \<or> i = r0 then Some (Pipe_read (os_pipes s), False)
         else if i = w1 then Some (Pipe_write (os_pipes s + 1), False)
         else drop_cloexec (fd_at (os_parent s) i))"
  have noout: "\<not> holds_writer (k + 1) (os_parent s)"
    using inv by (simp add: dtor_inv_def fresh_link_def)
  have "\<not> holds_writer (k + 1) ct2"
    using noout k by (auto simp: holds_writer_at ct2 dest!: drop_cloexec_Some split: if_splits)
  moreover have "\<not> holds_writer (k + 1) (os_parent s2)"
    using noout k by (auto simp: holds_writer_at pa split: if_splits)
  moreover have ne: "sp_to sp \<noteq> r0" "sp_to sp \<noteq> w1" "sp_to sp \<noteq> sp_to sp2" "sp_to sp \<noteq> sp_from sp2"
    using free to by auto
  then have "fd_at ct2 (sp_to sp) = Some (Pipe_write k, False)" using to by (simp add: ct2)
  then have held: "holds_writer k ct2" unfolding holds_writer_at by blast
  moreover have "fd_at (os_parent s2) (sp_to sp) = Some (Pipe_write k, False)" using ne to by (simp add: pa)
  then have "holds_writer k (os_parent s2)" unfolding holds_writer_at by blast
  moreover have "only_writer k (sp_to sp) (os_parent s2)"
    using own k by (auto simp: only_writer_def pa split: if_splits)
  ultimately show ?thesis using inv ch pid by (auto simp: dtor_inv_def fresh_link_def)
qed

text \<open>While that one runs, the destructor of the first client does not return.\<close>

lemma held_never_joined:
  assumes "dtor_inv k sp pre post l st" and "c \<in> set post" and "holds_writer k (child_table (snd c))"
  shows "sl_stage l \<noteq> Thread_joined \<and> server_running (sp_pid sp) (sl_os l)"
  using assms dtor_inv_running [OF assms(1)] by (auto simp: dtor_inv_def)

end
