(* ===== verification/Spawn_Win32.thy ===== *)
theory Spawn_Win32
  imports C_Strings Exceptions
begin

text \<open>
  Spawning a server process on Windows, \<^verbatim>\<open>src/client_endpoint_spawn.win32.cpp\<close>: the command line
  and the environment block that are made for \<^verbatim>\<open>CreateProcessW\<close>, and the handles. Wide characters
  are 16-bit words. The system calls, and the conversion from UTF-8, are an argument; of handles
  it matters which are open, which can be inherited, and which are the two ends of one pipe.
\<close>

type_synonym wchar = "16 word"

section \<open>The environment\<close>

text \<open>A \<^verbatim>\<open>char\<close>, which is signed, assigned to a \<^verbatim>\<open>wchar_t\<close>.\<close>

definition widen :: "char \<Rightarrow> wchar" where
  "widen c = word_of_int (sint (word_of_nat (of_char c) :: byte))"

definition wcslen :: "wchar list \<Rightarrow> nat" where
  "wcslen e = length (takeWhile (\<lambda>c. c \<noteq> 0) e)"

lemma wcslen_decreases: "wcslen e \<noteq> 0 \<Longrightarrow> length e - Suc (wcslen e) < length e"
  by (cases e) (simp_all add: wcslen_def)

text \<open>The loop over the block of the parent, which ends at an empty string.\<close>

function copy_environment :: "wchar list \<Rightarrow> wchar list" where
  "copy_environment e =
     (if wcslen e = 0 then []
      else take (wcslen e + 1) e @ copy_environment (drop (wcslen e + 1) e))"
  by pat_completeness auto
termination
  by (relation "measure length") (simp_all add: wcslen_decreases)

declare copy_environment.simps [simp del]

definition initialize_environment :: "wchar list \<Rightarrow> string list \<Rightarrow> wchar list" where
  "initialize_environment block extra_environment =
     copy_environment block @ concat (map (\<lambda>e. map widen e @ [0]) extra_environment) @ [0]"

section \<open>The command line\<close>

definition quote :: wchar where
  "quote = 34"

definition append_quoted :: "wchar list \<Rightarrow> wchar list \<Rightarrow> wchar list" where
  "append_quoted cmdl part = cmdl @ [quote] @ part @ [quote, 32]"

text \<open>\<open>mb\<close> is the conversion; it gives nothing for what it cannot convert.\<close>

definition unicode :: "(string \<Rightarrow> wchar list option) \<Rightarrow> string \<Rightarrow> exn + wchar list" where
  "unicode mb s =
     (case mb s of
        None \<Rightarrow> Inl (Std_runtime_error ''MultiByteToWideChar failed'')
      | Some w \<Rightarrow>
          if w = [] then Inl (Std_runtime_error ''MultiByteToWideChar failed'') else Inr w)"

fun append_arguments ::
  "(string \<Rightarrow> wchar list option) \<Rightarrow> wchar list \<Rightarrow> string list \<Rightarrow> exn + wchar list" where
  "append_arguments mb cmdl [] = Inr cmdl"
| "append_arguments mb cmdl (a # as) =
     bind_result (unicode mb a) (\<lambda>w. append_arguments mb (append_quoted cmdl w) as)"

definition command_line ::
    "(string \<Rightarrow> wchar list option) \<Rightarrow> string \<Rightarrow> string list \<Rightarrow> exn + wchar list" where
  "command_line mb spawned_path arguments =
     bind_result (append_arguments mb [] (spawned_path # arguments))
       (\<lambda>cmdl. Inr (cmdl[length cmdl - 1 := 0]))"

section \<open>Handles\<close>

text \<open>
  A child has as its standard input and output the handles that \<^verbatim>\<open>STARTUPINFO\<close> names, which are good for
  something only if it has inherited them.
\<close>

record win_child =
  wc_process :: nat
  wc_std_input :: "nat option"
  wc_std_output :: "nat option"
  wc_handles :: "nat list"

record win_os =
  wo_open :: "nat list"
  wo_inherit :: "nat list"
  wo_next :: nat
  wo_pipes :: "(nat \<times> nat) list"   \<comment> \<open>for reading, for writing\<close>
  wo_children :: "win_child list"

record win_startup_info =
  si_std_input :: "nat option"
  si_std_output :: "nat option"

record win_env =
  we_create_pipe :: "nat \<Rightarrow> bool"
  we_open_osfhandle :: "nat \<Rightarrow> bool"
  we_fdopen :: "nat \<Rightarrow> bool"
  we_create_process :: "wchar list \<Rightarrow> wchar list \<Rightarrow> bool"
  we_multi_byte :: "string \<Rightarrow> wchar list option"
  we_environment :: "wchar list"

definition close_handles :: "nat list \<Rightarrow> win_os \<Rightarrow> win_os" where
  "close_handles hs s = s\<lparr>wo_open := filter (\<lambda>h. h \<notin> set hs) (wo_open s),
     wo_inherit := filter (\<lambda>h. h \<notin> set hs) (wo_inherit s)\<rparr>"

text \<open>A step, what follows it, and what the destructors do if it throws.\<close>

definition and_then ::
    "(exn + 'a) \<times> 's \<Rightarrow> ('s \<Rightarrow> 's) \<Rightarrow> ('a \<Rightarrow> 's \<Rightarrow> (exn + 'b) \<times> 's) \<Rightarrow> (exn + 'b) \<times> 's" where
  "and_then r unwind f = (case r of (Inl x, s) \<Rightarrow> (Inl x, unwind s) | (Inr a, s) \<Rightarrow> f a s)"

text \<open>Without security attributes: neither end can be inherited.\<close>

definition create_pipe :: "win_env \<Rightarrow> nat \<Rightarrow> win_os \<Rightarrow> (exn + nat \<times> nat) \<times> win_os" where
  "create_pipe E n s =
     (if we_create_pipe E n
      then (Inr (wo_next s, wo_next s + 1),
            s\<lparr>wo_open := wo_open s @ [wo_next s, wo_next s + 1], wo_next := wo_next s + 2,
              wo_pipes := wo_pipes s @ [(wo_next s, wo_next s + 1)]\<rparr>)
      else (Inl Std_bad_alloc, s))"

text \<open>\<^verbatim>\<open>SetHandleInformation(h, HANDLE_FLAG_INHERIT, HANDLE_FLAG_INHERIT)\<close>.\<close>

definition set_inherit :: "nat option \<Rightarrow> win_os \<Rightarrow> win_os" where
  "set_inherit h s =
     (case h of
        Some h' \<Rightarrow> if h' \<in> set (wo_open s) then s\<lparr>wo_inherit := h' # wo_inherit s\<rparr> else s
      | None \<Rightarrow> s)"

text \<open>The handle that no descriptor could be made for stays open.\<close>

definition from_handle :: "win_env \<Rightarrow> nat \<Rightarrow> win_os \<Rightarrow> (exn + nat) \<times> win_os" where
  "from_handle E h s =
     (if \<not> we_open_osfhandle E h then (Inl (Std_runtime_error ''crt error''), s)
      else if we_fdopen E h then (Inr h, s)
      else (Inl (Std_runtime_error ''crt stream error''), close_handles [h] s))"

record win_spawned =
  ws_to :: nat
  ws_from :: nat
  ws_process :: nat

text \<open>
  \<^verbatim>\<open>CreateProcessW\<close>, which is told to let all handles be inherited that can be, makes a handle for the
  process and one for its thread, which is closed. The streams on the child's ends are locals.
\<close>

definition start_process ::
  "win_env \<Rightarrow> string \<Rightarrow> wchar list \<Rightarrow> wchar list \<Rightarrow> win_startup_info \<Rightarrow> nat \<times> nat \<Rightarrow> nat \<times> nat \<Rightarrow> win_os \<Rightarrow>
   (exn + win_spawned) \<times> win_os" where
  "start_process E spawned_path cmdl env si stdin_pipe stdout_pipe s =
     (if we_create_process E cmdl env
      then (Inr \<lparr>ws_to = snd stdin_pipe, ws_from = fst stdout_pipe, ws_process = wo_next s\<rparr>,
            close_handles [wo_next s + 1, fst stdin_pipe, snd stdout_pipe]
              (s\<lparr>wo_open := wo_open s @ [wo_next s, wo_next s + 1], wo_next := wo_next s + 2,
                 wo_children := wo_children s @ [\<lparr>wc_process = wo_next s, wc_std_input = si_std_input si,
                   wc_std_output = si_std_output si, wc_handles = wo_inherit s\<rparr>]\<rparr>))
      else (Inl (Server_exe_not_found (c_str (''Server executable not found: '' @ spawned_path))),
            close_handles [fst stdin_pipe, snd stdin_pipe, fst stdout_pipe, snd stdout_pipe] s))"

definition win_spawn ::
  "win_env \<Rightarrow> string \<Rightarrow> string list \<Rightarrow> string list \<Rightarrow> win_os \<Rightarrow> (exn + win_spawned) \<times> win_os" where
  "win_spawn E spawned_path arguments extra_environment s =
     (let env = initialize_environment (we_environment E) extra_environment;
          si = \<lparr>si_std_input = None, si_std_output = None\<rparr>
      in and_then (create_pipe E 0 s) id (\<lambda>(r0, w0) s1.
           let si1 = si\<lparr>si_std_input := Some r0\<rparr> in
         and_then (from_handle E r0 s1) id (\<lambda>stdin_r s2.
         and_then (from_handle E w0 s2) (close_handles [stdin_r]) (\<lambda>stdin_w s3.
         and_then (create_pipe E 1 s3) (close_handles [stdin_r, stdin_w]) (\<lambda>(r1, w1) s4.
         and_then (from_handle E r1 s4) (close_handles [stdin_r, stdin_w]) (\<lambda>stdout_r s5.
           let si2 = si1\<lparr>si_std_output := Some w1\<rparr> in
         and_then (from_handle E w1 s5) (close_handles [stdin_r, stdin_w, stdout_r]) (\<lambda>stdout_w s6.
           let s7 = set_inherit (si_std_output si2) (set_inherit (si_std_input si2) s6) in
         and_then (command_line (we_multi_byte E) spawned_path arguments, s7)
             (close_handles [stdin_r, stdin_w, stdout_r, stdout_w]) (\<lambda>cmdl s8.
         start_process E spawned_path cmdl env si2 (stdin_r, stdin_w) (stdout_r, stdout_w) s8))))))))"

text \<open>
  The deleter of the wait handle: when the process has ended the handler of the user is given its
  exit code, a \<^verbatim>\<open>DWORD\<close> made an \<^verbatim>\<open>int\<close>, and the handle is closed.
\<close>

definition win_wait_and_report :: "(nat \<Rightarrow> u32) \<Rightarrow> win_spawned \<Rightarrow> win_os \<Rightarrow> int \<times> win_os" where
  "win_wait_and_report exit_code sp s =
     (sint (exit_code (ws_process sp)), close_handles [ws_process sp] s)"

section \<open>Environment blocks\<close>

text \<open>The strings of a block, up to the empty one that ends it.\<close>

function environment_strings :: "wchar list \<Rightarrow> wchar list list" where
  "environment_strings e =
     (if wcslen e = 0 then []
      else take (wcslen e) e # environment_strings (drop (wcslen e + 1) e))"
  by pat_completeness auto
termination
  by (relation "measure length") (simp_all add: wcslen_decreases)

declare environment_strings.simps [simp del]

definition block_of :: "wchar list list \<Rightarrow> wchar list" where
  "block_of vars = concat (map (\<lambda>v. v @ [0]) vars)"

definition env_string :: "wchar list \<Rightarrow> bool" where
  "env_string v \<longleftrightarrow> v \<noteq> [] \<and> 0 \<notin> set v"

lemma wcslen_append: "0 \<notin> set v \<Longrightarrow> wcslen (v @ 0 # rest) = length v"
proof -
  assume "0 \<notin> set v"
  then have "takeWhile (\<lambda>c. c \<noteq> 0) v = v" by (auto simp: takeWhile_eq_all_conv)
  then show ?thesis by (simp add: wcslen_def takeWhile_tail)
qed

lemma wcslen_zero [simp]: "wcslen (0 # rest) = 0"
  by (simp add: wcslen_def)

lemma copy_environment_string:
  "env_string v \<Longrightarrow> copy_environment (v @ 0 # rest) = v @ 0 # copy_environment rest"
  by (subst copy_environment.simps) (simp add: env_string_def wcslen_append)

lemma environment_strings_string:
  "env_string v \<Longrightarrow> environment_strings (v @ 0 # rest) = v # environment_strings rest"
  by (subst environment_strings.simps) (simp add: env_string_def wcslen_append)

lemma environment_ends: "copy_environment (0 # rest) = []" "environment_strings (0 # rest) = []"
  by (simp_all add: copy_environment.simps environment_strings.simps)

lemma copy_environment_block:
  "\<forall>v \<in> set vars. env_string v \<Longrightarrow> copy_environment (block_of vars @ 0 # rest) = block_of vars"
  by (induction vars) (simp_all add: block_of_def environment_ends copy_environment_string)

lemma environment_strings_block:
  "\<forall>v \<in> set vars. env_string v \<Longrightarrow> environment_strings (block_of vars @ rest) = vars @ environment_strings rest"
  by (induction vars) (simp_all add: block_of_def environment_strings_string)

lemma initialize_environment_block:
  "\<forall>v \<in> set vars. env_string v \<Longrightarrow>
   initialize_environment (block_of vars @ 0 # rest) extra = block_of (vars @ map (map widen) extra) @ [0]"
  by (simp add: initialize_environment_def copy_environment_block) (simp add: block_of_def comp_def)

lemma widen_0: "widen c = 0 \<longleftrightarrow> of_char c = (0 :: nat)"
proof -
  let ?b = "word_of_nat (of_char c) :: byte"
  have "sint (widen c) = signed_take_bit 15 (sint ?b)"
    unfolding widen_def by (simp only: sint_sbintrunc' len_num0 len_num1 len_bit0) simp
  also have "\<dots> = sint ?b"
    using sint_greater_eq [of ?b] sint_less [of ?b] by (intro signed_take_bit_int_eq_self) simp_all
  finally have "widen c = 0 \<longleftrightarrow> ?b = 0" by (metis sint_0 signed_word_eqI)
  moreover have "unat ?b = of_char c" by (simp only: unat_of_nat_byte mod_less nat_of_char_less_256)
  ultimately show ?thesis by (metis unsigned_0 unsigned_word_eqI)
qed

lemma env_string_widen:
  "env_string (map widen e) \<longleftrightarrow> e \<noteq> [] \<and> (\<forall>c \<in> set e. of_char c \<noteq> (0 :: nat))"
  by (auto simp: env_string_def widen_0 [symmetric] image_iff)

text \<open>An empty string among the extra ones ends the block early.\<close>

lemma environment_strings_extra:
  assumes "\<forall>v \<in> set vars. env_string v" and "\<forall>e \<in> set xs. env_string (map widen e)"
  shows "environment_strings (initialize_environment (block_of vars @ 0 # rest) xs) = vars @ map (map widen) xs"
    and "environment_strings (initialize_environment (block_of vars @ 0 # rest) (xs @ [] # ys)) =
      vars @ map (map widen) xs"
proof -
  have all: "\<forall>v \<in> set (vars @ map (map widen) xs). env_string v" using assms by auto
  show "environment_strings (initialize_environment (block_of vars @ 0 # rest) xs) = vars @ map (map widen) xs"
    by (simp add: initialize_environment_block [OF assms(1)] environment_strings_block [OF all]
        environment_ends)
  have split: "block_of (vars @ map (map widen) (xs @ [] # ys)) @ [0] =
      block_of (vars @ map (map widen) xs) @ 0 # block_of (map (map widen) ys) @ [0]"
    by (simp add: block_of_def)
  show "environment_strings (initialize_environment (block_of vars @ 0 # rest) (xs @ [] # ys)) =
      vars @ map (map widen) xs"
    unfolding initialize_environment_block [OF assms(1)] split environment_strings_block [OF all]
    by (simp add: environment_ends)
qed

section \<open>Command lines\<close>

fun convert_all :: "(string \<Rightarrow> wchar list option) \<Rightarrow> string list \<Rightarrow> exn + wchar list list" where
  "convert_all mb [] = Inr []"
| "convert_all mb (a # as) =
     bind_result (unicode mb a) (\<lambda>w. bind_result (convert_all mb as) (\<lambda>ws. Inr (w # ws)))"

definition quoted :: "wchar list \<Rightarrow> wchar list" where
  "quoted w = [quote] @ w @ [quote, 32]"

definition quoted_line :: "wchar list list \<Rightarrow> wchar list" where
  "quoted_line ws = concat (map quoted (butlast ws)) @ [quote] @ last ws @ [quote]"

lemma append_arguments_eq:
  "append_arguments mb cmdl as =
     bind_result (convert_all mb as) (\<lambda>ws. Inr (cmdl @ concat (map quoted ws)))"
proof (induction as arbitrary: cmdl)
  case (Cons a as)
  then show ?case
    by (cases "unicode mb a"; cases "convert_all mb as") (simp_all add: append_quoted_def quoted_def)
qed simp

lemma convert_all_nonempty: "convert_all mb (a # as) = Inr ws \<Longrightarrow> ws \<noteq> []"
  by (auto simp: result_simps)

lemma quoted_line_last:
  assumes "ws \<noteq> []"
  shows "(concat (map quoted ws))[length (concat (map quoted ws)) - 1 := 0] = quoted_line ws @ [0]"
proof -
  obtain us u where ws: "ws = us @ [u]" using assms rev_exhaust by blast
  have "concat (map quoted ws) = quoted_line ws @ [32]"
    by (simp add: ws quoted_line_def quoted_def)
  then show ?thesis by simp
qed

lemma command_line_eq:
  "command_line mb path args =
     bind_result (convert_all mb (path # args)) (\<lambda>ws. Inr (quoted_line ws @ [0]))"
proof (cases "convert_all mb (path # args)")
  case (Inl x)
  then show ?thesis by (simp add: command_line_def append_arguments_eq del: append_arguments.simps convert_all.simps)
next
  case (Inr ws)
  then show ?thesis
    using quoted_line_last [OF convert_all_nonempty [OF Inr]]
    by (simp add: command_line_def append_arguments_eq del: append_arguments.simps convert_all.simps)
qed

text \<open>
  Who reads the line is the C runtime of the program, which makes the arguments of \<^verbatim>\<open>main\<close> from it. What is
  documented of that, as far as the lines need it: the program name is what stands between the first
  quotes, whatever it is; then come arguments, with blanks between them; and in an argument between
  quotes backslashes stand for themselves unless a quote follows: before a quote two stand for one, and an odd
  one that is left over makes the quote a literal one, which does not end the argument.
\<close>

definition backslash :: wchar where
  "backslash = 92"

text \<open>What the text \<open>t\<close> between two quotes stands for after \<open>n\<close> backslashes; \<open>None\<close> if the second does not end it.\<close>

fun in_quotes :: "nat \<Rightarrow> wchar list \<Rightarrow> wchar list option" where
  "in_quotes n [] = (if even n then Some (replicate (n div 2) backslash) else None)"
| "in_quotes n (c # cs) =
     (if c = backslash then in_quotes (Suc n) cs
      else if c = quote
      then if even n then None else map_option (\<lambda>w. replicate (n div 2) backslash @ quote # w) (in_quotes 0 cs)
      else map_option (\<lambda>w. replicate n backslash @ c # w) (in_quotes 0 cs))"

definition reads_arguments :: "(wchar list \<Rightarrow> wchar list list) \<Rightarrow> (wchar list \<Rightarrow> wchar list list) \<Rightarrow> bool" where
  "reads_arguments argv args \<longleftrightarrow>
     (\<forall>p rest. quote \<notin> set p \<longrightarrow> argv (quote # p @ quote # rest) = p # args rest) \<and>
     args [] = [] \<and> (\<forall>rest. args (32 # rest) = args rest) \<and>
     (\<forall>t w rest. in_quotes 0 t = Some w \<longrightarrow> rest = [] \<or> hd rest = 32 \<longrightarrow>
        args (quote # t @ quote # rest) = w # args rest)"

lemma reads_argumentsD:
  assumes "reads_arguments argv args"
  shows "quote \<notin> set p \<Longrightarrow> argv (quote # p @ quote # rest) = p # args rest"
    and "args [] = []" and "args (32 # rest) = args rest"
    and "in_quotes 0 t = Some w \<Longrightarrow> rest = [] \<or> hd rest = 32 \<Longrightarrow> args (quote # t @ quote # rest) = w # args rest"
  using assms unfolding reads_arguments_def by blast+

text \<open>Such a line, for the texts that are put between the quotes.\<close>

lemma quoted_line_Cons:
  "quoted_line (w # ws) = quote # w @ quote # (if ws = [] then [] else 32 # quoted_line ws)"
  by (simp add: quoted_line_def quoted_def)

lemma args_quoted_line:
  assumes "reads_arguments argv args" and "list_all2 (\<lambda>t w. in_quotes 0 t = Some w) ts ws" and "ts \<noteq> []"
  shows "args (quoted_line ts) = ws"
  using assms(2,3)
proof (induction ts ws rule: list_all2_induct)
  case (Cons t ts w ws)
  note law = reads_argumentsD [OF assms(1)]
  show ?case
  proof (cases "ts = []")
    case True
    with Cons law(4) [OF Cons(1), of "[]"] show ?thesis by (simp add: quoted_line_Cons law(2))
  next
    case False
    with Cons law(4) [OF Cons(1), of "32 # quoted_line ts"] show ?thesis by (simp add: quoted_line_Cons law(3))
  qed
qed simp

lemma argv_quoted_line:
  assumes "reads_arguments argv args" and "quote \<notin> set p" and "list_all2 (\<lambda>t w. in_quotes 0 t = Some w) ts ws"
  shows "argv (quoted_line (p # ts)) = p # ws"
proof (cases "ts = []")
  case True
  with assms(3) reads_argumentsD(1,2) [OF assms(1)] show ?thesis by (simp add: quoted_line_Cons assms(2))
next
  case False
  with args_quoted_line [OF assms(1,3)] reads_argumentsD(1,3) [OF assms(1)] assms(2) show ?thesis
    by (simp add: quoted_line_Cons [of p])
qed

text \<open>Text without quotes stands for itself, but for the backslashes at its end.\<close>

lemma in_quotes_backslashes: "in_quotes n (replicate m backslash @ t) = in_quotes (n + m) t"
  by (induction m arbitrary: n) simp_all

lemma in_quotes_plain:
  assumes "quote \<notin> set u" and "u = [] \<or> last u \<noteq> backslash"
  shows "in_quotes n (u @ t) = (if u = [] then in_quotes n t
    else map_option (\<lambda>w. replicate n backslash @ u @ w) (in_quotes 0 t))"
  using assms
proof (induction u arbitrary: n)
  case (Cons c u)
  have eq: "replicate n backslash @ backslash # v = replicate (Suc n) backslash @ v" for v
    by (simp add: replicate_app_Cons_same)
  from Cons show ?case by (cases "c = backslash"; cases "u = []") (auto simp: option.map_comp comp_def eq)
qed simp

lemma in_quotes_trailing:
  assumes "quote \<notin> set u" and "u = [] \<or> last u \<noteq> backslash"
  shows "in_quotes 0 (u @ replicate (2 * m) backslash) = Some (u @ replicate m backslash)"
  using in_quotes_plain [OF assms, of 0 "replicate (2 * m) backslash"] in_quotes_backslashes [of 0 "2 * m" "[]"]
  by (cases "u = []") simp_all

lemma in_quotes_self: "quote \<notin> set u \<Longrightarrow> u = [] \<or> last u \<noteq> backslash \<Longrightarrow> in_quotes 0 u = Some u"
  using in_quotes_trailing [of u 0] by simp

text \<open>A reader that does all this, and more.\<close>

fun read_argument :: "bool \<Rightarrow> nat \<Rightarrow> wchar list \<Rightarrow> wchar list \<times> wchar list" where
  "read_argument q n [] = (replicate n backslash, [])"
| "read_argument q n (c # cs) =
     (if c = backslash then read_argument q (Suc n) cs
      else if c = quote
      then if even n then apfst ((@) (replicate (n div 2) backslash)) (read_argument (\<not> q) 0 cs)
        else apfst ((@) (replicate (n div 2) backslash @ [quote])) (read_argument q 0 cs)
      else if c = 32 \<and> \<not> q then (replicate n backslash, c # cs)
      else apfst ((@) (replicate n backslash @ [c])) (read_argument q 0 cs))"

lemma read_argument_rest: "length (snd (read_argument q n cs)) \<le> length cs"
  by (induction q n cs rule: read_argument.induct) auto

lemma read_argument_less:
  "cs \<noteq> [] \<Longrightarrow> hd cs \<noteq> 32 \<Longrightarrow> length (snd (read_argument False n cs)) < length cs"
  using read_argument_rest by (cases cs) (auto simp: less_Suc_eq_le)

function read_arguments :: "wchar list \<Rightarrow> wchar list list" where
  "read_arguments [] = []"
| "read_arguments (c # cs) =
     (if c = 32 then read_arguments cs
      else fst (read_argument False 0 (c # cs)) # read_arguments (snd (read_argument False 0 (c # cs))))"
  by pat_completeness auto
termination
  by (relation "measure length") (use read_argument_less [of "_ # _"] in auto)

definition read_command_line :: "wchar list \<Rightarrow> wchar list list" where
  "read_command_line line =
     takeWhile (\<lambda>c. c \<noteq> quote) (tl line) # read_arguments (tl (dropWhile (\<lambda>c. c \<noteq> quote) (tl line)))"

lemma read_argument_ends: "rest = [] \<or> hd rest = 32 \<Longrightarrow> read_argument False 0 rest = ([], rest)"
  by (cases rest) (auto simp: backslash_def quote_def)

lemma read_argument_quoted:
  "in_quotes n t = Some w \<Longrightarrow> rest = [] \<or> hd rest = 32 \<Longrightarrow> read_argument True n (t @ quote # rest) = (w, rest)"
  by (induction n t arbitrary: w rule: in_quotes.induct)
    (auto simp: read_argument_ends split: if_splits simp: backslash_def quote_def)

lemma reads_arguments_example: "reads_arguments read_command_line read_arguments"
proof -
  have "takeWhile (\<lambda>c. c \<noteq> quote) p = p" "dropWhile (\<lambda>c. c \<noteq> quote) p = []" if "quote \<notin> set p" for p
    using that by (auto simp: takeWhile_eq_all_conv dropWhile_eq_Nil_conv)
  then have "read_command_line (quote # p @ quote # rest) = p # read_arguments rest" if "quote \<notin> set p" for p rest
    using that by (simp add: read_command_line_def takeWhile_tail dropWhile_append3)
  moreover have "read_arguments (quote # t @ quote # rest) = w # read_arguments rest"
    if "in_quotes 0 t = Some w" "rest = [] \<or> hd rest = 32" for t w rest
    using read_argument_quoted [OF that] by (simp add: backslash_def quote_def)
  ultimately show ?thesis by (simp add: reads_arguments_def)
qed

text \<open>Where the line ends for the one who reads it.\<close>

lemma quoted_line_terminated:
  assumes "\<forall>w \<in> set ws. 0 \<notin> set w" and "ws \<noteq> []"
  shows "takeWhile (\<lambda>c. c \<noteq> 0) (quoted_line ws @ [0]) = quoted_line ws"
proof -
  have "0 \<notin> set (last ws)" "\<forall>w \<in> set (butlast ws). 0 \<notin> set w"
    using assms by (auto dest: in_set_butlastD)
  then have "0 \<notin> set (quoted_line ws)" by (auto simp: quoted_line_def quoted_def quote_def)
  then have "takeWhile (\<lambda>c. c \<noteq> 0) (quoted_line ws) = quoted_line ws"
    by (auto simp: takeWhile_eq_all_conv)
  then show ?thesis by (simp add: takeWhile_tail)
qed

text \<open>Two parts, or one that has quotes and a blank between them: the line is the same.\<close>

lemma concat_quoted_merge:
  "concat (map quoted (us @ [v, w] @ ws)) = concat (map quoted (us @ [v @ [quote, 32, quote] @ w] @ ws))"
  by (simp add: quoted_def)

lemma convert_all_append:
  "convert_all mb (as @ bs) =
     bind_result (convert_all mb as) (\<lambda>us. bind_result (convert_all mb bs) (\<lambda>ws. Inr (us @ ws)))"
proof (induction as)
  case Nil
  show ?case by (cases "convert_all mb bs") simp_all
next
  case (Cons a as)
  then show ?case
    by (cases "unicode mb a"; cases "convert_all mb as"; cases "convert_all mb bs") simp_all
qed

lemma unicode_Inr: "unicode mb s = Inr w \<longleftrightarrow> mb s = Some w \<and> w \<noteq> []"
  by (auto simp: unicode_def split: option.splits)

lemma command_line_merge:
  assumes "mb a = Some v" and "mb b = Some w" and "mb c = Some (v @ [quote, 32, quote] @ w)"
    and "v \<noteq> []" and "w \<noteq> []"
  shows "command_line mb path (as @ [a, b] @ bs) = command_line mb path (as @ [c] @ bs)"
proof -
  have u: "unicode mb a = Inr v" "unicode mb b = Inr w" "unicode mb c = Inr (v @ [quote, 32, quote] @ w)"
    using assms by (simp_all add: unicode_Inr)
  have ab: "append_arguments mb l ([a, b] @ bs) = append_arguments mb l ([c] @ bs)" for l
    by (simp add: u append_quoted_def)
  have app: "append_arguments mb l (as @ cs) = bind_result (append_arguments mb l as) (\<lambda>m. append_arguments mb m cs)"
    for l as cs
  proof (induction as arbitrary: l)
    case (Cons a as)
    then show ?case by (cases "unicode mb a") simp_all
  qed simp
  have "append_arguments mb [] ((path # as) @ [a, b] @ bs) = append_arguments mb [] ((path # as) @ [c] @ bs)"
    by (simp only: app [where as = "path # as"] ab)
  then show ?thesis unfolding command_line_def by simp
qed

lemma command_line_empty_argument:
  assumes "mb [] = None" and "[] \<in> set (path # args)"
  shows "\<exists>x. command_line mb path args = Inl x"
proof -
  have "\<exists>x. convert_all mb as = Inl x" if "[] \<in> set as" for as
    using that
  proof (induction as)
    case (Cons a as)
    then show ?case
      by (cases "unicode mb a"; cases "convert_all mb as") (auto simp: unicode_def assms(1))
  qed simp
  from this [OF assms(2)] show ?thesis
    unfolding command_line_eq by (metis bind_result_Inl)
qed

lemma command_line_Inl: "command_line mb path args = Inl x \<Longrightarrow> x = Std_runtime_error ''MultiByteToWideChar failed''"
proof -
  have u: "unicode mb s = Inl y \<Longrightarrow> y = Std_runtime_error ''MultiByteToWideChar failed''" for s y
    by (auto simp: unicode_def split: option.splits if_splits)
  have c: "convert_all mb as = Inl y \<Longrightarrow> y = Std_runtime_error ''MultiByteToWideChar failed''" for as y
    by (induction as) (auto simp: result_simps dest: u)
  show "command_line mb path args = Inl x \<Longrightarrow> x = Std_runtime_error ''MultiByteToWideChar failed''"
    unfolding command_line_eq by (auto simp: bind_result_eq_Inl dest: c simp del: convert_all.simps)
qed

section \<open>What a spawn leaves open\<close>

lemma and_then_Inr:
  "and_then r unwind f = (Inr b, s') \<longleftrightarrow> (\<exists>a s1. r = (Inr a, s1) \<and> f a s1 = (Inr b, s'))"
  by (cases r; cases "fst r") (auto simp: and_then_def)

lemma and_then_Inl:
  "and_then r unwind f = (Inl x, s') \<longleftrightarrow>
     (\<exists>s1. r = (Inl x, s1) \<and> s' = unwind s1) \<or> (\<exists>a s1. r = (Inr a, s1) \<and> f a s1 = (Inl x, s'))"
  by (cases r; cases "fst r") (auto simp: and_then_def)

lemma create_pipe_Inr:
  "create_pipe E n s = (Inr p, s1) \<longleftrightarrow> we_create_pipe E n \<and> p = (wo_next s, wo_next s + 1) \<and>
     s1 = s\<lparr>wo_open := wo_open s @ [wo_next s, wo_next s + 1], wo_next := wo_next s + 2,
       wo_pipes := wo_pipes s @ [(wo_next s, wo_next s + 1)]\<rparr>"
  by (auto simp: create_pipe_def)

lemma create_pipe_Inl:
  "create_pipe E n s = (Inl x, s1) \<longleftrightarrow> \<not> we_create_pipe E n \<and> x = Std_bad_alloc \<and> s1 = s"
  by (auto simp: create_pipe_def)

lemma from_handle_Inr:
  "from_handle E h s = (Inr g, s1) \<longleftrightarrow> we_open_osfhandle E h \<and> we_fdopen E h \<and> g = h \<and> s1 = s"
  by (auto simp: from_handle_def)

lemma from_handle_Inl:
  "from_handle E h s = (Inl x, s1) \<Longrightarrow>
     x \<in> {Std_runtime_error ''crt error'', Std_runtime_error ''crt stream error''} \<and>
     \<not> (we_open_osfhandle E h \<and> we_fdopen E h) \<and> (s1 = s \<or> s1 = close_handles [h] s)"
  by (auto simp: from_handle_def split: if_splits)

definition wo_ok :: "win_os \<Rightarrow> bool" where
  [inv_defs]: "wo_ok s \<longleftrightarrow> (\<forall>h \<in> set (wo_open s). h < wo_next s) \<and> set (wo_inherit s) \<subseteq> set (wo_open s)"

lemma close_handles_open [simp]:
  "set (wo_open (close_handles hs s)) = set (wo_open s) - set hs"
  "set (wo_inherit (close_handles hs s)) = set (wo_inherit s) - set hs"
  "wo_next (close_handles hs s) = wo_next s"
  "wo_pipes (close_handles hs s) = wo_pipes s"
  "wo_children (close_handles hs s) = wo_children s"
  by (auto simp: close_handles_def)

lemma set_inherit_open [simp]:
  "wo_open (set_inherit h s) = wo_open s" "wo_next (set_inherit h s) = wo_next s"
  "wo_pipes (set_inherit h s) = wo_pipes s" "wo_children (set_inherit h s) = wo_children s"
  "set (wo_inherit (set_inherit (Some i) s)) = set (wo_inherit s) \<union> ({i} \<inter> set (wo_open s))"
  by (auto simp: set_inherit_def split: option.split)

lemma win_spawn_Inr:
  assumes "wo_ok s" and "win_spawn E path args extra s = (Inr r, s')"
  defines "n \<equiv> wo_next s"
  shows "r = \<lparr>ws_to = n + 1, ws_from = n + 2, ws_process = n + 4\<rparr>"
    and "set (wo_open s') = set (wo_open s) \<union> {n + 1, n + 2, n + 4}"
    and "set (wo_inherit s') = set (wo_inherit s)"
    and "wo_pipes s' = wo_pipes s @ [(n, n + 1), (n + 2, n + 3)]"
    and "\<exists>c. wo_children s' = wo_children s @ [c] \<and> wc_process c = n + 4 \<and> wc_std_input c = Some n \<and>
      wc_std_output c = Some (n + 3) \<and> set (wc_handles c) = set (wo_inherit s) \<union> {n, n + 3}"
    and "\<exists>cmdl. command_line (we_multi_byte E) path args = Inr cmdl \<and>
      we_create_process E cmdl (initialize_environment (we_environment E) extra)"
proof -
  define s6 where "s6 = s\<lparr>wo_open := wo_open s @ [n, n + 1, n + 2, n + 3], wo_next := n + 4,
    wo_pipes := wo_pipes s @ [(n, n + 1), (n + 2, n + 3)]\<rparr>"
  define s7 where "s7 = set_inherit (Some (n + 3)) (set_inherit (Some n) s6)"
  obtain cmdl where cmdl: "command_line (we_multi_byte E) path args = Inr cmdl"
    and start: "start_process E path cmdl (initialize_environment (we_environment E) extra)
      \<lparr>si_std_input = Some n, si_std_output = Some (n + 3)\<rparr> (n, n + 1) (n + 2, n + 3) s7 = (Inr r, s')"
    using assms(2)
    by (auto simp: win_spawn_def and_then_Inr create_pipe_Inr from_handle_Inr Let_def n_def s6_def s7_def
        numeral_3_eq_3 numeral_2_eq_2 add.commute numeral_eq_Suc)
  have old: "h < n" if "h \<in> set (wo_open s)" for h using assms(1) that by (simp add: wo_ok_def n_def)
  have old': "h < n" if "h \<in> set (wo_inherit s)" for h using assms(1) that by (auto simp: wo_ok_def n_def)
  have inherit: "set (wo_inherit s7) = set (wo_inherit s) \<union> {n, n + 3}" by (auto simp: s7_def s6_def)
  have s7: "wo_open s7 = wo_open s @ [n, n + 1, n + 2, n + 3]" "wo_next s7 = n + 4"
    "wo_pipes s7 = wo_pipes s @ [(n, n + 1), (n + 2, n + 3)]" "wo_children s7 = wo_children s"
    by (simp_all add: s7_def s6_def)
  show "r = \<lparr>ws_to = n + 1, ws_from = n + 2, ws_process = n + 4\<rparr>"
    and "wo_pipes s' = wo_pipes s @ [(n, n + 1), (n + 2, n + 3)]"
    using start s7 by (auto simp: start_process_def split: if_splits)
  show "\<exists>c. wo_children s' = wo_children s @ [c] \<and> wc_process c = n + 4 \<and> wc_std_input c = Some n \<and>
      wc_std_output c = Some (n + 3) \<and> set (wc_handles c) = set (wo_inherit s) \<union> {n, n + 3}"
    using start s7 inherit by (auto simp: start_process_def split: if_splits)
  show "set (wo_open s') = set (wo_open s) \<union> {n + 1, n + 2, n + 4}"
    using start s7 by (auto simp: start_process_def split: if_splits dest: old)
  show "set (wo_inherit s') = set (wo_inherit s)"
    using start s7 inherit by (auto simp: start_process_def split: if_splits dest: old')
  show "\<exists>cmdl. command_line (we_multi_byte E) path args = Inr cmdl \<and>
      we_create_process E cmdl (initialize_environment (we_environment E) extra)"
    using start cmdl by (auto simp: start_process_def split: if_splits)
qed

text \<open>
  A failure that is not one of \<^verbatim>\<open>from_handle\<close> leaves nothing open. If it is, the pipe's other end,
  which no stream owns yet, stays open.
\<close>

lemma win_spawn_Inl:
  assumes "wo_ok s" and "win_spawn E path args extra s = (Inl x, s')"
    and "x \<notin> {Std_runtime_error ''crt error'', Std_runtime_error ''crt stream error''}"
  shows "set (wo_open s') = set (wo_open s)"
proof -
  have old: "h < wo_next s" if "h \<in> set (wo_open s)" for h using assms(1) that by (simp add: wo_ok_def)
  have fresh: "wo_next s \<notin> set (wo_open s)" "Suc (wo_next s) \<notin> set (wo_open s)"
    "Suc (Suc (wo_next s)) \<notin> set (wo_open s)" "Suc (Suc (Suc (wo_next s))) \<notin> set (wo_open s)"
    using old by fastforce+
  have no: "from_handle E h t \<noteq> (Inl x, t')" for h t t' using assms(3) from_handle_Inl by blast
  show ?thesis
    using assms(2)
    by (auto simp: win_spawn_def and_then_Inl no create_pipe_Inr create_pipe_Inl from_handle_Inr Let_def
        start_process_def fresh split: if_splits)
qed

lemma win_spawn_leaks:
  assumes "wo_ok s" and "we_create_pipe E 0" and "\<not> (we_open_osfhandle E (wo_next s) \<and> we_fdopen E (wo_next s))"
  shows "\<exists>x s'. win_spawn E path args extra s = (Inl x, s') \<and>
    wo_next s + 1 \<in> set (wo_open s') \<and> wo_next s + 1 \<notin> set (wo_open s)"
proof -
  have "wo_next s + 1 \<notin> set (wo_open s)" using assms(1) by (auto simp: wo_ok_def)
  with assms(2,3) show ?thesis
    by (auto simp: win_spawn_def and_then_def create_pipe_def from_handle_def Let_def close_handles_def)
qed

end
