(* ===== verification/Signal_Pipe.thy ===== *)
theory Signal_Pipe
  imports Cancellable_Unix Spawn_Unix Socket_Server
begin

text \<open>
  The pipe of the Unix \<^verbatim>\<open>cancellable_read\<close> (\<^verbatim>\<open>src/cancellable_read.unix.cpp\<close>): its descriptors, from
  the constructor to the destructor, and the set of descriptors that \<^verbatim>\<open>read\<close> gives to \<^verbatim>\<open>select\<close>. The
  descriptors are those of the process as in \<open>Spawn_Unix\<close>.
\<close>

definition unix_ctor :: "bool \<Rightarrow> os \<Rightarrow> (exn + nat \<times> nat) \<times> os" where
  "unix_ctor pipe s =
     (if \<not> pipe then (Inl (Std_runtime_error ''pipe() failed''), s)
      else (case fd_alloc (Pipe_read (os_pipes s), False) (os_parent s) of (r, t1) \<Rightarrow>
        (case fd_alloc (Pipe_write (os_pipes s), False) t1 of (w, t2) \<Rightarrow>
           (Inr (r, w), s\<lparr>os_parent := t2, os_pipes := Suc (os_pipes s)\<rparr>))))"

definition unix_dtor :: "nat \<times> nat \<Rightarrow> os \<Rightarrow> os" where
  "unix_dtor signal_pipe s = close_in_parent [fst signal_pipe, snd signal_pipe] s"

text \<open>
  The argument of \<^verbatim>\<open>select\<close>: \<^verbatim>\<open>nfds\<close> and the set, or a set that has been written beyond its end.
  Neither \<^verbatim>\<open>select\<close> nor the tests afterwards look at other descriptors.
\<close>

definition read_fds :: "nat \<Rightarrow> nat \<times> nat \<Rightarrow> fault + nat \<times> nat set" where
  "read_fds data_fd signal_pipe =
     (if fits_fd_set [int data_fd, int (fst signal_pipe)]
      then Inr ((if data_fd > fst signal_pipe then data_fd else fst signal_pipe) + 1,
                {data_fd, fst signal_pipe})
      else Inl Undefined_behaviour)"

section \<open>From the constructor to the destructor\<close>

lemma unix_ctor_cases:
  "fst (unix_ctor pipe s) = Inl x \<Longrightarrow>
   \<not> pipe \<and> x = Std_runtime_error ''pipe() failed'' \<and> snd (unix_ctor pipe s) = s"
  by (auto simp: unix_ctor_def split: if_splits prod.splits)

text \<open>
  The two ends are new descriptors of a new pipe, and the destructor leaves the table as it was,
  whatever the process has opened, closed or spawned at other descriptors in between.
\<close>

lemma unix_ctor_fds:
  assumes "unix_ctor pipe s = (Inr (r, w), s1)"
  shows "fd_at (os_parent s1) = (fd_at (os_parent s))
      (r := Some (Pipe_read (os_pipes s), False), w := Some (Pipe_write (os_pipes s), False)) \<and>
    fd_at (os_parent s) r = None \<and> fd_at (os_parent s) w = None \<and> r < w"
proof -
  from assms obtain t1 t2 where "fd_alloc (Pipe_read (os_pipes s), False) (os_parent s) = (r, t1)"
    "fd_alloc (Pipe_write (os_pipes s), False) t1 = (w, t2)" "os_parent s1 = t2"
    by (auto simp: unix_ctor_def split: if_splits prod.splits)
  with fds.alloc_two [OF this(1,2)] show ?thesis by simp
qed

lemma unix_dtor_fds:
  assumes "unix_ctor pipe s = (Inr (r, w), s1)"
    and "\<And>i. i \<noteq> r \<Longrightarrow> i \<noteq> w \<Longrightarrow> fd_at (os_parent s2) i = f i"
  shows "fd_at (os_parent (unix_dtor (r, w) s2)) i = (if i = r \<or> i = w then None else f i)"
  using assms(2) [of i] by (simp add: unix_dtor_def close_in_parent_def fds.remove_at)

lemma unix_ctor_dtor:
  assumes "unix_ctor pipe s = (Inr signal_pipe, s1)"
  shows "fd_at (os_parent (unix_dtor signal_pipe s1)) = fd_at (os_parent s)"
proof
  fix i
  obtain r w where rw: "signal_pipe = (r, w)" by (cases signal_pipe)
  note made = unix_ctor_fds [OF assms [unfolded rw]]
  have "fd_at (os_parent (unix_dtor (r, w) s1)) i = (if i = r \<or> i = w then None else fd_at (os_parent s) i)"
    by (rule unix_dtor_fds [OF assms [unfolded rw]]) (use made in simp)
  with made show "fd_at (os_parent (unix_dtor signal_pipe s1)) i = fd_at (os_parent s) i" by (auto simp: rw)
qed

section \<open>What is selected\<close>

text \<open>The data and the signal are two descriptors, and both are looked at.\<close>

lemma read_fds_looked_at:
  assumes "unix_ctor pipe s = (Inr signal_pipe, s1)" and "fd_at (os_parent s) data_fd \<noteq> None"
    and "read_fds data_fd signal_pipe = Inr (nfds, fds)"
  shows "card fds = 2 \<and> (\<forall>i \<in> fds. i < nfds) \<and> data_fd \<in> fds \<and> fst signal_pipe \<in> fds"
proof -
  obtain r w where rw: "signal_pipe = (r, w)" by (cases signal_pipe)
  have "r \<noteq> data_fd" using unix_ctor_fds [OF assms(1) [unfolded rw]] assms(2) by auto
  with assms(3) show ?thesis by (auto simp: read_fds_def rw split: if_splits)
qed

text \<open>
  A process with 1024 descriptors in use, as a server of as many connections has, cannot read: the
  signal pipe is beyond the set.
\<close>

lemma read_fds_overrun:
  assumes "unix_ctor pipe s = (Inr signal_pipe, s1)" and "\<And>i. i < 1024 \<Longrightarrow> fd_at (os_parent s) i \<noteq> None"
  shows "read_fds data_fd signal_pipe = Inl Undefined_behaviour"
proof -
  obtain r w where rw: "signal_pipe = (r, w)" by (cases signal_pipe)
  have "\<not> r < 1024" using unix_ctor_fds [OF assms(1) [unfolded rw]] assms(2) [of r] by auto
  then show ?thesis by (simp add: read_fds_def rw fits_fd_set_def fd_setsize_def)
qed

end
