(* ===== verification/Com_Transport.thy ===== *)
theory Com_Transport
  imports Framing Ids
begin

text \<open>
  The COM transport. On the server (\<^verbatim>\<open>src/server_endpoint_com.cpp\<close>, \<^verbatim>\<open>coipc/com/endpoint.h\<close>) a
  \<^verbatim>\<open>session\<close> object takes messages in \<^verbatim>\<open>Write\<close> and sends to the sink that has been advised; on the
  client (\<^verbatim>\<open>src/client_endpoint_com.cpp\<close>) an \<^verbatim>\<open>inbound_stream\<close> is that sink. Both live as long as
  they are referred to, and their ends are the disconnections. COM itself carries the calls: here
  they are calls. \<open>'i\<close> and \<open>'c\<close> are the states of the channels of the user on the server and on
  the client.
\<close>

datatype hresult =
    S_OK | E_POINTER | E_INVALIDARG | E_NOTIMPL | E_UNEXPECTED | E_NOINTERFACE | E_OUTOFMEMORY
  | CONNECT_E_ADVISELIMIT | CONNECT_E_NOCONNECTION

datatype iid = IID_IUnknown | IID_ISequentialStream | IID_IConnectionPoint | IID_other

section \<open>The sink of the client\<close>

record 'c inbound_stream =
  is_references :: u32
  is_underlying :: 'c
  is_deleted :: bool

definition inbound_stream_ctor :: "'c \<Rightarrow> 'c inbound_stream" where
  "inbound_stream_ctor underlying =
     \<lparr>is_references = 0, is_underlying = underlying, is_deleted = False\<rparr>"

definition stream_dtor :: "'c channel \<Rightarrow> 'c inbound_stream \<Rightarrow> 'c inbound_stream" where
  "stream_dtor ch s = s\<lparr>is_underlying := ch_disconnect ch (is_underlying s), is_deleted := True\<rparr>"

definition stream_add_ref :: "'c inbound_stream \<Rightarrow> 'c inbound_stream" where
  "stream_add_ref s = s\<lparr>is_references := is_references s + 1\<rparr>"

definition stream_release :: "'c channel \<Rightarrow> 'c inbound_stream \<Rightarrow> 'c inbound_stream" where
  "stream_release ch s =
     (let s1 = s\<lparr>is_references := is_references s - 1\<rparr>
      in if is_references s1 = 0 then stream_dtor ch s1 else s1)"

definition stream_query_interface :: "iid \<Rightarrow> 'c inbound_stream \<Rightarrow> hresult \<times> 'c inbound_stream" where
  "stream_query_interface riid s =
     (if riid \<noteq> IID_IUnknown \<and> riid \<noteq> IID_ISequentialStream then (E_NOINTERFACE, s)
      else (S_OK, stream_add_ref s))"

definition stream_read :: hresult where
  "stream_read = E_NOTIMPL"

definition stream_write :: "'c channel \<Rightarrow> 'c inbound_stream \<Rightarrow> bytes \<Rightarrow> exn + hresult \<times> 'c inbound_stream"
  where
  "stream_write ch s buffer =
     bind_result (ch_message ch (is_underlying s) buffer)
       (\<lambda>c. Inr (S_OK, s\<lparr>is_underlying := c\<rparr>))"

section \<open>The session of the server\<close>

text \<open>
  The session and, at the other end of its connection point, the sink. \<open>lk_external\<close> of the references to the
  session are held by COM for clients. The object is destroyed when the last reference goes, with its
  smart pointer to the sink; \<open>lk_inbound\<close> then still shows what the user's channel has been told.
\<close>

record ('i, 'c) com_link =
  lk_references :: nat
  lk_external :: nat
  lk_inbound :: "'i option"
  lk_outbound :: bool
  lk_sink :: "'c inbound_stream"

text \<open>A method called on a session, or by a session on its sink, which must not have been destroyed.\<close>

definition on_session :: "('i, 'c) com_link \<Rightarrow> fault + 'r \<Rightarrow> fault + 'r" where
  "on_session l r = (if lk_references l = 0 then Inl Undefined_behaviour else r)"

definition on_sink :: "('i, 'c) com_link \<Rightarrow> fault + 'r \<Rightarrow> fault + 'r" where
  "on_sink l r = (if is_deleted (lk_sink l) then Inl Undefined_behaviour else r)"

definition session_read :: hresult where
  "session_read = E_UNEXPECTED"

definition session_write :: "'i channel \<Rightarrow> ('i, 'c) com_link \<Rightarrow> bytes \<Rightarrow> fault + hresult \<times> ('i, 'c) com_link"
  where
  "session_write ch l message =
     on_session l (case lk_inbound l of
        None \<Rightarrow> Inl Undefined_behaviour
      | Some i \<Rightarrow>
          bind_result (lift_exn (ch_message ch i message)) (\<lambda>i'. Inr (S_OK, l\<lparr>lk_inbound := Some i'\<rparr>)))"

text \<open>Pointers that may be null are options: where the interface id and the cookie are to go.\<close>

definition session_get_connection_interface :: "iid option \<Rightarrow> hresult \<times> iid option" where
  "session_get_connection_interface p =
     (case p of None \<Rightarrow> (E_POINTER, None) | Some _ \<Rightarrow> (S_OK, Some IID_ISequentialStream))"

definition session_get_container :: hresult where
  "session_get_container = E_NOTIMPL"

definition session_enum_connections :: hresult where
  "session_enum_connections = E_NOTIMPL"

definition session_advise ::
  "bool \<Rightarrow> u32 option \<Rightarrow> ('i, 'c) com_link \<Rightarrow> fault + hresult \<times> u32 option \<times> ('i, 'c) com_link" where
  "session_advise sink cookie l =
     on_session l
       (if cookie = None then Inr (E_POINTER, cookie, l)
        else if \<not> sink then Inr (E_INVALIDARG, cookie, l)
        else if lk_outbound l then Inr (CONNECT_E_ADVISELIMIT, cookie, l)
        else on_sink l (case stream_query_interface IID_ISequentialStream (lk_sink l) of (hr, s) \<Rightarrow>
          if hr = S_OK then Inr (hr, Some 1, l\<lparr>lk_outbound := True, lk_sink := s\<rparr>)
          else Inr (hr, cookie, l\<lparr>lk_sink := s\<rparr>)))"

text \<open>\<^verbatim>\<open>_outbound = 0\<close>, also what the destructor of the pointer does.\<close>

definition drop_outbound :: "'c channel \<Rightarrow> ('i, 'c) com_link \<Rightarrow> fault + ('i, 'c) com_link" where
  "drop_outbound ch l =
     (if lk_outbound l
      then on_sink l (Inr (l\<lparr>lk_outbound := False, lk_sink := stream_release ch (lk_sink l)\<rparr>))
      else Inr l)"

definition session_unadvise :: "'c channel \<Rightarrow> u32 \<Rightarrow> ('i, 'c) com_link \<Rightarrow> fault + hresult \<times> ('i, 'c) com_link" where
  "session_unadvise ch cookie l =
     on_session l
       (if cookie = 1 \<and> lk_outbound l then bind_result (drop_outbound ch l) (\<lambda>l'. Inr (S_OK, l'))
        else Inr (CONNECT_E_NOCONNECTION, l))"

definition session_message :: "'c channel \<Rightarrow> ('i, 'c) com_link \<Rightarrow> bytes \<Rightarrow> fault + ('i, 'c) com_link" where
  "session_message ch l payload =
     on_session l
       (if \<not> lk_outbound l then Inl (Thrown (Std_runtime_error ''Sink channel has not been created yet!''))
        else on_sink l (bind_result (lift_exn (stream_write ch (lk_sink l) (take (cast_uint (length payload)) payload)))
          (\<lambda>(_, s). Inr (l\<lparr>lk_sink := s\<rparr>))))"

text \<open>
  The last reference goes: \<^verbatim>\<open>FinalRelease\<close>, then the members of the session. \<^verbatim>\<open>inbound\<close> is a null
  pointer until \<^verbatim>\<open>CreateInstance\<close> has set it.
\<close>

definition session_final_release :: "'i channel \<Rightarrow> ('i, 'c) com_link \<Rightarrow> fault + ('i, 'c) com_link" where
  "session_final_release ch l =
     (case lk_inbound l of
        None \<Rightarrow> Inl Undefined_behaviour
      | Some i \<Rightarrow> Inr (l\<lparr>lk_inbound := Some (ch_disconnect ch i)\<rparr>))"

definition session_release ::
    "'i channel \<Rightarrow> 'c channel \<Rightarrow> ('i, 'c) com_link \<Rightarrow> fault + ('i, 'c) com_link" where
  "session_release ich cch l =
     on_session l
       (let l1 = l\<lparr>lk_references := lk_references l - 1\<rparr>
        in if lk_references l1 = 0
           then bind_result (session_final_release ich l1) (drop_outbound cch)
           else Inr l1)"

text \<open>\<^verbatim>\<open>CoDisconnectObject\<close> releases every reference that COM holds for clients.\<close>

fun release_external ::
    "'i channel \<Rightarrow> 'c channel \<Rightarrow> nat \<Rightarrow> ('i, 'c) com_link \<Rightarrow> fault + ('i, 'c) com_link" where
  "release_external ich cch 0 l = Inr l"
| "release_external ich cch (Suc n) l =
     bind_result (session_release ich cch (l\<lparr>lk_external := n\<rparr>)) (release_external ich cch n)"

definition session_disconnect ::
    "'i channel \<Rightarrow> 'c channel \<Rightarrow> ('i, 'c) com_link \<Rightarrow> fault + ('i, 'c) com_link" where
  "session_disconnect ich cch l = on_session l (release_external ich cch (lk_external l) l)"

text \<open>
  \<^verbatim>\<open>server::CreateInstance\<close>; \<open>created\<close> is what \<^verbatim>\<open>create_session\<close> comes to. \<^verbatim>\<open>QueryInterface\<close> takes the client's
  reference, then the smart pointer gives up its own, which it also does before an exception is
  caught. The sink of the link is not there yet: it is an argument.
\<close>

definition session_supports :: "iid \<Rightarrow> bool" where
  "session_supports riid \<longleftrightarrow> riid \<in> {IID_IUnknown, IID_ISequentialStream, IID_IConnectionPoint}"

definition com_create_instance ::
  "'i channel \<Rightarrow> 'c channel \<Rightarrow> exn + 'i \<Rightarrow> iid \<Rightarrow> 'c inbound_stream \<Rightarrow>
   fault + hresult \<times> ('i, 'c) com_link" where
  "com_create_instance ich cch created riid sink =
     (let p = \<lparr>lk_references = 1, lk_external = 0, lk_inbound = None, lk_outbound = False, lk_sink = sink\<rparr>
      in case created of
           Inl x \<Rightarrow>
             bind_result (session_release ich cch p)
               (\<lambda>l. if catches C_bad_alloc x then Inr (E_OUTOFMEMORY, l) else Inl (Thrown x))
         | Inr i \<Rightarrow>
             (let l = p\<lparr>lk_inbound := Some i\<rparr>
              in if session_supports riid
                 then bind_result (session_release ich cch (l\<lparr>lk_references := 2, lk_external := 1\<rparr>))
                   (\<lambda>l'. Inr (S_OK, l'))
                 else bind_result (session_release ich cch l) (\<lambda>l'. Inr (E_NOINTERFACE, l'))))"

section \<open>The client\<close>

text \<open>
  The constructor: the sink, an instance of the server's class (\<open>activate\<close> is \<^verbatim>\<open>CoCreateInstance\<close>,
  which may fail), and the advice. The smart pointer to the sink is released in either case; when
  it throws, what is left is the sink.
\<close>

definition com_connect ::
  "endian \<Rightarrow> guid \<Rightarrow> 'c channel \<Rightarrow> (guid \<Rightarrow> hresult \<times> 'i) \<Rightarrow> string \<Rightarrow> 'c \<Rightarrow>
   fault \<times> 'c inbound_stream + ('i, 'c) com_link" where
  "com_connect e uninitialised ch activate destination_endpoint_id inbound =
     (let sink = stream_add_ref (inbound_stream_ctor inbound)
      in case activate (guid_from_string e uninitialised destination_endpoint_id) of (hr, i) \<Rightarrow>
        if hr \<noteq> S_OK
        then Inl (Thrown (Connection_refused (c_str destination_endpoint_id)), stream_release ch sink)
        else (case session_advise True (Some 0)
                 \<lparr>lk_references = 1, lk_external = 1, lk_inbound = Some i, lk_outbound = False, lk_sink = sink\<rparr> of
                Inl f \<Rightarrow> Inl (f, stream_release ch sink)
              | Inr (_, _, l) \<Rightarrow> Inr (l\<lparr>lk_sink := stream_release ch (lk_sink l)\<rparr>)))"

text \<open>
  What the client does goes through a proxy. Once the server has disconnected the object a call
  fails, with a result that the client does not look at, and there is nothing more to release.
\<close>

definition com_client_message ::
    "'i channel \<Rightarrow> ('i, 'c) com_link \<Rightarrow> bytes \<Rightarrow> fault + ('i, 'c) com_link" where
  "com_client_message ch l payload =
     (if lk_external l = 0 then Inr l
      else bind_result (session_write ch l (take (cast_uint (length payload)) payload)) (\<lambda>(_, l'). Inr l'))"

definition com_client_release ::
    "'i channel \<Rightarrow> 'c channel \<Rightarrow> ('i, 'c) com_link \<Rightarrow> fault + ('i, 'c) com_link" where
  "com_client_release ich cch l =
     (if lk_external l = 0 then Inr l
      else session_release ich cch (l\<lparr>lk_external := lk_external l - 1\<rparr>))"

section \<open>What happens to a link\<close>

text \<open>
  Clients send, take and release references, and call \<^verbatim>\<open>Unadvise\<close>; COM holds a reference of its own
  while it carries out a call; the user's session on the server sends and disconnects through the
  outbound channel, a reference to the session object that nothing counts.
\<close>

datatype link_event =
    Client_sends bytes
  | Client_refers
  | Client_releases
  | Client_unadvises u32
  | Call_begins
  | Call_ends
  | Server_sends bytes
  | Server_disconnects

fun link_turn ::
    "'i channel \<Rightarrow> 'c channel \<Rightarrow> link_event \<Rightarrow> ('i, 'c) com_link \<Rightarrow> fault + ('i, 'c) com_link" where
  "link_turn ich cch (Client_sends m) l = com_client_message ich l m"
| "link_turn ich cch Client_refers l =
     Inr (if lk_external l = 0 then l
       else l\<lparr>lk_references := lk_references l + 1, lk_external := lk_external l + 1\<rparr>)"
| "link_turn ich cch Client_releases l = com_client_release ich cch l"
| "link_turn ich cch (Client_unadvises k) l =
     (if lk_external l = 0 then Inr l else bind_result (session_unadvise cch k l) (\<lambda>(_, l'). Inr l'))"
| "link_turn ich cch Call_begins l =
     Inr (if lk_external l = 0 then l else l\<lparr>lk_references := lk_references l + 1\<rparr>)"
| "link_turn ich cch Call_ends l =
     (if lk_external l < lk_references l then session_release ich cch l else Inr l)"
| "link_turn ich cch (Server_sends m) l = session_message cch l m"
| "link_turn ich cch Server_disconnects l = session_disconnect ich cch l"

fun server_uses :: "link_event \<Rightarrow> bool" where
  "server_uses (Server_sends m) = True"
| "server_uses Server_disconnects = True"
| "server_uses _ = False"

inductive link_step ::
    "'i channel \<Rightarrow> 'c channel \<Rightarrow> ('i, 'c) com_link \<Rightarrow> ('i, 'c) com_link \<Rightarrow> bool" for ich cch where
  turn: "link_turn ich cch ev l = Inr l' \<Longrightarrow> link_step ich cch l l'"

section \<open>The life of a link\<close>

text \<open>
  What the two channels have been told, when both only record: messages, and the disconnection
  once it is over, on the server when the session is not referred to any more, on the client
  when the session has let go of the sink.
\<close>

definition told :: "bool \<Rightarrow> channel_event list \<Rightarrow> bool" where
  "told over log \<longleftrightarrow> (\<exists>ms. log = map Message ms @ (if over then [Disconnect] else []))"

definition link_ok :: "(channel_event list, channel_event list) com_link \<Rightarrow> bool" where
  [inv_defs]: "link_ok l \<longleftrightarrow>
     lk_external l \<le> lk_references l \<and>
     (\<exists>log. lk_inbound l = Some log \<and> told (lk_references l = 0) log) \<and>
     told (\<not> lk_outbound l) (is_underlying (lk_sink l)) \<and>
     is_deleted (lk_sink l) = (\<not> lk_outbound l) \<and>
     (lk_outbound l \<longrightarrow> is_references (lk_sink l) = 1 \<and> 0 < lk_references l)"

lemma told_message [simp]: "told False log \<Longrightarrow> told False (log @ [Message m])"
proof -
  assume "told False log"
  then obtain ms where "log = map Message ms" by (auto simp: told_def)
  then have "log @ [Message m] = map Message (ms @ [m])" by simp
  then show ?thesis unfolding told_def by (metis append_Nil2)
qed

lemma told_disconnect [simp]: "told False log \<Longrightarrow> told True (log @ [Disconnect])"
  by (auto simp: told_def)

lemma told_over: "told over log \<Longrightarrow> Disconnect \<in> set log \<longleftrightarrow> over"
  by (auto simp: told_def)

lemma on_session_alive [simp]: "0 < lk_references l \<Longrightarrow> on_session l r = r"
  by (simp add: on_session_def)

lemma on_session_gone [simp]: "lk_references l = 0 \<Longrightarrow> on_session l r = Inl Undefined_behaviour"
  by (simp add: on_session_def)

lemma drop_outbound_ok:
  assumes "lk_external l \<le> lk_references l"
    and "\<exists>log. lk_inbound l = Some log \<and> told (lk_references l = 0) log"
    and "told (\<not> lk_outbound l) (is_underlying (lk_sink l))"
    and "is_deleted (lk_sink l) = (\<not> lk_outbound l)" and "lk_outbound l \<longrightarrow> is_references (lk_sink l) = 1"
  shows "\<exists>l'. drop_outbound recorder l = Inr l' \<and> link_ok l' \<and> lk_references l' = lk_references l \<and>
    lk_external l' = lk_external l"
  using assms
  by (cases "lk_outbound l")
    (auto simp: link_ok_def drop_outbound_def on_sink_def stream_release_def stream_dtor_def Let_def)

lemma session_release_ok:
  assumes ok: "link_ok l" and more: "lk_external l < lk_references l"
  shows "\<exists>l'. session_release recorder recorder l = Inr l' \<and> link_ok l' \<and>
    lk_references l' = lk_references l - 1 \<and> lk_external l' = lk_external l"
proof (cases "lk_references l = 1")
  case True
  obtain log where log: "lk_inbound l = Some log" "told False log"
    using ok True by (auto simp: link_ok_def)
  let ?l = "l\<lparr>lk_references := 0, lk_inbound := Some (log @ [Disconnect])\<rparr>"
  have "\<exists>l'. drop_outbound recorder ?l = Inr l' \<and> link_ok l' \<and> lk_references l' = 0 \<and> lk_external l' = lk_external l"
    using drop_outbound_ok [of ?l] ok more True log(2) by (auto simp: link_ok_def)
  then show ?thesis
    using True log(1) by (simp add: session_release_def session_final_release_def Let_def)
next
  case False
  then have "1 < lk_references l" using more by linarith
  with ok more show ?thesis by (auto simp: session_release_def link_ok_def Let_def)
qed

text \<open>A reference that COM holds for a client is given up.\<close>

lemma external_release_ok:
  assumes "link_ok l" and "lk_external l = Suc n"
  shows "\<exists>l'. session_release recorder recorder (l\<lparr>lk_external := n\<rparr>) = Inr l' \<and> link_ok l' \<and> lk_external l' = n"
proof -
  have "link_ok (l\<lparr>lk_external := n\<rparr>)" "n < lk_references l" using assms by (auto simp: link_ok_def)
  with session_release_ok [of "l\<lparr>lk_external := n\<rparr>"] show ?thesis by auto
qed

lemma release_external_ok:
  "link_ok l \<Longrightarrow> lk_external l = n \<Longrightarrow> \<exists>l'. release_external recorder recorder n l = Inr l' \<and> link_ok l' \<and> lk_external l' = 0"
proof (induction n arbitrary: l)
  case (Suc n)
  with external_release_ok [OF Suc.prems] show ?case by fastforce
qed simp

text \<open>
  A turn of a link that is in order is undefined when the user's session on the server uses the
  object after it has been destroyed, throws when it sends and no sink is there, and otherwise
  leaves the link in order.
\<close>

definition turn_fault :: "link_event \<Rightarrow> ('i, 'c) com_link \<Rightarrow> fault option" where
  "turn_fault ev l =
     (if server_uses ev \<and> lk_references l = 0 then Some Undefined_behaviour
      else if (\<exists>m. ev = Server_sends m) \<and> \<not> lk_outbound l
      then Some (Thrown (Std_runtime_error ''Sink channel has not been created yet!''))
      else None)"

lemma link_turn_ok:
  assumes ok: "link_ok l"
  shows "case turn_fault ev l of
      Some f \<Rightarrow> link_turn recorder recorder ev l = Inl f
    | None \<Rightarrow> \<exists>l'. link_turn recorder recorder ev l = Inr l' \<and> link_ok l'"
proof (cases ev)
  case (Client_sends m)
  with ok show ?thesis
    by (auto simp: turn_fault_def link_ok_def com_client_message_def session_write_def on_session_def lift_exn_def)
next
  case Client_refers
  with ok show ?thesis by (auto simp: turn_fault_def link_ok_def)
next
  case Client_releases
  with ok external_release_ok [OF ok, of "lk_external l - 1"] show ?thesis
    by (cases "lk_external l") (auto simp: turn_fault_def com_client_release_def)
next
  case (Client_unadvises k)
  have "\<exists>l'. drop_outbound recorder l = Inr l' \<and> link_ok l'"
    using drop_outbound_ok [of l] ok by (auto simp: link_ok_def)
  with ok Client_unadvises show ?thesis
    by (auto simp: turn_fault_def session_unadvise_def on_session_def link_ok_def)
next
  case Call_begins
  with ok show ?thesis by (auto simp: turn_fault_def link_ok_def)
next
  case Call_ends
  with ok session_release_ok [OF ok] show ?thesis by (auto simp: turn_fault_def)
next
  case (Server_sends m)
  with ok show ?thesis
    by (auto simp: turn_fault_def link_ok_def session_message_def on_session_def on_sink_def stream_write_def
        lift_exn_def)
next
  case Server_disconnects
  with ok release_external_ok [OF ok refl] show ?thesis
    by (auto simp: turn_fault_def session_disconnect_def on_session_def)
qed

lemma link_step_ok: "link_step recorder recorder l l' \<Longrightarrow> link_ok l \<Longrightarrow> link_ok l'"
proof (induction rule: link_step.induct)
  case (turn ev l l')
  with link_turn_ok [OF turn.prems, of ev] show ?case by (auto split: option.splits)
qed

lemma link_steps_ok: "(link_step recorder recorder)\<^sup>*\<^sup>* l l' \<Longrightarrow> link_ok l \<Longrightarrow> link_ok l'"
  by (induction rule: rtranclp_induct) (auto dest: link_step_ok)

lemma com_connect_Inr:
  assumes "com_connect e u recorder activate endpoint_id [] = Inr l"
  shows "snd (activate (guid_from_string e u endpoint_id)) = [] \<longrightarrow> link_ok l \<and> lk_outbound l"
  using assms
  by (auto simp: com_connect_def session_advise_def on_sink_def stream_query_interface_def stream_add_ref_def
      inbound_stream_ctor_def stream_release_def link_ok_def told_def Let_def split: prod.splits if_splits)

section \<open>What goes wrong\<close>

text \<open>
  A session that cannot be created: the last reference to the object goes while \<^verbatim>\<open>inbound\<close> is
  still null, before any handler can return an error.
\<close>

lemma com_create_instance_throws:
  "com_create_instance ich cch (Inl x) riid sink = Inl Undefined_behaviour"
  by (simp add: com_create_instance_def session_release_def session_final_release_def Let_def)

text \<open>One that has been created is held by COM for the client alone, or gone if the interface is unknown.\<close>

lemma com_create_instance_returns:
  "com_create_instance ich cch (Inr i) riid sink =
     (if session_supports riid
      then Inr (S_OK, \<lparr>lk_references = 1, lk_external = 1, lk_inbound = Some i, lk_outbound = False, lk_sink = sink\<rparr>)
      else Inr (E_NOINTERFACE, \<lparr>lk_references = 0, lk_external = 0, lk_inbound = Some (ch_disconnect ich i),
        lk_outbound = False, lk_sink = sink\<rparr>))"
  by (simp add: com_create_instance_def session_release_def session_final_release_def drop_outbound_def Let_def)

text \<open>A connection that is refused: the client's channel has been told of a disconnection by then.\<close>

lemma com_connect_refused:
  assumes "fst (activate (guid_from_string e u endpoint_id)) \<noteq> S_OK"
  shows "\<exists>s. com_connect e u ch activate endpoint_id c = Inl (Thrown (Connection_refused (c_str endpoint_id)), s) \<and>
    is_deleted s \<and> is_underlying s = ch_disconnect ch c"
  using assms
  by (auto simp: com_connect_def stream_release_def stream_dtor_def stream_add_ref_def
      inbound_stream_ctor_def Let_def split: prod.splits)

text \<open>Nothing else can be the matter.\<close>

lemma com_connect_Inl:
  assumes "com_connect e u ch activate endpoint_id c = Inl (x, s)"
  shows "x = Thrown (Connection_refused (c_str endpoint_id)) \<and> is_deleted s \<and> is_underlying s = ch_disconnect ch c"
proof -
  have "fst (activate (guid_from_string e u endpoint_id)) \<noteq> S_OK"
    using assms
    by (auto simp: com_connect_def session_advise_def on_sink_def stream_query_interface_def stream_add_ref_def
        inbound_stream_ctor_def Let_def split: prod.splits)
  from com_connect_refused [where activate = activate, OF this, of ch c] assms show ?thesis by auto
qed

end
