(* ===== verification/Com_Construction.thy ===== *)
theory Com_Construction
  imports Com_Transport
begin

text \<open>
  The construction and destruction of the COM client (\<^verbatim>\<open>src/client_endpoint_com.cpp\<close>) with what
  they acquire and give back: COM itself (\<^verbatim>\<open>src/com_init.cpp\<close>), an activation context made from the
  resources of the module, and its activation while the instance is created. The calls that are made
  are recorded with their results; what they answer is an argument.
\<close>

datatype com_call =
    Co_initialize_ex bool
  | Co_uninitialize
  | Create_act_ctx "nat option"
  | Activate_act_ctx nat "nat option"
  | Deactivate_act_ctx nat
  | Release_act_ctx nat
  | Co_create_instance guid
  | Release_stream

record 'i com_api =
  ca_initialize :: bool
  ca_create_act_ctx :: "nat option"
  ca_activate :: "nat \<Rightarrow> nat option"
  ca_create_instance :: "com_call list \<Rightarrow> guid \<Rightarrow> hresult \<times> 'i"

section \<open>The code\<close>

text \<open>\<^verbatim>\<open>com_initialize\<close>; whether the initialization has succeeded is not looked at.\<close>

definition com_initialize_ctor :: "'i com_api \<Rightarrow> com_call list \<Rightarrow> com_call list" where
  "com_initialize_ctor A tr = tr @ [Co_initialize_ex (ca_initialize A)]"

definition com_initialize_dtor :: "com_call list \<Rightarrow> com_call list" where
  "com_initialize_dtor tr = tr @ [Co_uninitialize]"

text \<open>The context and the lock are smart pointers: the second function of each pair is the deleter.\<close>

definition create_activation_context :: "'i com_api \<Rightarrow> com_call list \<Rightarrow> nat option \<times> com_call list" where
  "create_activation_context A tr = (ca_create_act_ctx A, tr @ [Create_act_ctx (ca_create_act_ctx A)])"

fun release_activation_context :: "nat option \<Rightarrow> com_call list \<Rightarrow> com_call list" where
  "release_activation_context None tr = tr"
| "release_activation_context (Some hcontext) tr = tr @ [Release_act_ctx hcontext]"

fun lock_activation_context :: "'i com_api \<Rightarrow> nat option \<Rightarrow> com_call list \<Rightarrow> nat option \<times> com_call list" where
  "lock_activation_context A None tr = (None, tr)"
| "lock_activation_context A (Some ctx) tr = (ca_activate A ctx, tr @ [Activate_act_ctx ctx (ca_activate A ctx)])"

fun unlock_activation_context :: "nat option \<Rightarrow> com_call list \<Rightarrow> com_call list" where
  "unlock_activation_context None tr = tr"
| "unlock_activation_context (Some cookie) tr = tr @ [Deactivate_act_ctx cookie]"

text \<open>The constructor with the destructors of its locals, and of the member if it throws.\<close>

definition com_client_ctor ::
  "'i com_api \<Rightarrow> endian \<Rightarrow> guid \<Rightarrow> 'c channel \<Rightarrow> string \<Rightarrow> 'c \<Rightarrow> com_call list \<Rightarrow>
   (fault \<times> 'c inbound_stream + ('i, 'c) com_link) \<times> com_call list" where
  "com_client_ctor A e uninitialised ch destination_endpoint_id inbound tr =
     (case create_activation_context A (com_initialize_ctor A tr) of (ctx, tr1) \<Rightarrow>
        (case lock_activation_context A ctx tr1 of (ctx_lock, tr2) \<Rightarrow>
           (let r = com_connect e uninitialised ch (ca_create_instance A tr2) destination_endpoint_id inbound;
                tr3 = tr2 @ [Co_create_instance (guid_from_string e uninitialised destination_endpoint_id)];
                tr4 = release_activation_context ctx (unlock_activation_context ctx_lock tr3)
            in case r of
                 Inl x \<Rightarrow> (Inl x, com_initialize_dtor tr4)
               | Inr l \<Rightarrow> (Inr l, tr4))))"

text \<open>The destructor: the stream is released before COM is given up.\<close>

definition com_client_dtor ::
  "'i channel \<Rightarrow> 'c channel \<Rightarrow> ('i, 'c) com_link \<Rightarrow> com_call list \<Rightarrow>
   fault + ('i, 'c) com_link \<times> com_call list" where
  "com_client_dtor ich cch l tr =
     bind_result (com_client_release ich cch l)
       (\<lambda>l'. Inr (l', com_initialize_dtor (tr @ [Release_stream])))"

section \<open>Everything in its order\<close>

text \<open>
  What is held, latest first: each thing is given back while it is the latest one, and instances are
  created and released while COM is there. A failed call gives nothing to give back.
\<close>

datatype holding = Holds_com | Holds_context nat | Holds_activation nat

fun give_back :: "holding \<Rightarrow> holding list \<Rightarrow> holding list option" where
  "give_back h [] = None"
| "give_back h (g # hs) = (if g = h then Some hs else None)"

fun hold :: "com_call \<Rightarrow> holding list \<Rightarrow> holding list option" where
  "hold (Co_initialize_ex ok) hs = Some (if ok then Holds_com # hs else hs)"
| "hold Co_uninitialize hs = give_back Holds_com hs"
| "hold (Create_act_ctx r) hs = Some (case r of None \<Rightarrow> hs | Some h \<Rightarrow> Holds_context h # hs)"
| "hold (Activate_act_ctx h r) hs =
     (if Holds_context h \<in> set hs
      then Some (case r of None \<Rightarrow> hs | Some c \<Rightarrow> Holds_activation c # hs) else None)"
| "hold (Deactivate_act_ctx c) hs = give_back (Holds_activation c) hs"
| "hold (Release_act_ctx h) hs = give_back (Holds_context h) hs"
| "hold (Co_create_instance clsid) hs = (if Holds_com \<in> set hs then Some hs else None)"
| "hold Release_stream hs = (if Holds_com \<in> set hs then Some hs else None)"

fun held :: "holding list \<Rightarrow> com_call list \<Rightarrow> holding list option" where
  "held hs [] = Some hs"
| "held hs (c # cs) = (case hold c hs of None \<Rightarrow> None | Some hs' \<Rightarrow> held hs' cs)"

lemma held_append: "held hs (cs @ ds) = (case held hs cs of None \<Rightarrow> None | Some hs' \<Rightarrow> held hs' ds)"
  by (induction cs arbitrary: hs) (auto split: option.split)

lemma com_client_ctor_held:
  assumes "com_client_ctor A e u ch endpoint_id c tr = (r, tr')" and "held [] tr = Some hs" and "ca_initialize A"
  shows "held [] tr' = Some (case r of Inl _ \<Rightarrow> hs | Inr _ \<Rightarrow> Holds_com # hs)"
proof (cases "ca_create_act_ctx A")
  case None
  with assms show ?thesis
    by (auto simp: com_client_ctor_def com_initialize_ctor_def com_initialize_dtor_def
        create_activation_context_def held_append Let_def split: sum.splits)
next
  case (Some h)
  then show ?thesis
    using assms
    by (cases "ca_activate A h")
      (auto simp: com_client_ctor_def com_initialize_ctor_def com_initialize_dtor_def
        create_activation_context_def held_append Let_def split: sum.splits)
qed

text \<open>The instance is created while the context is active; a refusal is the only exception.\<close>

lemma com_client_ctor_active:
  assumes "com_client_ctor A e u ch endpoint_id c tr = (r, tr')"
    and "ca_create_act_ctx A = Some h" and "ca_activate A h = Some cookie"
  shows "r = com_connect e u ch (ca_create_instance A (tr @ [Co_initialize_ex (ca_initialize A),
    Create_act_ctx (Some h), Activate_act_ctx h (Some cookie)])) endpoint_id c"
  using assms
  by (auto simp: com_client_ctor_def com_initialize_ctor_def create_activation_context_def Let_def
      split: sum.splits)

lemma com_client_ctor_Inl:
  assumes "com_client_ctor A e u ch endpoint_id c tr = (Inl (x, s), tr')"
  shows "x = Thrown (Connection_refused (c_str endpoint_id)) \<and> is_deleted s \<and> is_underlying s = ch_disconnect ch c"
  using assms
  by (auto simp: com_client_ctor_def Let_def split: sum.splits prod.splits dest!: com_connect_Inl)

text \<open>Without a successful initialization the destructor gives up what others hold.\<close>

lemma com_client_ctor_unbalanced:
  assumes "com_client_ctor A e u ch endpoint_id c tr = (r, tr')" and "held [] tr = Some [Holds_com]"
    and "\<not> ca_initialize A"
  shows "held [] (case r of Inl _ \<Rightarrow> tr' | Inr _ \<Rightarrow> com_initialize_dtor tr') = Some []"
proof (cases "ca_create_act_ctx A")
  case None
  with assms show ?thesis
    by (auto simp: com_client_ctor_def com_initialize_ctor_def com_initialize_dtor_def
        create_activation_context_def held_append Let_def split: sum.splits)
next
  case (Some h)
  then show ?thesis
    using assms
    by (cases "ca_activate A h")
      (auto simp: com_client_ctor_def com_initialize_ctor_def com_initialize_dtor_def
        create_activation_context_def held_append Let_def split: sum.splits)
qed

lemma com_client_dtor_held:
  assumes "com_client_dtor ich cch l tr = Inr (l', tr')" and "held [] tr = Some (Holds_com # hs)"
  shows "held [] tr' = Some hs"
  using assms by (auto simp: com_client_dtor_def com_initialize_dtor_def held_append bind_result_eq_Inr)

end
