(* ===== verification/Com_Server.thy ===== *)
theory Com_Server
  imports Com_Transport
begin

text \<open>
  The class object of the COM server, \<^verbatim>\<open>server\<close> and \<^verbatim>\<open>run_server\<close> of
  \<^verbatim>\<open>src/server_endpoint_com.cpp\<close>: it is made and registered, COM and clients that activate the class
  hold references to it, and the handle the user gets revokes it. Its one member is the factory of
  sessions; a null pointer there is \<open>None\<close>. The two counts beside the references are not in the
  code: they say whose references these are.
\<close>

record 'f class_object =
  co_references :: nat
  co_session_factory :: "'f option"
  co_registered :: bool
  co_clients :: nat

section \<open>The code\<close>

text \<open>
  \<^verbatim>\<open>construct\<close>, for what \<^verbatim>\<open>CreateInstance\<close> of \<^verbatim>\<open>CComObject\<close> has answered: the result and whether
  there is a pointer. The smart pointer takes the first reference.
\<close>

definition com_construct :: "hresult \<times> bool \<Rightarrow> (nat \<Rightarrow> 'p) \<Rightarrow> exn + 'p" where
  "com_construct created object =
     (if fst created = E_OUTOFMEMORY \<or> \<not> snd created then Inl Std_bad_alloc else Inr (object 1))"

definition new_class_object :: "nat \<Rightarrow> 'f class_object" where
  "new_class_object n =
     \<lparr>co_references = n, co_session_factory = None, co_registered = False, co_clients = 0\<rparr>"

definition class_set_server :: "'f \<Rightarrow> 'f class_object \<Rightarrow> 'f class_object" where
  "class_set_server factory p = p\<lparr>co_session_factory := Some factory\<rparr>"

text \<open>The last release destroys the object and with it the member.\<close>

definition class_release :: "'f class_object \<Rightarrow> 'f class_object" where
  "class_release p =
     (let p1 = p\<lparr>co_references := co_references p - 1\<rparr>
      in if co_references p1 = 0 then p1\<lparr>co_session_factory := None\<rparr> else p1)"

text \<open>\<^verbatim>\<open>CreateInstance\<close>, with the allocation of the session; \<open>create\<close> is \<^verbatim>\<open>create_session\<close>.\<close>

definition class_create_instance ::
  "'i channel \<Rightarrow> 'c channel \<Rightarrow> hresult \<times> bool \<Rightarrow> ('f \<Rightarrow> exn + 'i) \<Rightarrow> iid \<Rightarrow> 'c inbound_stream \<Rightarrow>
   'f class_object \<Rightarrow> fault + hresult \<times> ('i, 'c) com_link option" where
  "class_create_instance ich cch created create riid sink p =
     (case com_construct created id of
        Inl x \<Rightarrow> if catches C_bad_alloc x then Inr (E_OUTOFMEMORY, None) else Inl (Thrown x)
      | Inr _ \<Rightarrow>
          (case co_session_factory p of
             None \<Rightarrow> Inl Undefined_behaviour
           | Some factory \<Rightarrow>
               bind_result (com_create_instance ich cch (create factory) riid sink)
                 (\<lambda>(hr, l). Inr (hr, Some l))))"

text \<open>
  \<^verbatim>\<open>run_server\<close>: \<open>register\<close> is \<^verbatim>\<open>CoRegisterClassObject\<close>, which takes a reference when it succeeds.
  The result is the cookie that the handle revokes, and the object after the local pointer is gone.
\<close>

definition com_run_server ::
  "endian \<Rightarrow> guid \<Rightarrow> hresult \<times> bool \<Rightarrow> (guid \<Rightarrow> hresult \<times> u32) \<Rightarrow> string \<Rightarrow> 'f \<Rightarrow>
   (exn + u32) \<times> 'f class_object option" where
  "com_run_server e uninitialised created register endpoint_id sf =
     (let clsid = guid_from_string e uninitialised endpoint_id
      in case com_construct created new_class_object of
           Inl x \<Rightarrow> (Inl x, None)
         | Inr p \<Rightarrow>
             (let p1 = class_set_server sf p
              in case register clsid of (hr, cookie) \<Rightarrow>
                if hr \<noteq> S_OK
                then (Inl (Initialization_failed (c_str endpoint_id)), Some (class_release p1))
                else (Inr cookie, Some (class_release
                       (p1\<lparr>co_references := co_references p1 + 1, co_registered := True\<rparr>)))))"

text \<open>The deleter of the handle: \<^verbatim>\<open>CoRevokeClassObject\<close> gives the reference of the registration back.\<close>

definition class_revoke :: "'f class_object \<Rightarrow> 'f class_object" where
  "class_revoke p = (if co_registered p then class_release (p\<lparr>co_registered := False\<rparr>) else p)"

section \<open>Its life\<close>

text \<open>Clients get at the object while it is registered, or through a reference that another holds.\<close>

inductive class_step :: "'f class_object \<Rightarrow> 'f class_object \<Rightarrow> bool" where
  client_refers: "co_registered p \<or> 0 < co_clients p \<Longrightarrow>
    class_step p (p\<lparr>co_references := co_references p + 1, co_clients := co_clients p + 1\<rparr>)"
| client_lets_go: "0 < co_clients p \<Longrightarrow>
    class_step p (class_release (p\<lparr>co_clients := co_clients p - 1\<rparr>))"
| handle_released: "class_step p (class_revoke p)"

inductive_cases class_stepE: "class_step p q"

definition class_ok :: "'f class_object \<Rightarrow> bool" where
  [inv_defs]: "class_ok p \<longleftrightarrow>
     co_references p = co_clients p + (if co_registered p then 1 else 0) \<and>
     (co_session_factory p = None \<longleftrightarrow> co_references p = 0)"

lemma class_step_ok: "class_step p q \<Longrightarrow> class_ok p \<Longrightarrow> class_ok q"
  by (erule class_stepE)
    (auto simp: class_ok_def class_release_def class_revoke_def Let_def)

lemma class_steps_ok: "class_step\<^sup>*\<^sup>* p q \<Longrightarrow> class_ok p \<Longrightarrow> class_ok q"
  by (induction rule: rtranclp_induct) (auto dest: class_step_ok)

text \<open>
  What throws leaves no object; what succeeds leaves one with the factory in place, held by the
  registration alone.
\<close>

lemma com_run_server_cases:
  assumes "com_run_server e u created register endpoint_id sf = (r, p)"
  shows "case r of
      Inl x \<Rightarrow> x \<in> {Std_bad_alloc, Initialization_failed (c_str endpoint_id)} \<and>
        (case p of None \<Rightarrow> True | Some q \<Rightarrow> co_references q = 0 \<and> co_session_factory q = None)
    | Inr cookie \<Rightarrow> \<exists>q. p = Some q \<and> class_ok q \<and> co_registered q \<and> co_clients q = 0 \<and>
        co_session_factory q = Some sf"
  using assms
  by (auto simp: com_run_server_def com_construct_def new_class_object_def class_set_server_def
      class_release_def class_ok_def Let_def split: if_splits prod.splits)

text \<open>
  An instance can be asked for of an object that somebody refers to: its factory is there. Without
  memory for the session it is refused and nothing is left.
\<close>

lemma class_create_instance_defined:
  assumes "class_ok p" and "0 < co_references p"
  shows "\<exists>factory. co_session_factory p = Some factory \<and>
    (create factory = Inr i \<longrightarrow> class_create_instance ich cch created create riid sink p \<noteq> Inl Undefined_behaviour)"
  using assms
  by (auto simp: class_ok_def class_create_instance_def com_construct_def com_create_instance_returns
      split: if_splits)

text \<open>After the handle has been released the object is gone as soon as no client refers to it.\<close>

lemma class_revoked:
  assumes "class_ok p" and "class_step\<^sup>*\<^sup>* (class_revoke p) q"
  shows "class_ok q \<and> \<not> co_registered q \<and> (co_clients q = 0 \<longleftrightarrow> co_session_factory q = None)"
proof -
  have "\<not> co_registered q \<and> class_ok q"
    using assms(2)
  proof (induction rule: rtranclp_induct)
    case base
    have "class_ok (class_revoke p)" using class_step_ok [OF class_step.handle_released assms(1)] .
    then show ?case by (simp add: class_revoke_def class_release_def Let_def)
  next
    case (step q r)
    from step(2) have "\<not> co_registered r"
      by (rule class_stepE) (use step.IH in \<open>auto simp: class_release_def class_revoke_def Let_def\<close>)
    with class_step_ok [OF step(2)] step.IH show ?case by blast
  qed
  then show ?thesis by (auto simp: class_ok_def)
qed

end
