(* ===== verification/Lifetime.thy ===== *)
theory Lifetime
  imports Prelude
begin

text \<open>
  \<^verbatim>\<open>src/lifetime.h\<close>: a flag that is shared with tasks in a queue and keeps them from running once
  the object they work on has been destroyed. Every access is under the mutex, so that each is a
  step; the queue may run its tasks in any order, and the object's state is what tasks transform.
\<close>

record 's lifetime =
  lt_alive :: bool
  lt_queue :: "('s \<Rightarrow> 's) list"
  lt_object :: 's

definition lifetime_ctor :: "'s \<Rightarrow> 's lifetime" where
  "lifetime_ctor obj = \<lparr>lt_alive = True, lt_queue = [], lt_object = obj\<rparr>"

definition mark_destroyed :: "'s lifetime \<Rightarrow> 's lifetime" where
  "mark_destroyed l = l\<lparr>lt_alive := False\<rparr>"

definition execute_safe :: "('s \<Rightarrow> 's) \<Rightarrow> 's lifetime \<Rightarrow> 's lifetime" where
  "execute_safe f l = (if lt_alive l then l\<lparr>lt_object := f (lt_object l)\<rparr> else l)"

definition schedule_safe :: "('s \<Rightarrow> 's) \<Rightarrow> 's lifetime \<Rightarrow> 's lifetime" where
  "schedule_safe task l = l\<lparr>lt_queue := lt_queue l @ [task]\<rparr>"

text \<open>The steps of the threads that share it; the queue runs its \<open>i\<close>-th task.\<close>

inductive lifetime_step :: "'s lifetime \<Rightarrow> 's lifetime \<Rightarrow> bool" where
  destroyed: "lifetime_step l (mark_destroyed l)"
| executed: "lifetime_step l (execute_safe f l)"
| scheduled: "lifetime_step l (schedule_safe f l)"
| run: "i < length (lt_queue l) \<Longrightarrow>
    lifetime_step l (execute_safe (lt_queue l ! i)
      (l\<lparr>lt_queue := take i (lt_queue l) @ drop (Suc i) (lt_queue l)\<rparr>))"

inductive_cases lifetime_stepE: "lifetime_step l l'"

lemma lifetime_step_dead:
  "lifetime_step l l' \<Longrightarrow> \<not> lt_alive l \<Longrightarrow> \<not> lt_alive l' \<and> lt_object l' = lt_object l"
  by (erule lifetime_stepE) (simp_all add: mark_destroyed_def execute_safe_def schedule_safe_def)

text \<open>After the destruction the object is not touched, however much is left in the queue.\<close>

lemma destroyed_is_not_touched:
  assumes "lifetime_step\<^sup>*\<^sup>* (mark_destroyed l) l'"
  shows "\<not> lt_alive l' \<and> lt_object l' = lt_object l"
  using assms
proof (induction rule: rtranclp_induct)
  case base
  show ?case by (simp add: mark_destroyed_def)
next
  case (step m n)
  then show ?case using lifetime_step_dead by metis
qed

end
