(* ===== verification/Spec2Isabelle.thy ===== *)
theory Spec2Isabelle
  imports Exceptions Byte_Representation Buffers Framing Selector Cancellable_Win32 Cancellable_Unix
    Client_Reentrancy Server_Reentrancy Handler_Thunks Remote_Sockets Socket_Startup Socket_Isolation Socket_Descriptors Endpoints Stream_Endpoint
    Spawn_Lifetime Spawn_Win32 Signal_Pipe Com_Construction Com_Server Lifetime
begin

text \<open>
  Cohesion IPC: a library that carries messages between a client and a server process over one of
  four transports (TCP sockets, COM, a spawned child's pipes, a pair of C streams), with a session
  layer on top that pairs requests with responses. This development models the code under \<^verbatim>\<open>src/\<close>
  and proves what makes it correct, and a number of places where it is not.

  \<^bold>\<open>How the parts fit.\<close> A user calls \<^verbatim>\<open>connect_client\<close> or \<^verbatim>\<open>run_server\<close> with an endpoint id, a
  protocol name and a bar before the transport's own address; \<^verbatim>\<open>select\<close> picks the transport. Every
  transport gives either side a \<^verbatim>\<open>channel\<close>, an object with the methods \<^verbatim>\<open>message\<close> and \<^verbatim>\<open>disconnect\<close>,
  for sending, and calls the user's channel with what it receives. All but COM carry a byte stream:
  a message is the 32-bit length and the bytes (in network order on sockets), and one template,
  \<^verbatim>\<open>read_messages\<close>, takes the stream apart. On top, \<^verbatim>\<open>strmd::client_session\<close> serializes requests
  under fresh tokens and dispatches the responses to callbacks; \<^verbatim>\<open>strmd::server_session\<close> runs a
  handler for a request and sends what it responds under the request's token, at once or later
  from a queue.

  \<^bold>\<open>Theories.\<close> In the order of the layers:
  \<^item> \<open>Prelude\<close>: machine words, byte strings, results that are an exception or a value, the named
    collections \<open>wire\<close>, \<open>inv_defs\<close> and \<open>result_simps\<close>, facts on lists and words. \<open>Exceptions\<close>:
    the classes of \<^verbatim>\<open>coipc/exceptions.h\<close> and their data. \<open>C_Strings\<close>: what is used of the C library
    on strings (\<^verbatim>\<open>printf\<close>, \<^verbatim>\<open>sscanf\<close> and \<^verbatim>\<open>atoi\<close> on the formats in question).
  \<^item> \<open>Ranges\<close> (\<^verbatim>\<open>coipc/range.h\<close>) and \<open>Buffers\<close> (\<^verbatim>\<open>coipc/strmd/stream.h\<close>,
    \<^verbatim>\<open>src/strmd/stream.cpp\<close>): pointers are 64-bit words that wrap, memory is a function from
    addresses to bytes. The reader is shown to refine \<open>read_spec\<close> on byte strings.
  \<^item> \<open>Byte_Representation\<close> and \<open>Framing\<close> (\<^verbatim>\<open>src/helpers.h\<close>, the \<^verbatim>\<open>message\<close> methods of the five
    senders): the host's byte order is an argument. The locales \<open>byte_source\<close> and \<open>byte_sink\<close>
    are what the loops rely on of a stream, interpreted on the C \<^verbatim>\<open>FILE\<close>; \<open>message_sender\<close> is what a
    receiver relies on of a \<^verbatim>\<open>message\<close> method, interpreted on the three that write to a \<^verbatim>\<open>FILE\<close> and
    shown of the two that write to a socket. The abstract splitter \<open>split_frames\<close> is what
    \<^verbatim>\<open>read_messages\<close> refines.
  \<^item> \<open>Ids\<close> (\<^verbatim>\<open>src/misc.cpp\<close>, \<^verbatim>\<open>coipc/misc.h\<close>, \<^verbatim>\<open>coipc/types.h\<close>) and \<open>Selector\<close> (\<^verbatim>\<open>select\<close> and the
    tables of \<^verbatim>\<open>src/client_endpoint.cpp\<close> and \<^verbatim>\<open>src/server_endpoint.cpp\<close>, \<^verbatim>\<open>host_port\<close>).
  \<^item> \<open>Std_Map\<close>: \<^verbatim>\<open>std::map\<close> with the identity of its nodes, since the client session keeps
    iterators; the locale \<open>node_map\<close> holds the laws of insert, find and erase, interpreted on
    sorted association lists. \<open>Codec\<close>: the serialization library, an argument with the round trip
    \<open>codec_ok\<close> as its one law.
  \<^item> \<open>Client_Session\<close> and \<open>Client_Calls\<close> (\<^verbatim>\<open>coipc/strmd/client_session.h\<close>,
    \<^verbatim>\<open>src/strmd/client_session.cpp\<close>): the state has the two callback maps, the token counter and
    the user's handles with the deleters they own. \<open>client_inv\<close> is the ownership invariant: each
    map element belongs to one deleter of one handle. Erasing through an iterator that is no
    longer valid is the value \<open>Undefined_behaviour\<close>. \<open>Client_Reentrancy\<close>: callbacks that use the
    session that calls them. A callback under way is a frame with the element its code lives in, an
    outbound call one with the message it has to read from the session's one buffer; the
    calls a callback makes, the messages that come in meanwhile and the reading are turns, to any depth.
    A callback that goes on after its element has been erased is undefined, and so is reading a message
    after another has been serialized over it.
  \<^item> \<open>Server_Session\<close> (\<^verbatim>\<open>coipc/strmd/server_session.h\<close>, \<^verbatim>\<open>src/strmd/server_session.cpp\<close>): handlers
    are the lists of calls they make on the response and the session; tasks of the apartment
    queue may run in any order. \<open>Handler_Thunks\<close> (with \<^verbatim>\<open>coipc/argument_traits.h\<close>): how the signature
    of a handler selects its thunk and what it may be, and the thunks as the objects they are, which
    keep the argument of the last request; a codata type, so that the session they are simulated by
    is the one of \<open>Server_Session\<close>. \<open>Server_Reentrancy\<close>: handlers that nest, since sending a response or
    a message may deliver the next request. A handler under way is a frame of the thunk it came
    from; requests that come in meanwhile, and handlers added or replaced, are turns, to any depth. All
    frames share the session's one buffer, and those of one thunk its one argument.
  \<^item> \<open>Cancellable_Win32\<close> and \<open>Cancellable_Unix\<close> (\<^verbatim>\<open>src/cancellable_read.*.cpp\<close>): step relations,
    one step for a critical section or a system call, for any interleaving of reads and cancels.
  \<^item> \<open>Socket_Server\<close> (\<^verbatim>\<open>src/server_endpoint_sockets.cpp\<close>): the list of handlers, the position of the
    loop in it and the bodies of the handlers, over a record of system calls and user sessions.
    \<open>Socket_Address\<close> (\<^verbatim>\<open>src/socket_helpers.h\<close>): the address made of a host and a port, byte for byte, with
    \<^verbatim>\<open>inet_addr\<close> as it is documented.
    A session's outbound channel is the handler in the list: \<open>outbound_disconnect\<close> and \<open>outbound_message\<close> are
    \<open>None\<close>, undefined, once that has been erased.
    \<open>Socket_Runs\<close>: the invariant \<open>server_inv\<close> of every run and the measure \<open>pass_left\<close> by which a
    pass over the list ends. \<open>Socket_Sessions\<close>: what the turns of the thread do.
    \<open>Socket_Descriptors\<close>: which descriptors the server has open, over any outside world that keeps
    the \<open>books\<close> of a system's descriptors. \<open>Socket_Stop\<close>: runs of the thread in which a turn may have to wait
    in \<^verbatim>\<open>recv\<close> and the world changes between turns, with a measure that each turn lessens once the
    destructor has sent its zero. \<open>Socket_Startup\<close>: from the constructor, which connects to the server's own
    port, to regular service, with the measure \<open>start_less\<close>. \<open>Socket_Isolation\<close>: the stream of one connection through such a run.
  \<^item> \<open>Endpoints\<close>: the reading threads of the spawned server's \<^verbatim>\<open>main\<close> (\<^verbatim>\<open>src/server_endpoint_spawn.cpp\<close>),
    of the client that spawned it (\<^verbatim>\<open>src/client_endpoint_spawn.cpp\<close>) and of the socket client
    (\<^verbatim>\<open>src/client_endpoint_sockets.cpp\<close>), with that client's construction, and its destruction as
    steps that interleave with those of the thread. \<open>Remote_Calls\<close>: the two session layers over
    the pipes of a spawned server, from the request to the callback; \<open>Remote_Sockets\<close>: the same over the
    socket server and its client.
  \<^item> \<open>Stream_Endpoint\<close> (\<^verbatim>\<open>src/server_endpoint_stream.cpp\<close>): the worker of a stream connection, one
    turn for each \<^verbatim>\<open>select\<close> and each \<^verbatim>\<open>fread\<close>, with the calls of \<open>Cancellable_Unix\<close>. \<open>fate\<close> is the
    outcome that a state is bound for, in terms of \<open>split_frames\<close>; no turn changes it.
  \<^item> \<open>Descriptors\<close>: tables of descriptors, the locale \<open>descriptor_table\<close> with the laws of looking
    up, allocating the lowest and closing, interpreted on lists. \<open>Spawn_Unix\<close>
    (\<^verbatim>\<open>src/client_endpoint_spawn.unix.cpp\<close>): pipes, \<^verbatim>\<open>fork\<close>, \<^verbatim>\<open>dup2\<close> and \<^verbatim>\<open>execve\<close> over such tables.
    \<open>Spawn_Lifetime\<close>: the destructor of a spawned server's client with the threads and processes it
    waits for. \<open>Signal_Pipe\<close>: the descriptors of a \<^verbatim>\<open>cancellable_read\<close>. \<open>Spawn_Win32\<close>
    (\<^verbatim>\<open>src/client_endpoint_spawn.win32.cpp\<close>): the command line, the environment block, the pipes with
    the handles that are open and inheritable on every path, and what the child is started with. How a
    C runtime reads a command line is the hypothesis \<open>reads_arguments\<close>, what is documented of lines of
    quoted parts; \<open>read_command_line\<close> is an instance.
  \<^item> \<open>Com_Transport\<close> (\<^verbatim>\<open>src/server_endpoint_com.cpp\<close>, \<^verbatim>\<open>coipc/com/endpoint.h\<close>,
    \<^verbatim>\<open>src/client_endpoint_com.cpp\<close>): a session and the sink it has been advised of, as one state with
    both reference counts and how many of the session's are held by COM for clients; a method of either
    that is called when its count is zero is undefined. \<open>link_step\<close> is what clients, COM and the user's
    session on the server can do, the latter through a reference that is not counted. \<open>Com_Server\<close>: the class object, from its registration to its end.
    \<open>Com_Construction\<close> (with \<^verbatim>\<open>src/com_init.cpp\<close>): what the COM client
    acquires and gives back, as the sequence of calls it makes. \<open>Lifetime\<close> (\<^verbatim>\<open>src/lifetime.h\<close>): the
    flag that keeps tasks from an object that has been destroyed.

  \<^bold>\<open>What the properties show.\<close> The session layer: every operation keeps the ownership invariant, and so
  does whatever callbacks do with the session that calls them, with what is undefined made out
  exactly; dispatch is that of an abstract specification; requests and responses meet, through the
  pipes of a spawned server and over sockets as well; the thunks of handlers are as good as
  functions, and handlers that nest do not disturb each other as long as the channel has read what it
  sends before it lets a request in and no thunk is read into or replaced that a handler still needs; and what deferral promises. The wire format: the receiving loop refines the abstract
  splitter, and every transport delivers message for message, up to the disconnection or the first
  exception, with what becomes of lengths beyond 32 bits and streams that break off. The socket
  server: its invariant, the descriptors it owns and the limit on them, the end of each pass, what
  each kind of turn does, that it finds its own connection among those of others, that each session gets
  the stream of its own connection, what stops it, and when its destructor returns. The stream connection: all
  bytes are delivered whatever the interleaving, and when its destructor returns. Cancelling, on
  both platforms. Spawning: what the child is connected to, what it inherits, when the destructor of
  its client returns, and which command lines read back as they were written. COM: the well-formed life of a
  link, with what is undefined made out exactly, and what its client acquires and gives back. Ids and the addresses made of them, and buffers.

  \<^bold>\<open>Bounds and loops.\<close> \<^verbatim>\<open>read_messages\<close> is a partial function whose \<open>None\<close> is not to return; on every
  source with finitely many bytes it is shown to return. All other recursion is total; a pass of
  the socket server and the worker of a stream are followed for as many turns as a measure allows,
  which is shown to be enough, and the start and the destructor of the former by the measures \<open>start_less\<close> and
  \<open>stop_less\<close>, without a bound. Message lengths are taken modulo \<open>2 ^ 32\<close> by the senders, and
  statements about shorter messages say so. Tokens are 64-bit and \<open>client_inv\<close> asks for one to be
  left; handler ids are 32-bit and runs of the server are followed until all have been given out
  (\<open>2 ^ 32 - 101\<close> connections), since the code reuses them afterwards. Reference counts of the COM
  sink are 32-bit.

  \<^bold>\<open>Not modelled.\<close> The libraries that are submodules (\<^verbatim>\<open>strmd\<close>, \<^verbatim>\<open>tasker\<close>, \<^verbatim>\<open>mt\<close>, \<^verbatim>\<open>logger\<close>) and the
  operating system are arguments, the latter with what it documents of descriptors, processes and
  handles; of COM and ATL it is used that an object is destroyed when its
  references are gone, and that \<^verbatim>\<open>CoDisconnectObject\<close> releases those held for clients. Failure to allocate memory and logging are left out. Callbacks of the user may
  use the client session that calls them (\<open>Client_Reentrancy\<close>); handlers of a server session may send,
  be interrupted by requests and change its table (\<open>Server_Reentrancy\<close>), but do not destroy it; nor does a callback destroy the client session.
  Two threads do not send on one channel at a time. \<^verbatim>\<open>WSAStartup\<close> is not modelled.
  A channel's \<^verbatim>\<open>message\<close> that throws leaves no new state: what a handler has sent before it throws
  counts in \<open>server_message\<close>, but not beyond the loop that the exception ends.
  The code no definition stands for is declarations, trivial forwarding and the setting up of ATL.
  Command lines with an odd number of backslashes at the end of an argument are read by no law here.
  The streams' binary mode on Windows, signals, and what a forked child does with copies of the
  parent's buffers are not modelled.
\<close>

section \<open>The wire format\<close>

text \<open>
  C6. Receiving: on any source of bytes the loop of \<^verbatim>\<open>read_messages\<close> comes to an end, and by
  then it has handed to the channel, in order and up to the first that throws, exactly the
  messages that \<open>split_frames\<close> cuts out of the bytes there were.
\<close>

theorem read_messages_refines_split_frames:
  assumes "byte_source get avail"
  shows "\<exists>s'. read_messages e swap get ch s c =
    (case deliver_all ch c (split_frames (header_value e swap) [] (avail s)) of
       (x, c') \<Rightarrow> Some (x, s', c'))"
  using assms by (rule byte_source.read_messages_delivers)

theorem read_messages_refines_split_frames_witness:
  "byte_source fread id \<and>
   (\<exists>s'. read_messages Little_endian True fread recorder [0, 0, 0, 2, 7, 8, 0, 0, 0, 0, 9] [] =
      Some (None, s', [Message [7, 8], Message []]))"
proof -
  have "split_frames (header_value Little_endian True) [] [0, 0, 0, 2, 7, 8, 0, 0, 0, 0, 9] =
      [[7, 8], []]"
    by (simp add: split_frames.simps header_value_def reorder_eq load_value_def overwrite_def
        resize_def)
  with read_messages_refines_split_frames [OF file_source.byte_source_axioms,
      of Little_endian True recorder "[0, 0, 0, 2, 7, 8, 0, 0, 0, 0, 9]" "[]"]
  show ?thesis by (simp add: deliver_all_recorder file_source.byte_source_axioms)
qed

text \<open>
  C7. Round trip over a socket: what the server's end sends with \<^verbatim>\<open>socket_handler::message\<close> on a
  host of one byte order, the client's thread on a host of another takes apart again, message for
  message, and when the connection ends it tells of the disconnection, once; nothing follows an
  exception of the channel. The socket is assumed to carry the bytes: what is sent is received.
\<close>

theorem socket_messages_round_trip:
  assumes "byte_sink (\<lambda>w bs. snd (send w bs)) sent" and "byte_source recv avail"
    and "sent w = []" and "\<forall>m \<in> set ms. length m < 2 ^ 32"
    and "avail s = sent (fold (\<lambda>m w. socket_handler_message e1 send w m) ms w)"
  shows "\<exists>s'. socket_client_thread e2 ch recv s c =
    (case then_disconnect ch (deliver_all ch c ms) of (x, c') \<Rightarrow> Some (x, s', c'))"
proof -
  note sender = socket_senders(1) [OF assms(1), of e1 e2]
  have "avail s = concat (map (frame e2 True) ms)"
    unfolding assms(5) using message_sender.sends_frames [OF sender _ assms(4)] assms(3) by simp
  from socket_client_thread_frames [OF assms(2) this assms(4)] show ?thesis .
qed

theorem socket_messages_round_trip_witness:
  "\<exists>s'. socket_client_thread Big_endian recorder fread
     (fold (\<lambda>m w. socket_handler_message Little_endian (\<lambda>w bs. (int (length bs), w @ bs)) w m)
       [[1, 2], [3]] []) [] = Some (None, s', [Message [1, 2], Message [3], Disconnect])"
proof -
  have "byte_sink (\<lambda>w bs :: bytes. snd (int (length bs), w @ bs)) id"
    by unfold_locales simp
  from socket_messages_round_trip [OF this file_source.byte_source_axioms,
      of "[]" "[[1, 2], [3]]" "fold (\<lambda>m w. socket_handler_message Little_endian
        (\<lambda>w bs. (int (length bs), w @ bs)) w m) [[1, 2], [3]] []" Little_endian Big_endian recorder "[]"]
  show ?thesis by (simp add: deliver_all_recorder)
qed

text \<open>
  C8. Round trip over the two pipes of a spawned server, both processes being on one host. The
  server's \<^verbatim>\<open>main\<close> gives the session made from its arguments all that the client sends, then the
  disconnection; the client's thread gives its channel all that the server sends, and the
  disconnection if the client itself has not closed its stream. The stream endpoint's messages
  arrive at such a loop as well.
\<close>

theorem pipe_messages_round_trip:
  assumes "of_flushed f = []" and "of_buffered f = []" and "\<forall>m \<in> set ms. length m < 2 ^ 32"
    and "create (tl argv) c = Inr c1" and "message \<in> {pipe_channel_message e, stream_message e}"
  shows "(\<exists>s'. spawn_server_main e argv create ch fread
      (of_flushed (fold (\<lambda>m f. spawn_client_message e f m) ms f)) c =
      (case then_disconnect ch (deliver_all ch c1 ms) of (x, c') \<Rightarrow> Some (x, s', c'))) \<and>
    (\<exists>s'. spawn_client_thread e outbound ch fread (of_flushed (fold (\<lambda>m f. message f m) ms f)) c =
      (case (if outbound then then_disconnect ch (deliver_all ch c ms) else deliver_all ch c ms) of
         (x, c') \<Rightarrow> Some (x, s', c')))"
proof -
  have flushed: "id (of_flushed (fold (\<lambda>m f. spawn_client_message e f m) ms f)) = concat (map (frame e False) ms)"
    "id (of_flushed (fold (\<lambda>m f. message f m) ms f)) = concat (map (frame e False) ms)"
    using assms(1,5) pipe_in.sends_frames [OF assms(2,3), of e] pipe_out.sends_frames [OF assms(2,3), of e]
      stream_out.sends_frames [OF assms(2,3), of e] by auto
  note ends = file_source.byte_source_axioms
  show ?thesis
    using spawn_server_main_frames [OF ends flushed(1) assms(3), where create_session = create and argv = argv,
        OF assms(4)] spawn_client_thread_frames [OF ends flushed(2) assms(3)]
    by (intro conjI)
qed

theorem pipe_messages_round_trip_witness:
  "\<exists>s'. spawn_server_main Little_endian [''server'', ''-v''] (\<lambda>as c. Inr [Message (replicate (length as) 1)])
     recorder fread (of_flushed (fold (\<lambda>m f. spawn_client_message Little_endian f m) [[5], []]
       \<lparr>of_buffered = [], of_flushed = []\<rparr>)) [] =
     Some (None, s', [Message [1], Message [5], Message [], Disconnect])"
  using pipe_messages_round_trip [of "\<lparr>of_buffered = [], of_flushed = []\<rparr>" "[[5], []]"
      "\<lambda>as c. Inr [Message (replicate (length as) 1)]" "[''server'', ''-v'']" "[]" "[Message [1]]"
      "pipe_channel_message Little_endian" Little_endian recorder True]
  by (simp add: deliver_all_recorder file_sent_def)

text \<open>
  C34. A payload of any size on a pipe: the header holds its length modulo \<open>2 ^ 32\<close>, yet all of the
  payload is written. The receiver takes the first part for the message and the rest, which is
  not empty from \<open>2 ^ 32\<close> bytes on, for further frames.
\<close>

theorem pipe_oversized_payload:
  fixes m :: bytes
  defines "n \<equiv> length m mod 2 ^ 32"
  shows "\<exists>s'. read_messages e False fread ch
      (of_flushed (pipe_channel_message e \<lparr>of_buffered = [], of_flushed = []\<rparr> m)) c =
    (case deliver_all ch c
        (take n m # split_frames (header_value e False) (take n m) (drop n m)) of
       (x, c') \<Rightarrow> Some (x, s', c'))"
proof -
  have n: "n = cast_uint (length m)" "n \<le> length m"
    using cast_uint_le [of "length m"] by (simp_all add: n_def cast_uint_def)
  have "of_flushed (pipe_channel_message e \<lparr>of_buffered = [], of_flushed = []\<rparr> m) =
      frame_header e False n @ m"
    by (simp add: pipe_channel_message_sent n(1) file_sent_def)
  moreover have "header_value e False (frame_header e False n) = n"
    by (rule header_value_frame_header) (simp add: n_def)
  ultimately show ?thesis
    using file_source.read_messages_delivers [of e False ch "frame_header e False n @ m" c] n(2)
    by (simp add: split_frames_header Let_def min_absorb2)
qed

section \<open>The client's session\<close>

text \<open>
  C1. Whatever a caller does who subscribes to an id only while nobody else does, names no
  response id twice in one request and draws fewer than \<open>2 ^ 64\<close> tokens: every callback has one
  owning handle, and no operation erases an element that is gone or is otherwise undefined.
\<close>

theorem client_session_invariant:
  assumes "outbound_keeps out" and "client_reach cd out c" and "op_allowed a c"
  shows "client_inv c \<and> client_do cd out a c \<noteq> Inl Undefined_behaviour \<and>
    (\<forall>c'. client_do cd out a c = Inr c' \<longrightarrow> client_inv c')"
  using client_reach_inv [OF assms(1,2)] client_do_ok [OF _ assms(3,1)] by blast

theorem client_session_invariant_witness:
  "client_do fixed_codec log_outbound (Request 0 5 [1] 6 ''cb'') client_ctor \<noteq> Inl Undefined_behaviour"
  using client_session_invariant [OF outbound_keeps_log client_reach.start,
      of "Request 0 5 [1] 6 ''cb''" fixed_codec]
  by (simp add: client_ctor_def)

text \<open>
  C2. Callbacks that use the session which calls them, for callbacks and users that subscribe to an id
  only while nobody else does (what two subscriptions do is below), name no response id twice in one
  request and draw fewer than \<open>2 ^ 64\<close> tokens. Whatever requests they make, whichever handles they let
  go of, and whenever messages arrive from within an outbound call: the ownership invariant holds after
  every turn, also when a channel throws, and a turn is undefined in exactly two cases. A callback goes
  on after the element it lives in has been erased; or a channel reads the bytes of a request after
  another has been serialized into the same buffer. Otherwise what it reads is what was serialized. If
  channels have read their message before they let another in, the second case does not occur.
\<close>

theorem callbacks_use_session:
  assumes "reentrant_reach polite cd body m" and "event_allowed e m" and "polite \<longrightarrow> reads_first e m"
  shows "client_inv (cm_session m) \<and>
    (turn cd body e m = None \<longleftrightarrow> e = Perform \<and> outlived m \<or> e = Outbound_reads \<and> overwritten m) \<and>
    (\<forall>x m'. turn cd body e m = Some (x, m') \<longrightarrow> client_inv (cm_session m')) \<and>
    (\<forall>n bs fs. cm_frames m = Outbound (Unread n bs) # fs \<longrightarrow> \<not> overwritten m \<longrightarrow>
      turn cd body Outbound_reads m = Some (None, m\<lparr>cm_session := (cm_session m)\<lparr>cs_outbound_log :=
        cs_outbound_log (cm_session m) @ [Message bs]\<rparr>, cm_frames := Outbound Has_read # fs\<rparr>)) \<and>
    (polite \<longrightarrow> \<not> overwritten m)"
proof -
  have inv: "machine_inv polite m" using reentrant_reach_inv [OF assms(1)] .
  then have "client_inv (cm_session m)" by (simp add: machine_inv_def)
  moreover have "polite \<longrightarrow> \<not> overwritten m" using inv by (cases polite) (simp_all add: machine_inv_not_overwritten)
  ultimately show ?thesis
    using turn_ok [OF inv assms(2,3), of cd body] outbound_reads_ok [OF inv] by (auto simp: machine_inv_def)
qed

theorem callbacks_use_session_witness:
  "turn fixed_codec (\<lambda>cb d. ([Request 0 5 [2] 7 ''cb''], None)) Outbound_reads
     \<lparr>cm_session = client_ctor\<lparr>cs_buffer := enc_id fixed_codec 5 @ enc_token fixed_codec 1 @ [1], cs_token := 2,
        cs_callbacks := [(0, Cb_key 6 1, ''cb'')], cs_next_node := 1,
        cs_handles := (\<lambda>_. [])(0 := [Erase_callback 0])\<rparr>,
      cm_frames = [Outbound (Unread 1 (enc_id fixed_codec 5 @ enc_token fixed_codec 1 @ [1]))],
      cm_written = 1\<rparr> \<noteq> None"
proof -
  let ?body = "\<lambda>cb d. ([Request 0 5 [2] 7 ''cb''], None)" and ?call = "Call (Request 0 5 [1] 6 ''cb'')"
  let ?bytes = "enc_id fixed_codec 5 @ enc_token fixed_codec 1 @ [1]"
  let ?m = "\<lparr>cm_session = client_ctor\<lparr>cs_buffer := ?bytes, cs_token := 2, cs_callbacks := [(0, Cb_key 6 1, ''cb'')],
      cs_next_node := 1, cs_handles := (\<lambda>_. [])(0 := [Erase_callback 0])\<rparr>,
    cm_frames = [Outbound (Unread 1 ?bytes)], cm_written = 1\<rparr>"
  have "turn fixed_codec ?body ?call (at_rest 0 client_ctor) = Some (None, ?m)"
    by (simp add: client_ctor_def request_prepare_def request_ctor_def insert_callback_def reset_handle_def
        set_handle_def goes_on_def start_message_def at_rest_def Let_def)
  from reentrant_reach.step [OF reentrant_reach.start _ _ this, where polite = True]
  have "reentrant_reach True fixed_codec ?body ?m" by (simp add: client_ctor_def)
  from callbacks_use_session [OF this, of Outbound_reads] show ?thesis by simp
qed

text \<open>
  C20. A callback may ask again through the handle that holds its own request, as its last act: it is
  called once, the new request is sent and pending under the next token, the handle holds it, and
  the old one is forgotten. A callback that lets its own request go and then does anything at all
  with the session is undefined.
\<close>

theorem request_from_callback:
  assumes "client_inv c" and "cs_token c \<noteq> - 1" and "codec_ok cd" and "int32 r"
    and "smap_lookup (cs_message_callbacks c) r = None"
    and "(n, Cb_key r t, cb) \<in> set (cs_callbacks c)" and "cs_handles c h = [Erase_callback n]"
  shows "(body cb d = ([Request h i payload r cb], None) \<longrightarrow>
      (\<exists>c'. turns cd body
          [Arrive (enc_id cd r @ enc_token cd t @ d), Perform, Outbound_reads, Outbound_returns, End_callback]
          (at_rest k c) = Some (None, at_rest (Suc k) c') \<and>
        client_inv c' \<and> cs_calls c' = cs_calls c @ [(cb, d)] \<and>
        cs_outbound_log c' = cs_outbound_log c @ [Message (enc_id cd i @ enc_token cd (cs_token c) @ payload)] \<and>
        (cs_next_node c, Cb_key r (cs_token c), cb) \<in> set (cs_callbacks c') \<and>
        cs_handles c' h = [Erase_callback (cs_next_node c)] \<and>
        smap_lookup (cs_callbacks c') (Cb_key r t) = None)) \<and>
    (\<forall>a as. fst (body cb d) = Release h # a # as \<longrightarrow>
      turns cd body
        [Arrive (enc_id cd r @ enc_token cd t @ d), Perform, Perform] (at_rest k c) = None)"
  using callback_asks_again [OF assms, of body d i payload k]
    callback_outlives_itself [OF assms(1,3-7), of body d _ _ k] by blast

theorem request_from_callback_witness:
  "\<exists>c c'. request fixed_codec log_outbound 0 5 [] 7 ''cb'' client_ctor = Inr c \<and>
     turns fixed_codec (\<lambda>cb d. ([Request 0 5 [] 7 ''cb''], None))
       [Arrive (enc_id fixed_codec 7 @ enc_token fixed_codec 1 @ [42]), Perform, Outbound_reads, Outbound_returns,
        End_callback] (at_rest 0 c) = Some (None, at_rest 1 c') \<and> cs_calls c' = [(''cb'', [42])]"
proof -
  obtain c2 m where c2: "request fixed_codec log_outbound 0 5 [] 7 ''cb'' client_ctor =
      lift_exn (ch_message log_outbound c2 m)" "client_inv c2" "cs_token c2 = 2"
      "cs_handles c2 0 = [Erase_callback 0]" "(0, Cb_key 7 1, ''cb'') \<in> set (cs_callbacks c2)"
      "smap_lookup (cs_message_callbacks c2) 7 = None" "cs_calls c2 = []"
    using request_ok [OF client_inv_ctor, of fixed_codec log_outbound 0 5 "[]" 7 "''cb''"]
    by (auto simp: client_ctor_def drop_owned_None)
  let ?c = "c2\<lparr>cs_outbound_log := cs_outbound_log c2 @ [Message m]\<rparr>"
  have "client_inv ?c" using outbound_keeps_log c2(2) by (auto simp: outbound_keeps_def log_outbound_def)
  moreover have "request fixed_codec log_outbound 0 5 [] 7 ''cb'' client_ctor = Inr ?c"
    unfolding c2(1) by (simp add: lift_exn_def log_outbound_def)
  ultimately show ?thesis
    using request_from_callback [of ?c fixed_codec 7 0 1 "''cb''" 0 "\<lambda>cb d. ([Request 0 5 [] 7 ''cb''], None)"
        "[42]" 5 "[]" 0] c2(3-7)
    by (auto simp: fixed_codec_ok int32_def simp del: turns.simps)
qed

text \<open>
  C19. A request registers its callback before it sends: even when the answer comes back from
  within the sending, before \<^verbatim>\<open>request\<close> returns, it reaches the callback, with the payload that
  follows the token.
\<close>

theorem request_synchronous_response:
  assumes "client_inv c" and "cs_token c \<noteq> - 1" and "codec_ok cd" and "int32 r"
    and "smap_lookup (cs_message_callbacks c) r = None"
    and "\<And>c'. ch_message out c' (enc_id cd i @ enc_token cd (cs_token c) @ payload) =
      client_message cd c' (enc_id cd r @ enc_token cd (cs_token c) @ body)"
  shows "\<exists>c2. request cd out h i payload r cb c = Inr c2 \<and> client_inv c2 \<and>
    cs_calls c2 = cs_calls c @ [(cb, body)]"
proof -
  obtain c2 where c2: "request cd out h i payload r cb c =
      lift_exn (client_message cd c2 (enc_id cd r @ enc_token cd (cs_token c) @ body))"
    "client_inv c2" "smap_lookup (cs_callbacks c2) (Cb_key r (cs_token c)) = Some cb"
    "cs_message_callbacks c2 = cs_message_callbacks (drop_owned (cs_handles c h) c)"
    "cs_calls c2 = cs_calls c"
    using request_ok [OF assms(1,2), of cd out h i payload r cb] assms(6) by auto
  have "maps_ok c2" using c2(2) by (simp add: client_inv_def)
  from client_message_response [OF assms(3,4) this _ c2(3)] c2(4) assms(5)
  have "client_message cd c2 (enc_id cd r @ enc_token cd (cs_token c) @ body) = Inr (invoke cb body c2)"
    by (simp add: drop_owned_None)
  with c2 invoke_inv [OF c2(2)] show ?thesis by (simp add: lift_exn_def invoke_def)
qed

theorem request_synchronous_response_witness:
  "\<exists>c2. request fixed_codec
      \<lparr>ch_disconnect = (\<lambda>c. c),
       ch_message = (\<lambda>c m. client_message fixed_codec c (enc_id fixed_codec 7 @ enc_token fixed_codec 1 @ [42]))\<rparr>
      0 5 [] 7 ''cb'' client_ctor = Inr c2 \<and> cs_calls c2 = [(''cb'', [42])]"
  using request_synchronous_response [OF client_inv_ctor, of fixed_codec 7
      "\<lparr>ch_disconnect = (\<lambda>c. c), ch_message =
        (\<lambda>c m. client_message fixed_codec c (enc_id fixed_codec 7 @ enc_token fixed_codec 1 @ [42]))\<rparr>"
      5 "[]" "[42]" 0 "''cb''"]
  by (auto simp: client_ctor_def fixed_codec_ok int32_def)

text \<open>
  C18. What a received message does, in terms of the two mappings only: a subscription to its id
  takes it with all that follows the id; otherwise, if a response with this id is awaited at
  all, the token is read and the callback that awaits this id and token is called; in any other
  case nothing happens. An exception is one of the deserialization and changes nothing.
\<close>

theorem client_message_refines_dispatch:
  assumes "outbound_keeps out" and "client_reach cd out c"
  shows "client_message cd c payload =
    map_sum id (\<lambda>call. case call of None \<Rightarrow> c | Some (cb, d) \<Rightarrow> invoke cb d c)
      (dispatch cd (smap_lookup (cs_message_callbacks c)) (smap_lookup (cs_callbacks c)) payload)"
  using client_reach_inv [OF assms] by (intro client_message_dispatch) (simp add: client_inv_def)

theorem client_message_refines_dispatch_witness:
  "client_message fixed_codec (client_ctor :: string client_session) [1, 2, 3] =
     Inl (Insufficient_buffer_error 4 3)"
  using client_message_refines_dispatch [OF outbound_keeps_log client_reach.start,
      of fixed_codec "[1, 2, 3]" , where 'a = string]
  by (simp add: dispatch_def fixed_codec_def read_spec_def)


text \<open>
  C37. Two subscriptions to one id: the second callback is dropped without notice, the two handles
  own one element, and after the first has been released the release of the second erases it
  again, which is undefined behaviour.
\<close>

theorem double_subscription_erases_twice:
  assumes "client_inv c" and "smap_lookup (cs_message_callbacks c) i = None"
    and "h1 \<noteq> h2" and "cs_handles c h2 = []"
  shows "\<exists>c1 c2 c3. subscribe h1 i cb1 c = Inr c1 \<and> subscribe h2 i cb2 c1 = Inr c2 \<and>
    smap_lookup (cs_message_callbacks c2) i = Some cb1 \<and>
    release_handle h1 c2 = Inr c3 \<and> release_handle h2 c3 = Inl Undefined_behaviour"
proof -
  note sub = subscribe_ok [OF assms(1,2), of h1 cb1]
  then obtain c1 where c1: "subscribe h1 i cb1 c = Inr c1" "client_inv c1"
      "(cs_next_node c, i, cb1) \<in> set (cs_message_callbacks c1)"
      "cs_handles c1 = (cs_handles c)(h1 := [Erase_message_callback (cs_next_node c)])"
    by blast
  let ?d = "Erase_message_callback (cs_next_node c)"
  let ?c2 = "set_handle h2 [?d] (c1\<lparr>cs_next_node := cs_next_node c1 + 1\<rparr>)"
  have c2: "subscribe h2 i cb2 c1 = Inr ?c2"
    using c1(4) assms(3,4) by (intro subscribe_taken [OF c1(2,3)]) simp
  have "cs_next_node c \<in> smap_nodes (cs_message_callbacks c1)"
    using c1(3) by (force simp: smap_nodes_def)
  moreover have "cs_next_node c \<notin> smap_nodes (filter (\<lambda>e. fst e \<noteq> cs_next_node c) (cs_message_callbacks c1))"
    by (simp add: smap_filter_nodes)
  moreover have "smap_lookup (cs_message_callbacks ?c2) i = Some cb1"
    using c1(2,3) by (auto simp: client_inv_def maps_ok_def intro: smap_lookup_in)
  ultimately show ?thesis
    using c1 c2 assms(3) by (auto simp: release_handle_def smap_erase_def set_handle_def)
qed

theorem double_subscription_erases_twice_witness:
  "\<exists>c1 c2 c3. subscribe 0 9 ''a'' client_ctor = Inr c1 \<and> subscribe 1 9 ''b'' c1 = Inr c2 \<and>
     release_handle 0 c2 = Inr c3 \<and> release_handle 1 c3 = Inl Undefined_behaviour"
  using double_subscription_erases_twice [OF client_inv_ctor, of 9 0 1 "''a''" "''b''"]
  by (auto simp: client_ctor_def)


section \<open>The server's session\<close>

text \<open>
  C21. A request for which there is a handler, which raises nothing and defers only if there is
  a queue: all it responds and notifies is sent, in its order, the responses under the token of
  the request; what it defers last is scheduled under the same token.
\<close>

theorem server_answers_request:
  assumes "codec_ok cd" and "int32 i" and "ss_handlers s i = Some h" and "h body = Inr as"
    and "\<forall>x. Raise x \<notin> set as" and "last_defer as = None \<or> ss_apartment_queue s \<noteq> None"
  shows "\<exists>s'. server_message cd recorder s (enc_id cd i @ enc_token cd t @ body) = (None, s') \<and>
    ss_outbound s' = ss_outbound s @ map Message (sends cd t as) \<and>
    ss_handlers s' = ss_handlers s \<and>
    ss_apartment_queue s' = (case last_defer as of
        None \<Rightarrow> ss_apartment_queue s
      | Some k \<Rightarrow> map_option (\<lambda>q. q @ [(t, k)]) (ss_apartment_queue s))"
proof -
  have "last_defer as = None \<or> resp_deferral_enabled (response_ctor t (ss_apartment_queue s \<noteq> None))"
    using assms(6) by (simp add: response_ctor_def)
  from run_and_schedule_recorder [OF assms(5) this, of cd s]
  show ?thesis by (auto simp: server_message_known [OF assms(1-4)] split: option.split)
qed

theorem server_answers_request_witness:
  "\<exists>s'. server_message fixed_codec recorder
      (add_handler 5 (handler_thunk0 [Respond 6 [1], Defer [Respond 6 [2]]]) (server_ctor [] True))
      (enc_id fixed_codec 5 @ enc_token fixed_codec 3 @ []) = (None, s') \<and>
    ss_outbound s' = [Message (enc_id fixed_codec 6 @ enc_token fixed_codec 3 @ [1])] \<and>
    ss_apartment_queue s' = Some [(3, [Respond 6 [2]])]"
  using server_answers_request [OF fixed_codec_ok, of 5
      "add_handler 5 (handler_thunk0 [Respond 6 [1], Defer [Respond 6 [2]]]) (server_ctor [] True)"
      "handler_thunk0 [Respond 6 [1], Defer [Respond 6 [2]]]" "[]"
      "[Respond 6 [1], Defer [Respond 6 [2]]]" 3]
  by (auto simp: int32_def add_handler_def handler_thunk0_def server_ctor_def)

text \<open>
  C22. The table of handlers holds objects that keep the argument of the last request and deserialize
  the next one into it. If deserializing overwrites what was there, such a session behaves like one
  whose table holds functions of the request: for every sequence of requests the same is thrown,
  sent and scheduled.
\<close>

theorem thunks_are_stateless:
  assumes "\<forall>(i, r) \<in> set rs. registration_ok r"
  shows "\<exists>xs t H T. object_messages cd out (register_objects rs (server_ctor o' apartment, \<lambda>_. None)) ps =
      (xs, t, H) \<and>
    server_messages cd out (register_functions rs (server_ctor o' apartment)) ps =
      (xs, t\<lparr>ss_handlers := T\<rparr>)"
proof -
  let ?s = "(server_ctor o' apartment, \<lambda>_. None)"
  let ?t = "server_ctor o' apartment"
  let ?T = "ss_handlers (register_functions rs ?t)"
  have "behave_as (snd ?s) (ss_handlers ?t)" and "?t = with_table (ss_handlers ?t) (fst ?s)"
    by (simp_all add: behave_as_def server_ctor_def with_table_def)
  from register_behaves [OF this(1) assms this(2)]
  have reg: "behave_as (snd (register_objects rs ?s)) ?T" "fst (register_objects rs ?s) = ?t"
    "register_functions rs ?t = with_table ?T ?t" by simp_all
  obtain xs t H where "object_messages cd out (?t, snd (register_objects rs ?s)) ps = (xs, t, H)"
    and "server_messages cd out (with_table ?T ?t) ps = (xs, with_table ?T t)"
    using object_messages_refine [OF reg(1), of cd out ?t ps] by blast
  then show ?thesis
    using reg(2,3) by (metis prod.collapse with_table_def)
qed

theorem thunks_are_stateless_witness:
  "\<exists>xs t H T. object_messages fixed_codec recorder
      (register_objects [(5, With_argument (\<lambda>a p. Inr (p, [])) (\<lambda>a. ([Respond 6 a], a)) [])]
        (server_ctor [] False, \<lambda>_. None))
      [enc_id fixed_codec 5 @ enc_token fixed_codec 1 @ [7]] = (xs, t, H) \<and>
    server_messages fixed_codec recorder
      (register_functions [(5, With_argument (\<lambda>a p. Inr (p, [])) (\<lambda>a. ([Respond 6 a], a)) [])]
        (server_ctor [] False))
      [enc_id fixed_codec 5 @ enc_token fixed_codec 1 @ [7]] = (xs, t\<lparr>ss_handlers := T\<rparr>)"
  by (rule thunks_are_stateless) (simp add: overwrites_def)

text \<open>
  C3. Handlers that respond step by step, register handlers and are interrupted by further requests and
  by tasks of the queue while the channel sends what they respond: if no channel lets a request in
  before it has read the bytes it is to send, and none reads an argument into, or replaces, the thunk of
  a handler that still needs it, then nothing is undefined, however deep they nest and whatever throws. Every
  handler sends under the token of its own request what it would send by itself, from the beginning
  on, all of it if it returns; what it has deferred last is then scheduled once; and what has been
  scheduled either has been run, under the token of its request, or is still in the queue, once.
\<close>

theorem nested_handlers_are_undisturbed:
  assumes "orderly_turns cd es (with_handlers hs (handler_machine_init apartment))"
  shows "\<exists>m. handler_turns cd es (with_handlers hs (handler_machine_init apartment)) = Some m \<and>
    (\<forall>r. undisturbed cd (of_run r (hm_log m))) \<and>
    mset (scheduled_in (hm_log m)) = mset (tasks_in (hm_log m)) + mset (queued_actions m)"
proof -
  obtain m where m: "handler_turns cd es (with_handlers hs (handler_machine_init apartment)) = Some m"
    "handlers_inv cd m"
    using handler_turns_inv [OF with_handlers_init(1) assms] by blast
  moreover have "queue_inv m" using handler_turns_queue [OF with_handlers_init(2) m(1)] .
  ultimately show ?thesis using handlers_inv_parts(6) [OF m(2)] by (auto simp: queue_inv_def)
qed

theorem nested_handlers_are_undisturbed_witness:
  "\<exists>m. handler_turns fixed_codec
      [Request_arrives (enc_id fixed_codec 5 @ enc_token fixed_codec 1 @ [77]),
       Handler_performs, Handler_performs, Channel_reads,
       Request_arrives (enc_id fixed_codec 9 @ enc_token fixed_codec 2 @ [0]),
       Handler_performs, Channel_reads, Channel_returns, Handler_performs,
       Channel_returns, Handler_performs, Handler_performs, Channel_reads, Channel_returns,
       Handler_performs, Handler_performs]
      (with_handlers
        [(5, Some (\<lambda>a p. Inr (p, [])), Look (\<lambda>v. Responds 6 v (Look (\<lambda>w. Responds 7 w
            (Defers [] (Responds 8 [9] Finish) Finish)))), []),
         (9, None, Notifies 3 [4] Finish, [])] (handler_machine_init True)) = Some m \<and>
    (\<forall>r. undisturbed fixed_codec (of_run r (hm_log m))) \<and>
    mset (scheduled_in (hm_log m)) = mset (tasks_in (hm_log m)) + mset (queued_actions m)"
  by (rule nested_handlers_are_undisturbed)
    (simp add: with_handlers_def handler_machine_init_def put_thunk_def request_of_enc fixed_codec_ok int32_def
      can_enter_def bytes_unread_def request_arrives_def load_argument_def enter_run_def handler_performs_def
      seen_value_def start_sending_def channel_reads_def channel_returns_def return_from_def Let_def)

text \<open>
  C23. Deferred work: in whatever order the queue runs its tasks, and the tasks these schedule, a run
  is over after exactly \<open>pending_runs\<close> of them, a number that is known before the first one has run;
  until then a task can run. When it is over, the same messages have been sent whatever the order
  was, under the tokens of their requests.
\<close>

theorem deferred_work_ends:
  assumes "queue_calm s" and "(task_step cd recorder ^^ n) s t"
  shows "n \<le> pending_runs s \<and> (n = pending_runs s \<longleftrightarrow> ss_apartment_queue t = Some []) \<and>
    (n < pending_runs s \<longrightarrow> (\<exists>u. task_step cd recorder t u)) \<and>
    (n = pending_runs s \<longrightarrow>
      mset (ss_outbound t) = mset (ss_outbound s) + image_mset Message (pending_sends cd s))"
proof -
  have t: "queue_calm t" "pending_runs s = n + pending_runs t"
    using task_steps_bounded [OF assms(2,1)] by simp_all
  have "mset (ss_outbound t) = mset (ss_outbound s) + image_mset Message (pending_sends cd s)"
    if "ss_apartment_queue t = Some []"
    using task_steps_conserve [OF relpowp_imp_rtranclp [OF assms(2)] assms(1)] that
    by (simp add: pending_sends_def)
  with t pending_runs_0 [OF t(1)] task_step_progress [OF t(1), of cd] show ?thesis by auto
qed

theorem deferred_work_ends_witness:
  "\<exists>t. task_step fixed_codec recorder
      ((server_ctor [] True)\<lparr>ss_apartment_queue := Some [(3, [Notify 6 [2]])]\<rparr>) t \<and>
    mset (ss_outbound t) = {# Message (enc_id fixed_codec 6 @ [2]) #}"
proof -
  let ?s = "(server_ctor ([] :: channel_event list) True)\<lparr>ss_apartment_queue := Some [(3 :: u64, [Notify 6 [2]])]\<rparr>"
  have calm: "queue_calm ?s" by (simp add: queue_calm_def calm.simps [of "[Notify 6 [2]]"])
  have runs: "pending_runs ?s = 1" by (simp add: pending_runs_def runs.simps [of "[Notify 6 [2]]"])
  have "(task_step fixed_codec recorder ^^ 0) ?s ?s" by simp
  from deferred_work_ends [OF calm this] runs obtain t where t: "task_step fixed_codec recorder ?s t" by auto
  then have "(task_step fixed_codec recorder ^^ 1) ?s t" by (simp only: relpowp_1)
  note ends = deferred_work_ends [OF calm this]
  have "mset (ss_outbound t) = mset (ss_outbound ?s) + image_mset Message (pending_sends fixed_codec ?s)"
    using ends runs [symmetric] by blast
  then have "mset (ss_outbound t) = {# Message (enc_id fixed_codec 6 @ [2]) #}"
    by (simp add: pending_sends_def all_sends.simps [of _ _ "[Notify 6 [2]]"] server_ctor_def)
  with t show ?thesis by blast
qed

section \<open>Remote calls from end to end\<close>

text \<open>
  C4. Remote calls through a spawned server, from the client session to the handlers and back. The
  client makes any number of requests, each through a handle of its own, while fewer than
  \<open>2 ^ 64\<close> tokens have been drawn; the server's \<^verbatim>\<open>main\<close> reads them out of its standard input and runs
  its handlers, which respond; the client's thread reads the responses. Then each callback has been
  called once, in the order of the calls, with what the handler of its own request has answered.
\<close>

theorem remote_calls_over_pipes:
  fixes calls :: "'cb call list"
  assumes "client_inv c" and "unat (cs_token c) + length calls < 2 ^ 64" and "distinct (map cl_handle calls)"
    and "codec_ok cd" and "create (tl argv) s0 = Inr s" and "ss_outbound s = \<lparr>of_buffered = [], of_flushed = []\<rparr>"
    and "\<forall>k \<in> set calls. int32 (cl_request k) \<and> int32 (cl_response k) \<and> served (ss_handlers s) k \<and>
      smap_lookup (cs_message_callbacks c) (cl_response k) = None"
    and "\<forall>k \<in> set calls. \<forall>t. length (request_bytes cd t k) < 2 ^ 32 \<and> length (response_bytes cd t k) < 2 ^ 32"
  defines "requests \<equiv> numbered (request_bytes cd) (cs_token c) calls"
  shows "\<exists>c2 s2 c3 rest rest'. issue cd calls c = Inr c2 \<and>
    cs_outbound_log c2 = cs_outbound_log c @ map Message requests \<and>
    spawn_server_main e argv create (server_channel cd (pipe_channel e)) fread
      (of_flushed (fold (\<lambda>m f. spawn_client_message e f m) requests \<lparr>of_buffered = [], of_flushed = []\<rparr>)) s0 =
      Some (None, rest, s2) \<and>
    spawn_client_thread e outbound (client_channel cd) fread (of_flushed (ss_outbound s2)) c2 =
      Some (None, rest', c3) \<and>
    cs_calls c3 = cs_calls c @ map (\<lambda>k. (cl_callback k, cl_body k)) calls"
proof -
  have small: "\<forall>m \<in> set requests. length m < 2 ^ 32"
    "\<forall>m \<in> set (numbered (response_bytes cd) (cs_token c) calls). length m < 2 ^ 32"
    unfolding requests_def using assms(8) by (auto intro!: numbered_all)
  obtain c2 where c2: "issue cd calls c = Inr c2" "client_inv c2" "awaits_all c2 (cs_token c) calls"
      "cs_outbound_log c2 = cs_outbound_log c @ map Message requests" "cs_calls c2 = cs_calls c"
      "\<forall>r. smap_lookup (cs_message_callbacks c) r = None \<longrightarrow> smap_lookup (cs_message_callbacks c2) r = None"
    using issue_ok [OF assms(1-3), of cd] assms(7) unfolding requests_def by blast
  obtain s2 rest where s2: "spawn_server_main e argv create (server_channel cd (pipe_channel e)) fread
      (of_flushed (fold (\<lambda>m f. spawn_client_message e f m) requests \<lparr>of_buffered = [], of_flushed = []\<rparr>)) s0 =
      Some (None, rest, s2)"
    "ss_outbound s2 = fold (\<lambda>m f. pipe_channel_message e f m)
      (numbered (response_bytes cd) (cs_token c) calls) \<lparr>of_buffered = [], of_flushed = []\<rparr>"
    using server_main_answers [OF assms(4) _ small(1) [unfolded requests_def], where create = create
        and argv = argv and e = e and f = "\<lparr>of_buffered = [], of_flushed = []\<rparr>", OF _ assms(5)] assms(6,7)
    unfolding requests_def by (auto simp: file_sent_def)
  obtain c3 rest' where "spawn_client_thread e outbound (client_channel cd) fread (of_flushed (ss_outbound s2)) c2 =
      Some (None, rest', c3)" "cs_calls c3 = cs_calls c2 @ map (\<lambda>k. (cl_callback k, cl_body k)) calls"
    using client_thread_calls_back [OF assms(4) _ c2(2,3) small(2), of "\<lparr>of_buffered = [], of_flushed = []\<rparr>"
        e outbound] assms(7) c2(6) s2(2)
    by (auto simp: file_sent_def)
  with c2 s2(1) show ?thesis by auto
qed

theorem remote_calls_over_pipes_witness:
  "\<exists>c2 s2 c3 rest rest'. issue fixed_codec
      [\<lparr>cl_handle = 0, cl_request = 5, cl_payload = [1], cl_response = 7, cl_callback = ''a'', cl_body = [42]\<rparr>,
       \<lparr>cl_handle = 1, cl_request = 5, cl_payload = [2], cl_response = 7, cl_callback = ''b'', cl_body = [42]\<rparr>]
      client_ctor = Inr c2 \<and>
    spawn_client_thread Big_endian True (client_channel fixed_codec) fread (of_flushed (ss_outbound s2)) c2 =
      Some (None, rest', c3) \<and>
    spawn_server_main Big_endian [''server''] (\<lambda>as. Inr) (server_channel fixed_codec (pipe_channel Big_endian)) fread
      (of_flushed (fold (\<lambda>m f. spawn_client_message Big_endian f m)
        (numbered (request_bytes fixed_codec) 1
          [\<lparr>cl_handle = 0, cl_request = 5, cl_payload = [1], cl_response = 7, cl_callback = ''a'', cl_body = [42]\<rparr>,
           \<lparr>cl_handle = 1, cl_request = 5, cl_payload = [2], cl_response = 7, cl_callback = ''b'', cl_body = [42]\<rparr>])
        \<lparr>of_buffered = [], of_flushed = []\<rparr>))
      (add_handler 5 (handler_thunk0 [Respond 7 [42]]) (server_ctor \<lparr>of_buffered = [], of_flushed = []\<rparr> False)) =
      Some (None, rest, s2) \<and>
    cs_calls c3 = [(''a'', [42]), (''b'', [42])]"
proof -
  let ?calls = "[\<lparr>cl_handle = 0, cl_request = 5, cl_payload = [1], cl_response = 7, cl_callback = ''a'', cl_body = [42]\<rparr>,
       \<lparr>cl_handle = 1, cl_request = 5, cl_payload = [2], cl_response = 7, cl_callback = ''b'', cl_body = [42]\<rparr>] :: string call list"
  let ?s = "add_handler 5 (handler_thunk0 [Respond 7 [42]]) (server_ctor \<lparr>of_buffered = [], of_flushed = []\<rparr> False)"
  have len: "length (enc_id fixed_codec i) = 4" "length (enc_token fixed_codec t) = 8" for i t
    by (simp_all add: fixed_codec_def)
  have "unat (cs_token (client_ctor :: string client_session)) + length ?calls < 2 ^ 64" "distinct (map cl_handle ?calls)"
    by (simp_all add: client_ctor_def)
  moreover have "ss_outbound ?s = \<lparr>of_buffered = [], of_flushed = []\<rparr>" by (simp add: add_handler_def server_ctor_def)
  moreover have "\<forall>k \<in> set ?calls. int32 (cl_request k) \<and> int32 (cl_response k) \<and> served (ss_handlers ?s) k \<and>
      smap_lookup (cs_message_callbacks client_ctor) (cl_response k) = None"
    by (simp add: int32_def served_def add_handler_def handler_thunk0_def client_ctor_def)
  moreover have "\<forall>k \<in> set ?calls. \<forall>t. length (request_bytes fixed_codec t k) < 2 ^ 32 \<and>
      length (response_bytes fixed_codec t k) < 2 ^ 32"
    by (simp add: request_bytes_def response_bytes_def len)
  ultimately show ?thesis
    using remote_calls_over_pipes [OF client_inv_ctor, of ?calls fixed_codec "\<lambda>as. Inr" "[''server'']" ?s ?s
        Big_endian True, OF _ _ fixed_codec_ok refl]
    by (auto simp: client_ctor_def)
qed

text \<open>
  C5. Remote calls through the socket transport, between hosts of any two byte orders: the requests of
  the client session, sent on its socket, are served turn by turn by the session of the connection,
  whose handlers respond on the same connection, and at its end the session is told of the
  disconnection; the client's thread reads the responses, and each callback is called once, in the
  order of the calls, with what the handler of its own request has answered.
\<close>

theorem remote_calls_over_sockets:
  fixes calls :: "'cb call list"
  assumes "client_inv c" and "unat (cs_token c) + length calls < 2 ^ 64" and "distinct (map cl_handle calls)"
    and "codec_ok cd" and "\<forall>k \<in> set calls. int32 (cl_request k) \<and> int32 (cl_response k) \<and>
      served (ss_handlers (sess (sv_world s))) k \<and> smap_lookup (cs_message_callbacks c) (cl_response k) = None"
    and "\<forall>k \<in> set calls. \<forall>t. length (request_bytes cd t k) < 2 ^ 32 \<and> length (response_bytes cd t k) < 2 ^ 32"
    and "byte_sink (\<lambda>w bs. snd (send_c w bs)) sent_c" and "sent_c w0 = []"
    and "recv_stream E fd avail"
    and "hosts_session E fd i (server_channel cd (socket_channel es send_s send_aux i)) sess avail"
    and "avail (sv_world s) = sent_c (fold (\<lambda>m w. socket_client_message ec send_c w m)
      (numbered (request_bytes cd) (cs_token c) calls) w0)"
    and "byte_sink (\<lambda>w bs. snd (send_s w bs)) sent_s" and "sent_s (ss_outbound (sess (sv_world s))) = []"
    and "byte_source recv_c avail_c"
  shows "\<exists>c2 s1. issue cd calls c = Inr c2 \<and>
    cs_outbound_log c2 = cs_outbound_log c @ map Message (numbered (request_bytes cd) (cs_token c) calls) \<and>
    serve_session es E fd i (Suc (length calls)) s = (Inr Remove_this, s1) \<and>
    ss_disconnect_calls (sess (sv_world s1)) = ss_disconnect_calls (sess (sv_world s)) +
      (if ss_disconnect_handler (sess (sv_world s)) then 1 else 0) \<and>
    (\<forall>r. avail_c r = sent_s (ss_outbound (sess (sv_world s1))) \<longrightarrow>
      (\<exists>c3 rest. socket_client_thread ec (client_channel cd) recv_c r c2 = Some (None, rest, c3) \<and>
        cs_calls c3 = cs_calls c @ map (\<lambda>k. (cl_callback k, cl_body k)) calls))"
proof -
  let ?requests = "numbered (request_bytes cd) (cs_token c) calls"
  let ?responses = "numbered (response_bytes cd) (cs_token c) calls"
  have small: "\<forall>m \<in> set ?requests. length m < 2 ^ 32" "\<forall>m \<in> set ?responses. length m < 2 ^ 32"
    using assms(6) by (auto intro!: numbered_all)
  obtain c2 where c2: "issue cd calls c = Inr c2" "client_inv c2" "awaits_all c2 (cs_token c) calls"
      "cs_outbound_log c2 = cs_outbound_log c @ map Message ?requests" "cs_calls c2 = cs_calls c"
      "\<forall>r. smap_lookup (cs_message_callbacks c) r = None \<longrightarrow> smap_lookup (cs_message_callbacks c2) r = None"
    using issue_ok [OF assms(1-3), of cd] assms(5) by blast
  have "avail (sv_world s) = concat (map (frame es True) ?requests)"
    unfolding assms(11)
    using message_sender.sends_frames [OF socket_senders(2) [OF assms(7), of ec es] _ small(1)] assms(8) by simp
  from session_answers [OF assms(4) _ small(1) assms(9,10) this] assms(5)
  obtain s1 where s1: "serve_session es E fd i (Suc (length calls)) s = (Inr Remove_this, s1)"
      "ss_outbound (sess (sv_world s1)) =
        fold (\<lambda>m f. socket_handler_message es send_s f m) ?responses (ss_outbound (sess (sv_world s)))"
      "ss_disconnect_calls (sess (sv_world s1)) = ss_disconnect_calls (sess (sv_world s)) +
        (if ss_disconnect_handler (sess (sv_world s)) then 1 else 0)"
    by blast
  have "\<exists>c3 rest. socket_client_thread ec (client_channel cd) recv_c r c2 = Some (None, rest, c3) \<and>
      cs_calls c3 = cs_calls c @ map (\<lambda>k. (cl_callback k, cl_body k)) calls"
    if r: "avail_c r = sent_s (ss_outbound (sess (sv_world s1)))" for r
  proof -
    have "avail_c r = concat (map (frame ec True) ?responses)"
      unfolding r s1(2) using assms(13)
      using message_sender.sends_frames [OF socket_senders(1) [OF assms(12), of es ec] _ small(2)] by simp
    from socket_client_calls_back [OF assms(4) _ c2(2,3) small(2) assms(14) this] assms(5) c2(5,6)
    show ?thesis by (simp add: numbered_all)
  qed
  with c2(1,4) s1(1,3) show ?thesis by blast
qed

theorem remote_calls_over_sockets_witness:
  "\<exists>c2 s1 c3 rest. issue fixed_codec
      [\<lparr>cl_handle = 0, cl_request = 5, cl_payload = [1], cl_response = 7, cl_callback = ''a'', cl_body = [42]\<rparr>,
       \<lparr>cl_handle = 1, cl_request = 5, cl_payload = [2], cl_response = 7, cl_callback = ''b'', cl_body = [42]\<rparr>]
      client_ctor = Inr c2 \<and>
    serve_session Big_endian
      (channel_env (server_channel fixed_codec (socket_channel Big_endian
        (\<lambda>w bs. (int (length bs), w @ bs)) (\<lambda>w bs. (int (length bs), w)) 102))) 7 102 3
      \<lparr>sv_world = (fold (\<lambda>m w. socket_client_message Little_endian (\<lambda>w bs. (int (length bs), w @ bs)) w m)
         (numbered (request_bytes fixed_codec) 1
            [\<lparr>cl_handle = 0, cl_request = 5, cl_payload = [1], cl_response = 7, cl_callback = ''a'', cl_body = [42]\<rparr>,
             \<lparr>cl_handle = 1, cl_request = 5, cl_payload = [2], cl_response = 7, cl_callback = ''b'', cl_body = [42]\<rparr>]) [],
         set_disconnect_handler (add_handler 5 (handler_thunk0 [Respond 7 [42]]) (server_ctor [] False))),
       sv_aux_socket = 3, sv_next_id = 103, sv_handlers = [], sv_buffer = [], sv_pc = Selecting,
       sv_trace = []\<rparr> = (Inr Remove_this, s1) \<and>
    ss_disconnect_calls (snd (sv_world s1)) = 1 \<and>
    socket_client_thread Little_endian (client_channel fixed_codec) fread (ss_outbound (snd (sv_world s1))) c2 =
      Some (None, rest, c3) \<and>
    cs_calls c3 = [(''a'', [42]), (''b'', [42])]"
proof -
  define ks :: "string call list" where
    "ks = [\<lparr>cl_handle = 0, cl_request = 5, cl_payload = [1], cl_response = 7, cl_callback = ''a'', cl_body = [42]\<rparr>,
       \<lparr>cl_handle = 1, cl_request = 5, cl_payload = [2], cl_response = 7, cl_callback = ''b'', cl_body = [42]\<rparr>]"
  define s where
    "s = \<lparr>sv_world = (fold (\<lambda>m w. socket_client_message Little_endian (\<lambda>w bs. (int (length bs), w @ bs)) w m)
         (numbered (request_bytes fixed_codec) 1 ks) [],
         set_disconnect_handler (add_handler 5 (handler_thunk0 [Respond 7 [42]]) (server_ctor ([] :: bytes) False))),
       sv_aux_socket = 3, sv_next_id = 103, sv_handlers = [], sv_buffer = [], sv_pc = Selecting, sv_trace = []\<rparr>"
  have sink: "byte_sink (\<lambda>w bs :: bytes. snd (int (length bs), w @ bs)) id" by unfold_locales simp
  have len: "length (enc_id fixed_codec i) = 4" "length (enc_token fixed_codec t) = 8" for i t
    by (simp_all add: fixed_codec_def)
  have start: "cs_token (client_ctor :: string client_session) = 1" "cs_calls (client_ctor :: string client_session) = []"
    by (simp_all add: client_ctor_def)
  have session: "ss_outbound (snd (sv_world s)) = []" "ss_disconnect_handler (snd (sv_world s))"
      "ss_disconnect_calls (snd (sv_world s)) = 0"
    by (simp_all add: s_def add_handler_def server_ctor_def set_disconnect_handler_def)
  have room: "unat (cs_token (client_ctor :: string client_session)) + length ks < 2 ^ 64" and dist: "distinct (map cl_handle ks)"
    and calls: "length ks = 2" "map (\<lambda>k. (cl_callback k, cl_body k)) ks = [(''a'', [42]), (''b'', [42])]"
    by (simp_all add: start ks_def)
  have served: "\<forall>k \<in> set ks. int32 (cl_request k) \<and> int32 (cl_response k) \<and>
      served (ss_handlers (snd (sv_world s))) k \<and>
      smap_lookup (cs_message_callbacks (client_ctor :: string client_session)) (cl_response k) = None"
    by (simp add: ks_def s_def int32_def served_def add_handler_def handler_thunk0_def client_ctor_def
        set_disconnect_handler_def)
  have short: "\<forall>k \<in> set ks. \<forall>t. length (request_bytes fixed_codec t k) < 2 ^ 32 \<and>
      length (response_bytes fixed_codec t k) < 2 ^ 32"
    by (simp add: ks_def request_bytes_def response_bytes_def len)
  have stream: "fst (sv_world s) = id (fold (\<lambda>m w. socket_client_message Little_endian
      (\<lambda>w bs. (int (length bs), w @ bs)) w m)
      (numbered (request_bytes fixed_codec) (cs_token (client_ctor :: string client_session)) ks) [])"
    by (simp add: s_def start)
  note calls_back = remote_calls_over_sockets [where c = client_ctor and calls = ks and s = s and sess = snd
      and avail = fst and sent_c = "id :: bytes \<Rightarrow> bytes" and sent_s = "id :: bytes \<Rightarrow> bytes"
      and avail_c = "id :: bytes \<Rightarrow> bytes" and ?w0.0 = "[] :: bytes" and ec = Little_endian
      and es = Big_endian and fd = 7 and i = 102 and send_aux = "\<lambda>(w :: bytes) bs. (int (length bs), w)"
      and send_c = "\<lambda>w bs :: bytes. (int (length bs), w @ bs)"
      and send_s = "\<lambda>w bs :: bytes. (int (length bs), w @ bs)",
      OF client_inv_ctor room dist fixed_codec_ok served short sink _ channel_env_ok stream sink _
        file_source.byte_source_axioms]
  obtain c2 s1 where "issue fixed_codec ks client_ctor = Inr c2"
      "serve_session Big_endian (channel_env (server_channel fixed_codec (socket_channel Big_endian
        (\<lambda>w bs. (int (length bs), w @ bs)) (\<lambda>w bs. (int (length bs), w)) 102))) 7 102 3 s = (Inr Remove_this, s1)"
      "ss_disconnect_calls (snd (sv_world s1)) = 1"
      "\<exists>c3 rest. socket_client_thread Little_endian (client_channel fixed_codec) fread
        (ss_outbound (snd (sv_world s1))) c2 = Some (None, rest, c3) \<and> cs_calls c3 = [(''a'', [42]), (''b'', [42])]"
    using calls_back by (auto simp: calls session start numeral_3_eq_3 simp del: serve_session.simps)
  then show ?thesis unfolding ks_def s_def by blast
qed

section \<open>Reads that can be cancelled\<close>

text \<open>
  C27. Windows: once a call of \<^verbatim>\<open>cancel\<close> has returned, no read returns a count any more that had
  not returned it before, and a read that had not entered by then never gets to the platform:
  it can only throw \<^verbatim>\<open>cancelled_exception\<close>. This holds for any number of threads of both kinds.
  Where reads do not overlap, one that is still inside the platform by then is one that the platform
  has confirmed to have broken off, so that nothing is left waiting for data.
\<close>

theorem win32_cancel_is_final:
  assumes "(win_step overlap)\<^sup>*\<^sup>* win_init s" and "cr_cancels s j = C_done"
    and "(win_step overlap)\<^sup>*\<^sup>* s t"
  shows "(cr_reads t i = W_returned n \<longrightarrow> cr_reads s i = W_returned n) \<and>
    (win_rejected (cr_reads s i) \<longrightarrow> win_rejected (cr_reads t i)) \<and>
    (\<not> overlap \<longrightarrow> cr_reads s i = W_reading \<longrightarrow> i \<in> cr_io_cancelled s)"
proof -
  have "cr_cancelled s"
    using win_reach_done_cancelled [OF assms(1)] assms(2) by (auto simp: win_done_cancelled_def)
  moreover have "i \<in> cr_io_cancelled s" if "\<not> overlap" "cr_reads s i = W_reading"
    using win_reach_inv [of s] assms(1,2) that by (auto simp: win_inv_def)
  ultimately show ?thesis
    using win_steps_no_return [OF assms(3), of i n] win_steps_rejected [OF assms(3), of i] by blast
qed

theorem win32_cancel_is_final_witness:
  "(\<exists>s t. (win_step False)\<^sup>*\<^sup>* win_init s \<and> cr_cancels s 0 = C_done \<and> (win_step False)\<^sup>*\<^sup>* s t \<and>
     cr_reads t 0 = W_threw Cancelled_exception \<and> win_rejected (cr_reads t 0)) \<and>
   (\<exists>s. (win_step False)\<^sup>*\<^sup>* win_init s \<and> cr_cancels s 0 = C_done \<and> cr_reads s 5 = W_reading \<and>
     5 \<in> cr_io_cancelled s)"
proof (intro conjI)
  define s1 where "s1 = set_cancel 0 C_looping win_init"
  define s where "s = win_cancel_turn 0 True s1"
  define t1 where "t1 = set_read 0 W_opened s"
  define t where "t = win_read_enter 0 t1"
  note defs = s1_def s_def t1_def t_def win_init_def win_ops
  have "win_step False win_init s1" unfolding s1_def by (rule win_step.cancel_call) (simp add: win_init_def)
  moreover have "win_step False s1 s" unfolding s_def by (rule win_step.cancel_turn) (simp add: defs)
  ultimately have s: "(win_step False)\<^sup>*\<^sup>* win_init s" by simp
  have "win_step False s t1" unfolding t1_def by (rule win_step.read_open) (simp_all add: defs)
  moreover have "win_step False t1 t" unfolding t_def by (rule win_step.read_enter) (simp add: defs)
  ultimately have t: "(win_step False)\<^sup>*\<^sup>* s t" by simp
  have c: "cr_cancels s 0 = C_done" by (simp add: defs)
  have "win_rejected (cr_reads t 0)"
    using win32_cancel_is_final [OF s c t, of 0] by (simp add: defs win_rejected_def)
  moreover have "cr_reads t 0 = W_threw Cancelled_exception" by (simp add: defs)
  ultimately show "\<exists>s t. (win_step False)\<^sup>*\<^sup>* win_init s \<and> cr_cancels s 0 = C_done \<and> (win_step False)\<^sup>*\<^sup>* s t \<and>
     cr_reads t 0 = W_threw Cancelled_exception \<and> win_rejected (cr_reads t 0)" using s c t by blast
next
  define s1 where "s1 = set_read 5 W_opened win_init"
  define s2 where "s2 = win_read_enter 5 s1"
  define s3 where "s3 = set_cancel 0 C_looping s2"
  define s4 where "s4 = win_cancel_turn 0 False s3"
  define s where "s = win_cancel_turn 0 True s4"
  note defs = s1_def s2_def s3_def s4_def s_def win_init_def win_ops
  have "win_step False win_init s1" unfolding s1_def by (rule win_step.read_open) (simp_all add: win_init_def)
  moreover have "win_step False s1 s2" unfolding s2_def by (rule win_step.read_enter) (simp add: defs)
  moreover have "win_step False s2 s3" unfolding s3_def by (rule win_step.cancel_call) (simp add: defs)
  moreover have "win_step False s3 s4" unfolding s4_def by (rule win_step.cancel_turn) (simp add: defs)
  moreover have "win_step False s4 s" unfolding s_def by (rule win_step.cancel_turn) (simp add: defs)
  ultimately have s: "(win_step False)\<^sup>*\<^sup>* win_init s" by simp
  have c: "cr_cancels s 0 = C_done" "cr_reads s 5 = W_reading" by (simp_all add: defs)
  with win32_cancel_is_final [OF s c(1) rtranclp.rtrancl_refl, of 5] s show "\<exists>s. (win_step False)\<^sup>*\<^sup>* win_init s \<and> cr_cancels s 0 = C_done \<and> cr_reads s 5 = W_reading \<and>
     5 \<in> cr_io_cancelled s"
    by blast
qed

section \<open>Endpoint ids\<close>

text \<open>
  C38. The id made of an address and a port is never cut off by its buffer of 32 characters; it
  selects the socket transport, on either platform, and what that makes of it is the socket address
  with the four bytes of the address and the port in network order, on any host. A host that does not
  begin with a digit, such as a name, is no error: it stands for \<^verbatim>\<open>255.255.255.255\<close>.
\<close>

theorem sockets_endpoint_id_round_trip:
  "connect_client win32 connect (sockets_endpoint_id host port) inbound =
     connect Sockets (print_ip host @ '':'' @ print_dec (unat port)) inbound \<and>
   length (sockets_endpoint_text host port) < 32 \<and>
   (let hp = host_port_ctor (print_ip host @ '':'' @ print_dec (unat port)) dflt;
        a = make_sockaddr_in e (hp_host hp) (hp_port hp)
    in sin_family a = AF_INET \<and> address_bytes e a = ip_bytes host \<and>
       port_bytes e a = network_bytes 2 (unat port)) \<and>
   (\<forall>name c cs. c_str name = c # cs \<longrightarrow> dec_val c = None \<longrightarrow>
     address_bytes e (make_sockaddr_in e name port) = ip_bytes (Ip_v4 255 255 255 255))"
proof -
  have name: "address_bytes e (make_sockaddr_in e name port) = ip_bytes (Ip_v4 255 255 255 255)"
    if "c_str name = c # cs" "dec_val c = None" for name c cs
    using that by (intro name_is_no_address(2)) simp
  have family: "sin_family (make_sockaddr_in e h p) = AF_INET" for h p by (simp add: make_sockaddr_in_def)
  show ?thesis
    unfolding host_port_ctor_print Let_def host_port.select_convs
    using connect_client_sockets_id [of win32 connect host port inbound] name family
      length_sockets_endpoint_text [of host port] address_bytes_print_ip port_bytes_make
    by (intro conjI allI impI) simp_all
qed

theorem sockets_endpoint_id_round_trip_witness:
  "address_bytes Big_endian (make_sockaddr_in Big_endian ''localhost'' 80) = ip_bytes (Ip_v4 255 255 255 255)"
proof -
  have "c_str ''localhost'' = CHR ''l'' # ''ocalhost''" "dec_val (CHR ''l'') = None" by code_simp+
  then show ?thesis
    by (rule sockets_endpoint_id_round_trip [THEN conjunct2, THEN conjunct2, THEN conjunct2, rule_format])
qed

text \<open>
  C39. The text of a GUID is read back as the same GUID, whatever the byte order of the host and
  whatever was in the memory of the result; the id made of it selects COM where COM is compiled
  in and is refused with \<^verbatim>\<open>protocol_not_supported\<close> where it is not.
\<close>

theorem com_endpoint_id_round_trip:
  assumes "guid_ok g" and "guid_ok x"
  shows "guid_from_string e x (guid_to_string e g) = g \<and>
    connect_client True connect (com_endpoint_id e g) inbound = connect Com (guid_to_string e g) inbound \<and>
    connect_client False connect (com_endpoint_id e g) inbound =
      Inl (Protocol_not_supported (c_str (com_endpoint_id e g)))"
  using guid_from_string_to_string [OF assms] connect_client_com_id [OF assms(1)]
    connect_client_com_unsupported by (intro conjI) simp_all

theorem com_endpoint_id_round_trip_witness:
  "guid_from_string Little_endian (replicate 16 7) (guid_to_string Little_endian (replicate 16 255)) =
     replicate 16 255"
  by (rule com_endpoint_id_round_trip [THEN conjunct1]) (simp_all add: guid_ok_def)

section \<open>Ranges and buffers\<close>

text \<open>
  C40. Reading from a buffer: the destination gets the next bytes, the reader keeps the others,
  no other byte of the memory changes; a read of more than is left throws, with both sizes, and
  changes nothing. The destination must not overlap what the reader still holds.
\<close>

theorem buffer_read:
  assumes "disjoint_dest r data (unat sz)"
  shows "if sz \<le> br_remaining r
    then \<exists>m' r'. reader_read m r data sz = Inr (m', r') \<and>
      bytes_at m' data (unat sz) @ reader_bytes m' r' = reader_bytes m r \<and>
      (\<forall>a. (\<nexists>i. i < unat sz \<and> a = data + word_of_nat i) \<longrightarrow> m' a = m a)
    else reader_read m r data sz = Inl (Insufficient_buffer_error sz (br_remaining r))"
proof (cases "sz \<le> br_remaining r")
  case True
  then show ?thesis by (auto elim: reader_read_Inr [OF _ assms, of m])
next
  case False
  then show ?thesis by (simp add: reader_read_Inl)
qed

theorem buffer_read_witness:
  "reader_read (\<lambda>a. 0) \<lparr>br_ptr = 8, br_remaining = 2\<rparr> 100 3 = Inl (Insufficient_buffer_error 3 2)"
proof -
  have "disjoint_dest \<lparr>br_ptr = 8, br_remaining = 2\<rparr> 100 (unat (3 :: size_t))"
    by (rule disjoint_dest_behind) simp_all
  from buffer_read [OF this, of "\<lambda>a. 0"] show ?thesis by simp
qed


section \<open>The socket server\<close>

text \<open>
  C9. In every run of the socket server, with any peers, sessions and other threads: the ids of the
  handlers are distinct, and of each id the sessions' side has seen a life in the right order
  (created once, spoken to while alive, released once); alive are exactly the sessions that a
  handler in the list holds. The destructor, once the thread has ended for whatever reason, leaves no
  handler, and of the sessions that were ever created each has been released, none of them twice.
\<close>

theorem socket_server_sessions:
  assumes "server_reach e E s"
  shows "server_inv s \<and> distinct (map sh_id (sv_handlers s)) \<and>
    (\<forall>i. session_phase i (sv_trace s) \<in> {Some Absent, Some Live, Some Gone} \<and>
      (session_phase i (sv_trace s) = Some Live \<longleftrightarrow>
        (\<exists>h \<in> set (sv_handlers s). sh_handler h = Handle_session i))) \<and>
    sv_handlers (server_dtor E s) = [] \<and>
    (\<forall>i. session_phase i (sv_trace (server_dtor E s)) =
      (if session_phase i (sv_trace s) = Some Absent then Some Absent else Some Gone))"
  using server_reach_inv [OF assms] live_iff_handler [OF server_reach_inv [OF assms]]
    server_dtor_end [OF server_reach_inv [OF assms]] by blast

theorem socket_server_sessions_witness:
  "\<exists>s w. server_create Little_endian stream_env ''6100'' [] = (Inr s, w) \<and>
     server_inv (server_turn Little_endian stream_env (server_turn Little_endian stream_env s))"
proof -
  define s where "s = \<lparr>sv_world = [] :: bytes, sv_aux_socket = 3, sv_next_id = 101,
    sv_handlers = [\<lparr>sh_id = 100, sh_handler = Accept_preinit, sh_socket = 3\<rparr>],
    sv_buffer = [], sv_pc = Selecting, sv_trace = []\<rparr>"
  have create: "server_create Little_endian stream_env ''6100'' [] = (Inr s, [])"
    by (simp add: server_create_def s_def stream_env_def socket_handle_ctor_def listen_on_def
        setup_socket_def connect_aux_def send_scalar_def Let_def)
  let ?turn = "server_turn Little_endian stream_env"
  have "server_reach Little_endian stream_env s" using create by (rule server_reach.start)
  moreover have "server_step Little_endian stream_env s (?turn s)"
    by (rule server_step.turn) (simp add: s_def)
  moreover have "server_step Little_endian stream_env (?turn s) (?turn (?turn s))"
    by (rule server_step.turn) (simp add: s_def server_turn_def stream_env_def)
  ultimately have "server_reach Little_endian stream_env (?turn (?turn s))"
    by (blast intro: server_reach.step)
  from socket_server_sessions [OF this] create show ?thesis by blast
qed

text \<open>
  C10. The server finds its own connection: whoever has connected before it, whoever connects and
  whatever arrives meanwhile, if no other connection sends the magic number, then the thread gets from the
  constructor to its regular service (or ends, for an exception or one of its limits). The first handler then
  accepts regularly, the server's own connection is the auxiliary one with all that was sent on it behind
  the magic number, and every other connection there is by then is a session of its own id. So a server
  that is destroyed before it has got there ends as well, if no turn has to wait.
\<close>

theorem socket_server_starts_service:
  assumes "server_create e E endpoint_id w0 = (Inr s, w')"
    and "S 0 = (if stopped then server_stop e E s else s)" and "thread_run e E avail shut W S"
    and "connects_own E (sv_aux_socket s) ahead queued"
    and "own_connection E (sh_socket (sv_handlers s ! 0)) fd ahead queued (\<lambda>w. avail w fd)"
    and "leaves_alone E fd (\<lambda>w. avail w fd)" and "recv_stream E fd (\<lambda>w. avail w fd)"
    and "peek_stream E fd (\<lambda>w. avail w fd)" and "reports E fd (\<lambda>w. avail w fd)"
    and "sh_socket (sv_handlers s ! 0) \<noteq> fd" and "\<And>n. no_impostor e E fd (found W S n)"
    and "\<And>n. ahead (W n) = ahead (sv_world (S n))" and "\<And>n. prefix (queued (sv_world (S n))) (queued (W n))"
    and "\<And>n. prefix (avail (sv_world (S n)) fd) (avail (W n) fd)"
  shows "(\<exists>n. sv_pc (S n) \<in> {Ended, Fd_set_overrun} \<or> sv_next_id (S n) = - 1 \<or>
      serving (sh_socket (sv_handlers s ! 0)) fd (\<lambda>w. avail w fd) (if stopped then id_message 0 else []) (S n)) \<and>
    (stopped \<longrightarrow> (\<forall>n. \<not> turn_waits e E avail shut (found W S n)) \<longrightarrow>
      (\<exists>n. sv_pc (S n) \<in> {Ended, Fd_set_overrun} \<or> sv_next_id (S n) = - 1))"
proof -
  let ?srv = "sh_socket (sv_handlers s ! 0)" and ?rest = "if stopped then id_message 0 else []"
  note created = server_create_starting [where ahead = ahead and queued = queued and pending = "\<lambda>w. avail w fd",
      OF assms(1,4,10)]
  then have "starting ?srv fd ahead queued (\<lambda>w. avail w fd) ?rest (S 0)"
    using server_stop_starting [where ahead = ahead and queued = queued, OF assms(4)] by (simp add: assms(2))
  from thread_starts [where ahead = ahead and queued = queued, OF assms(3,5-9,10-14) this]
  have starts: "\<exists>n. sv_pc (S n) \<in> {Ended, Fd_set_overrun} \<or> sv_next_id (S n) = - 1 \<or>
      serving ?srv fd (\<lambda>w. avail w fd) ?rest (S n)" .
  moreover have "\<exists>n. sv_pc (S n) \<in> {Ended, Fd_set_overrun} \<or> sv_next_id (S n) = - 1"
    if stopped and never: "\<And>n. \<not> turn_waits e E avail shut (found W S n)"
  proof -
    from starts obtain n where n: "sv_pc (S n) \<in> {Ended, Fd_set_overrun} \<or> sv_next_id (S n) = - 1 \<or>
      serving ?srv fd (\<lambda>w. avail w fd) ?rest (S n)" ..
    show ?thesis
    proof (cases "serving ?srv fd (\<lambda>w. avail w fd) ?rest (S n)")
      case True
      with \<open>stopped\<close> have "serving ?srv fd (\<lambda>w. avail w fd) (id_message 0) (S n)" by simp
      then obtain a where "stopping fd a (\<lambda>w. avail w fd) [] (S n)" by (blast dest: serving_stopping)
      from thread_stops [OF assms(3) never assms(6,7,9,14) this] show ?thesis by blast
    next
      case False
      with n show ?thesis by blast
    qed
  qed
  ultimately show ?thesis by blast
qed

theorem socket_server_starts_service_witness:
  "\<exists>s w'. server_create Little_endian startup_env ''127.0.0.1:6100''
      \<lparr>su_listens = False, su_ahead = None, su_queued = [], su_avail = (\<lambda>_. [])\<rparr> = (Inr s, w') \<and>
    (\<exists>n. sv_pc ((server_turn Little_endian startup_env ^^ n) s) \<in> {Ended, Fd_set_overrun} \<or>
      sv_next_id ((server_turn Little_endian startup_env ^^ n) s) = - 1 \<or>
      serving 3 5 (\<lambda>w. su_avail w 5) [] ((server_turn Little_endian startup_env ^^ n) s))"
proof -
  let ?e = Little_endian and ?E = startup_env
  let ?w = "\<lparr>su_listens = False, su_ahead = None, su_queued = [], su_avail = (\<lambda>_. [])\<rparr>"
  have "\<exists>s w'. server_create ?e ?E ''127.0.0.1:6100'' ?w = (Inr s, w') \<and> sh_socket (sv_handlers s ! 0) = 3"
    by (auto simp: server_create_def listen_on_def setup_socket_def connect_aux_def socket_handle_ctor_def
        startup_env_def send_scalar_def Let_def split: prod.split sum.split)
  then obtain s w' where s: "server_create ?e ?E ''127.0.0.1:6100'' ?w = (Inr s, w')" "sh_socket (sv_handlers s ! 0) = 3"
    by blast
  from socket_server_starts_service [where avail = su_avail and ahead = su_ahead and queued = su_queued and fd = 5
      and stopped = False, OF s(1) _ thread_run_undisturbed [of ?e ?E su_avail s] startup_env_laws(6)] s(2)
    startup_env_laws(1-5) startup_env_honest s(1)
  show ?thesis by (auto simp: found_def)
qed


text \<open>
  C24. Every pass over the handlers ends, although handlers add to the list and erase from it as it
  is walked through: after at most twice as many turns as there are handlers, and one, the thread
  is back at its \<^verbatim>\<open>select\<close> or has ended. Nor does a handler's erasing another leave the loop
  with more to visit than before.
\<close>

theorem pass_over_handlers_ends:
  assumes "server_inv s" and "unat (sv_next_id s) + 2 * length (sv_handlers s) + 1 < 2 ^ 32 - 1"
  shows "\<exists>n \<le> 2 * length (sv_handlers s) + 1.
    \<forall>fds k. sv_pc ((server_turn e E ^^ n) s) \<noteq> Visiting fds k"
proof -
  have "unat (sv_next_id s) + pass_left s < 2 ^ 32 - 1"
    using assms(2) pass_left_le [of s] by linarith
  from pass_ends [OF assms(1) this, of e E] pass_left_le [of s] show ?thesis
    by (meson le_trans)
qed

theorem pass_over_handlers_ends_witness:
  "\<exists>s :: bytes server. (\<exists>fds k. sv_pc s = Visiting fds k) \<and> sv_handlers s \<noteq> [] \<and>
     (\<exists>n \<le> 2 * length (sv_handlers s) + 1.
       \<forall>fds k. sv_pc ((server_turn Little_endian stream_env ^^ n) s) \<noteq> Visiting fds k)"
proof -
  let ?s = "\<lparr>sv_world = [] :: bytes, sv_aux_socket = 3, sv_next_id = 101,
    sv_handlers = [\<lparr>sh_id = 100, sh_handler = Accept_preinit, sh_socket = 3\<rparr>],
    sv_buffer = [], sv_pc = Visiting [3] 0, sv_trace = []\<rparr>"
  have "server_inv ?s"
    by (simp add: server_inv_def handlers_fit_def ids_ok_def kinds_def preinit_kinds_def)
  from pass_over_handlers_ends [OF this] show ?thesis
    by (intro exI [of _ ?s]) simp
qed

text \<open>
  C17. A client's messages at the server: from a socket that carries what the client has sent, on a
  host of whatever byte order, the session, whatever channel it is, is told exactly these messages,
  one a turn and in order, and at the end of the connection its disconnection, whereupon the handler
  is to be removed. An exception of the session is that of the turn, and nothing further is told.
\<close>

theorem session_gets_client_messages:
  assumes "byte_sink (\<lambda>w bs. snd (send w bs)) sent" and "sent w0 = []"
    and "\<forall>m \<in> set ms. length m < 2 ^ 32"
    and "recv_stream E fd avail" and "hosts_session E fd i ch sess avail"
    and "avail (sv_world s) = sent (fold (\<lambda>m w. socket_client_message e' send w m) ms w0)"
    and "then_disconnect ch (deliver_all ch (sess (sv_world s)) ms) = (x, c)"
  shows "\<exists>s1. serve_session e E fd i (Suc (length ms)) s =
      (case x of None \<Rightarrow> Inr Remove_this | Some x \<Rightarrow> Inl x, s1) \<and>
    sess (sv_world s1) = c \<and> sv_handlers s1 = sv_handlers s \<and>
    (x = None \<longrightarrow> sv_trace s1 = sv_trace s @ map (Got i) ms @ [Disconnected i])"
proof -
  have "avail (sv_world s) = concat (map (frame e True) ms)"
    using assms(2,3) unfolding assms(6)
    using message_sender.sends_frames [OF socket_senders(2) [OF assms(1), of e' e] _ assms(3)] by simp
  from serve_session_frames [OF assms(4,5) this assms(3,7), of e] show ?thesis .
qed

theorem session_gets_client_messages_witness:
  "\<exists>s1. serve_session Big_endian (channel_env recorder) 7 102 3
      \<lparr>sv_world = (fold (\<lambda>m w. socket_client_message Little_endian (\<lambda>w bs. (int (length bs), w @ bs)) w m)
         [[1, 2], []] [], []),
       sv_aux_socket = 3, sv_next_id = 103, sv_handlers = [], sv_buffer = [], sv_pc = Selecting,
       sv_trace = []\<rparr> = (Inr Remove_this, s1) \<and>
     snd (sv_world s1) = [Message [1, 2], Message [], Disconnect]"
proof -
  let ?s = "\<lparr>sv_world = (fold (\<lambda>m w. socket_client_message Little_endian (\<lambda>w bs. (int (length bs), w @ bs)) w m)
         [[1, 2], []] [], []),
       sv_aux_socket = 3, sv_next_id = 103, sv_handlers = [], sv_buffer = [], sv_pc = Selecting,
       sv_trace = []\<rparr>"
  have sink: "byte_sink (\<lambda>w bs :: bytes. snd (int (length bs), w @ bs)) id"
    by unfold_locales simp
  have "then_disconnect recorder (deliver_all recorder (snd (sv_world ?s)) [[1, 2], []]) =
      (None, [Message [1, 2], Message [], Disconnect])"
    by (simp add: deliver_all_recorder)
  from session_gets_client_messages [where sent = "id :: bytes \<Rightarrow> bytes" and avail = fst and sess = snd and ms = "[[1, 2], []]" and s = ?s
      and fd = 7 and i = 102 and ?w0.0 = "[]" and e' = Little_endian and e = Big_endian,
      OF sink _ _ channel_env_ok _ this]
  show ?thesis by (auto simp: numeral_3_eq_3 simp del: serve_session.simps)
qed

text \<open>
  C16. Many connections at one thread: whatever the turns of the others do and whenever bytes arrive,
  what a session has been given and what can still be received make up the stream of its own
  connection, of which nothing is lost, doubled or moved; so what it has been given is the beginning
  of what its peer has sent. It is told of the disconnection when it has got everything. Turns may
  have to wait, and a peer closes its connection after a whole message.
\<close>

theorem sessions_get_their_own:
  assumes "thread_run e E avail shut W S"
    and "recv_stream E c (\<lambda>w. avail w c)" and "leaves_alone E c (\<lambda>w. avail w c)"
    and "server_inv (S 0)" and "\<And>n. sv_next_id (S n) \<noteq> - 1"
    and "\<And>n. prefix (avail (sv_world (S n)) c) (avail (W n) c)"
    and "\<And>n. closes_whole e (shut (W n) c) (avail (W n) c)"
    and "\<And>m. m \<le> n \<Longrightarrow> \<exists>j. session_at i c (sv_handlers (S m)) j"
    and "short_messages (got i (sv_trace (S 0)))"
  shows "prefix (connection_stream e i c avail (S 0)) (connection_stream e i c avail (S n)) \<and>
    (\<forall>ms. short_messages ms \<longrightarrow> connection_stream e i c avail (S n) = frames e ms \<longrightarrow>
      prefix (got i (sv_trace (S n))) ms) \<and>
    (filter (concerns i) (sv_trace (S (Suc n))) = filter (concerns i) (sv_trace (S n)) @ [Disconnected i] \<longrightarrow>
      prefix (connection_stream e i c avail (S 0)) (frames e (got i (sv_trace (S (Suc n))))))"
proof -
  note stream = thread_run_stream [where avail = avail and shut = shut and c = c, OF assms(1-8)]
  note disconnected = thread_run_disconnected [where avail = avail and shut = shut and c = c, OF assms(1-8)]
  have "prefix (got i (sv_trace (S n))) ms"
    if "short_messages ms" "connection_stream e i c avail (S n) = frames e ms" for ms
    using stream assms(9) frames_prefix [of e "got i (sv_trace (S n))" "avail (sv_world (S n)) c" ms] that
    by (simp add: connection_stream_def)
  with stream disconnected show ?thesis by blast
qed

theorem sessions_get_their_own_witness:
  "\<exists>S. thread_run Little_endian sockets_env (\<lambda>w. w) (\<lambda>w c. True) (\<lambda>n. sv_world (S n)) S \<and>
     S 0 = \<lparr>sv_world = (\<lambda>_. [])(8 := [0, 0, 0, 1, 42]), sv_aux_socket = 4, sv_next_id = 103,
       sv_handlers = [\<lparr>sh_id = 101, sh_handler = Handle_aux, sh_socket = 5\<rparr>,
         \<lparr>sh_id = 102, sh_handler = Handle_session 102, sh_socket = 8\<rparr>], sv_buffer = [],
       sv_pc = Visiting [8] 1, sv_trace = [Created 102]\<rparr> \<and>
     sv_trace (S 1) = [Created 102, Got 102 [42]] \<and>
     prefix [0, 0, 0, 1, 42] (connection_stream Little_endian 102 8 (\<lambda>w. w) (S 1))"
proof -
  let ?e = Little_endian and ?E = sockets_env
  define hs where "hs = [\<lparr>sh_id = 101, sh_handler = Handle_aux, sh_socket = 5\<rparr>,
         \<lparr>sh_id = 102, sh_handler = Handle_session 102, sh_socket = 8\<rparr>]"
  define s :: "(int \<Rightarrow> bytes) server" where "s = \<lparr>sv_world = (\<lambda>_. [])(8 := [0, 0, 0, 1, 42]), sv_aux_socket = 4,
       sv_next_id = 103, sv_handlers = hs, sv_buffer = [], sv_pc = Visiting [8] 1, sv_trace = [Created 102]\<rparr>"
  define S where "S = (\<lambda>n. (server_turn ?e ?E ^^ n) s)"
  define idle :: "(int \<Rightarrow> bytes) server \<Rightarrow> bool" where "idle = (\<lambda>t. sv_world t = (\<lambda>_. []) \<and> sv_handlers t = hs \<and> sv_next_id t = 103 \<and>
      (sv_pc t = Selecting \<or> (\<exists>fds k. sv_pc t = Visiting fds k \<and> (fds = [] \<or> 2 \<le> k))))"
  have run: "thread_run ?e ?E (\<lambda>w. w) (\<lambda>w c. True) (\<lambda>n. sv_world (S n)) S"
    unfolding S_def by (rule thread_run_undisturbed)
  have bs: "network_bytes 4 (Suc 0) = [0, 0, 0, 1]" by (simp add: network_bytes_def)
  have "recv_scalar ?e ?E (sv_world s) 8 Msg_waitall = (4, 1, (\<lambda>_. [])(8 := [42]))"
    by (simp add: s_def recv_scalar_def sockets_env_def overwrite_def reorder_eq load_value_def)
  then have S1: "S 1 = s\<lparr>sv_world := (\<lambda>_. []), sv_buffer := [42], sv_pc := Visiting [8] 2,
      sv_trace := [Created 102, Got 102 [42]]\<rparr>"
    by (simp add: S_def server_turn_def run_handler_def handle_session_def s_def hs_def trace_def)
      (simp add: sockets_env_def overwrite_def resize_def Let_def fun_upd_idem numeral_2_eq_2)
  have idle_turn: "idle (server_turn ?e ?E t)" if "idle t" for t
  proof (cases "sv_pc t")
    case Selecting
    with that show ?thesis
      by (simp add: idle_def server_turn_def hs_def fits_fd_set_def fd_setsize_def) (simp add: sockets_env_def)
  next
    case (Visiting fds k)
    with that have "server_turn ?e ?E t = t\<lparr>sv_pc := if k < 2 then Visiting fds (Suc k) else Selecting\<rparr>"
      by (cases "k < 2") (auto simp: idle_def server_turn_def hs_def numeral_2_eq_2 less_Suc_eq fits_fd_set_def fd_setsize_def)
    with that Visiting show ?thesis by (auto simp: idle_def)
  qed (use that in \<open>simp_all add: idle_def\<close>)
  have idle: "idle (S (Suc n))" for n
  proof (induction n)
    case 0
    show ?case using S1 by (simp add: idle_def s_def)
  next
    case (Suc n)
    with idle_turn [of "S (Suc n)"] show ?case by (simp add: S_def)
  qed
  have S0: "S 0 = s" by (simp add: S_def)
  have ids: "sv_next_id (S n) \<noteq> - 1" for n
    using idle [of "n - 1"] by (cases n) (simp_all add: S0 s_def idle_def)
  have whole: "closes_whole ?e True (sv_world (S n) 8)" for n
  proof (cases n)
    case 0
    then show ?thesis
      by (auto simp: closes_whole_def S0 s_def frames_def frame_def frame_header_def short_messages_def bs
          intro!: exI [of _ "[[42]]"])
  next
    case (Suc k)
    with idle [of k] show ?thesis
      by (auto simp: closes_whole_def idle_def frames_def short_messages_def intro!: exI [of _ "[]"])
  qed
  have alive: "\<exists>j. session_at 102 8 (sv_handlers (S m)) j" if "m \<le> 1" for m
    using that S0 S1 by (auto simp: le_Suc_eq s_def hs_def session_at_def sole_at_def less_Suc_eq intro!: exI [of _ 1])
  have inv: "server_inv (S 0)"
    by (simp add: S0 s_def hs_def server_inv_def handlers_fit_def ids_ok_def kinds_def regular_kinds_def
        session_phase_def)
  have start: "connection_stream ?e 102 8 (\<lambda>w. w) (S 0) = [0, 0, 0, 1, 42]" "short_messages (got 102 (sv_trace (S 0)))"
    by (simp_all add: connection_stream_def S0 s_def frames_def short_messages_def)
  from sessions_get_their_own [where avail = "\<lambda>w. w" and c = 8 and i = 102 and n = 1, OF run sockets_env_laws(2)
      sockets_env_laws(1) inv ids _ whole alive start(2)] start(1)
  have "prefix [0, 0, 0, 1, 42] (connection_stream ?e 102 8 (\<lambda>w. w) (S 1))" by simp
  with run S1 S0 show ?thesis unfolding s_def hs_def by (intro exI [of _ S]) simp
qed

text \<open>
  C26. What is read on the auxiliary connection: the id of another handler has that erased, its session
  released, and the loop goes on behind the same element; an id of no handler, such as the zero that
  the destructor of the server sends, ends the thread. The id of the auxiliary handler itself has it
  erase itself: then the loop goes on from an iterator that is not valid any more.
\<close>

theorem aux_connection_erases_or_ends:
  assumes "server_inv s" and "sv_pc s = Visiting fds k" and "k < length (sv_handlers s)"
    and "sh_handler (sv_handlers s ! k) = Handle_aux" and "sh_socket (sv_handlers s ! k) \<in> set fds"
    and "recv_scalar e E (sv_world s) (sh_socket (sv_handlers s ! k)) Msg_waitall = (r, i, w1)" and "r > 0"
  shows "(i < 100 \<or> (\<forall>h \<in> set (sv_handlers s). sh_id h \<noteq> i) \<longrightarrow> sv_pc (server_turn e E s) = Ended) \<and>
    (\<forall>j < length (sv_handlers s). sh_id (sv_handlers s ! j) = i \<longrightarrow>
      sv_handlers (server_turn e E s) = take j (sv_handlers s) @ drop (Suc j) (sv_handlers s) \<and>
      sv_pc (server_turn e E s) =
        (if j < k then Visiting fds k else if j = k then Dangling_iterator else Visiting fds (Suc k)) \<and>
      (\<forall>m. sh_handler (sv_handlers s ! j) = Handle_session m \<longrightarrow>
        session_phase m (sv_trace (server_turn e E s)) = Some Gone))"
proof -
  have dist: "distinct (map sh_id (sv_handlers s))" using live_iff_handler(3) [OF assms(1)] .
  note turn = server_turn_aux [OF assms(2-7)]
  have none: "find_handler i (sv_handlers s) = None" if "i < 100 \<or> (\<forall>h \<in> set (sv_handlers s). sh_id h \<noteq> i)"
    using that server_inv_ids [OF assms(1)] by (auto simp: find_handler_None not_less [symmetric])
  have some: "find_handler i (sv_handlers s) = Some j"
    if "j < length (sv_handlers s)" "sh_id (sv_handlers s ! j) = i" for j
  proof -
    have "find_handler i (sv_handlers s) \<noteq> None" using that by (auto simp: find_handler_None)
    then obtain l where l: "find_handler i (sv_handlers s) = Some l" by blast
    with find_handler_Some [OF l] that nth_eq_iff_index_eq [OF dist, of j l] show ?thesis by simp
  qed
  have live: "session_phase m (sv_trace s) = Some Live"
    if "j < length (sv_handlers s)" "sh_handler (sv_handlers s ! j) = Handle_session m" for j m
    using live_iff_handler(1) [OF assms(1), of m] that by (auto intro: nth_mem)
  show ?thesis
    using none some live unfolding turn by (auto simp: dtor_events_def)
qed

theorem aux_connection_erases_or_ends_witness:
  "sv_pc (server_turn Little_endian stream_env
      \<lparr>sv_world = [0, 0, 0, 0], sv_aux_socket = 3, sv_next_id = 102,
       sv_handlers = [\<lparr>sh_id = 100, sh_handler = Accept_regular, sh_socket = 3\<rparr>,
         \<lparr>sh_id = 101, sh_handler = Handle_aux, sh_socket = 7\<rparr>],
       sv_buffer = [], sv_pc = Visiting [7] 1, sv_trace = []\<rparr>) = Ended"
proof -
  let ?s = "\<lparr>sv_world = [0, 0, 0, 0] :: bytes, sv_aux_socket = 3, sv_next_id = 102,
       sv_handlers = [\<lparr>sh_id = 100, sh_handler = Accept_regular, sh_socket = 3\<rparr>,
         \<lparr>sh_id = 101, sh_handler = Handle_aux, sh_socket = 7\<rparr>],
       sv_buffer = [], sv_pc = Visiting [7] 1, sv_trace = []\<rparr>"
  have inv: "server_inv ?s"
    by (simp add: server_inv_def handlers_fit_def ids_ok_def kinds_def regular_kinds_def)
  have "recv_scalar Little_endian stream_env (sv_world ?s) (sh_socket (sv_handlers ?s ! 1)) Msg_waitall = (4, 0, [])"
    by (simp add: recv_scalar_def stream_env_def overwrite_def reorder_eq load_value_def)
  from aux_connection_erases_or_ends [OF inv _ _ _ _ this] show ?thesis by simp
qed

text \<open>
  C28. The destructor of the server sends zero on the auxiliary connection and joins the thread. However
  the turns of the thread interleave with what others do, whatever disconnections are pending and
  whatever connections come and go: if no turn has to wait for a message to be completed, the thread
  ends (or has written beyond its descriptor set, or given out the last of the ids). But as long as
  one connection has sent part of a message and sends no more, the thread stays in the \<^verbatim>\<open>recv\<close> for
  the rest: no session gets anything and the destructor does not return.
\<close>

theorem socket_server_destructor:
  assumes "thread_run e E avail shut W S" and "S 0 = server_stop e E s" and "server_inv s"
    and "sv_pc s = Selecting \<or> (\<exists>fds k. sv_pc s = Visiting fds k)"
    and "aux_at fd a (sv_handlers s) j" and "a \<notin> set ids" and "avail (sv_world s) fd = concat (map id_message ids)"
    and "\<And>w bs. avail (snd (env_send E w (sv_aux_socket s) bs)) fd = avail w fd @ bs"
    and "leaves_alone E fd (\<lambda>w. avail w fd)" and "recv_stream E fd (\<lambda>w. avail w fd)"
    and "reports E fd (\<lambda>w. avail w fd)" and "\<And>n. prefix (avail (sv_world (S n)) fd) (avail (W n) fd)"
  shows "((\<forall>n. \<not> turn_waits e E avail shut (found W S n)) \<longrightarrow>
      (\<exists>n. sv_pc (S n) \<in> {Ended, Fd_set_overrun} \<or> sv_next_id (S n) = - 1)) \<and>
    (\<forall>m fds k c i. sv_pc (S m) = Visiting fds k \<longrightarrow> k < length (sv_handlers (S m)) \<longrightarrow>
      sv_handlers (S m) ! k = \<lparr>sh_id = i, sh_handler = Handle_session i, sh_socket = c\<rparr> \<longrightarrow> c \<in> set fds \<longrightarrow>
      recv_stream E c (\<lambda>w. avail w c) \<longrightarrow> partial_message e (avail (sv_world (S m)) c) \<longrightarrow>
      (\<forall>n \<ge> m. avail (W n) c = avail (sv_world (S n)) c \<and> \<not> shut (W n) c) \<longrightarrow>
      (\<forall>n \<ge> m. sv_pc (S n) = sv_pc (S m) \<and> sv_trace (S n) = sv_trace (S m)))"
proof (intro conjI impI allI)
  assume "\<forall>n. \<not> turn_waits e E avail shut (found W S n)"
  moreover have "stopping fd a (\<lambda>w. avail w fd) ids (S 0)"
    unfolding assms(2) by (rule server_stop_stopping [OF assms(3,5,6,4)]) (use assms(7,8) in simp_all)
  ultimately show "\<exists>n. sv_pc (S n) \<in> {Ended, Fd_set_overrun} \<or> sv_next_id (S n) = - 1"
    using thread_stops [OF assms(1) _ assms(9-12)] by blast
next
  fix m fds k c i n
  assume "sv_pc (S m) = Visiting fds k" "k < length (sv_handlers (S m))"
    "sv_handlers (S m) ! k = \<lparr>sh_id = i, sh_handler = Handle_session i, sh_socket = c\<rparr>" "c \<in> set fds"
    "recv_stream E c (\<lambda>w. avail w c)" "partial_message e (avail (sv_world (S m)) c)"
    "\<forall>n \<ge> m. avail (W n) c = avail (sv_world (S n)) c \<and> \<not> shut (W n) c" "m \<le> n"
  with thread_stalls [where avail = avail and c = c, OF assms(1), of m fds k i i n]
  obtain w where "S n = S m\<lparr>sv_world := w\<rparr>" by blast
  then show "sv_pc (S n) = sv_pc (S m)" and "sv_trace (S n) = sv_trace (S m)" by simp_all
qed

text \<open>One server whose thread ends, and one that has received two bytes of a header.\<close>

theorem socket_server_destructor_witness:
  "(\<exists>n. sv_pc ((server_turn Little_endian sockets_env ^^ n) (server_stop Little_endian sockets_env
       \<lparr>sv_world = (\<lambda>_. []), sv_aux_socket = 4, sv_next_id = 102,
        sv_handlers = [\<lparr>sh_id = 101, sh_handler = Handle_aux, sh_socket = 5\<rparr>], sv_buffer = [],
        sv_pc = Selecting, sv_trace = []\<rparr>)) \<in> {Ended, Fd_set_overrun} \<or>
     sv_next_id ((server_turn Little_endian sockets_env ^^ n) (server_stop Little_endian sockets_env
       \<lparr>sv_world = (\<lambda>_. []), sv_aux_socket = 4, sv_next_id = 102,
        sv_handlers = [\<lparr>sh_id = 101, sh_handler = Handle_aux, sh_socket = 5\<rparr>], sv_buffer = [],
        sv_pc = Selecting, sv_trace = []\<rparr>)) = - 1) \<and>
   (\<exists>S. thread_run Little_endian sockets_env (\<lambda>w. w) (\<lambda>w c. False) (\<lambda>n. sv_world (S n)) S \<and>
     S 0 = server_stop Little_endian sockets_env \<lparr>sv_world = (\<lambda>_. [])(8 := [0, 0]), sv_aux_socket = 4,
       sv_next_id = 103, sv_handlers = [\<lparr>sh_id = 101, sh_handler = Handle_aux, sh_socket = 5\<rparr>,
         \<lparr>sh_id = 102, sh_handler = Handle_session 102, sh_socket = 8\<rparr>], sv_buffer = [],
       sv_pc = Visiting [8] 1, sv_trace = [Created 102]\<rparr> \<and>
     (\<forall>n. sv_pc (S n) = Visiting [8] 1))"
proof (intro conjI)
  let ?aux = "\<lparr>sh_id = 101, sh_handler = Handle_aux, sh_socket = 5\<rparr>"
  let ?s = "\<lparr>sv_world = (\<lambda>_. []), sv_aux_socket = 4, sv_next_id = 102, sv_handlers = [?aux],
       sv_buffer = [], sv_pc = Selecting, sv_trace = []\<rparr> :: (int \<Rightarrow> bytes) server"
  let ?E = sockets_env and ?e = Little_endian
  have inv: "server_inv ?s"
    by (simp add: server_inv_def handlers_fit_def ids_ok_def kinds_def regular_kinds_def)
  have sends: "snd (env_send ?E w 4 bs) 5 = w 5 @ bs" for w bs by (simp add: sockets_env_def)
  have aux: "aux_at 5 101 [?aux] 0" by (simp add: aux_at_eq)
  from socket_server_destructor [where avail = "\<lambda>w. w" and fd = 5 and s = ?s and ids = "[]" and a = 101 and j = 0,
      OF thread_run_undisturbed _ inv _ _ _ _ _ sockets_env_laws(1) sockets_env_laws(2,3)] aux sends
  show "\<exists>n. sv_pc ((server_turn ?e ?E ^^ n) (server_stop ?e ?E ?s)) \<in> {Ended, Fd_set_overrun} \<or>
      sv_next_id ((server_turn ?e ?E ^^ n) (server_stop ?e ?E ?s)) = - 1"
    by (simp add: closed_never_waits)
next
  let ?aux = "\<lparr>sh_id = 101, sh_handler = Handle_aux, sh_socket = 5\<rparr>"
  let ?hs = "[?aux, \<lparr>sh_id = 102, sh_handler = Handle_session 102, sh_socket = 8\<rparr>]"
  let ?s = "\<lparr>sv_world = (\<lambda>_. [])(8 := [0, 0]), sv_aux_socket = 4, sv_next_id = 103, sv_handlers = ?hs,
       sv_buffer = [], sv_pc = Visiting [8] 1, sv_trace = [Created 102]\<rparr> :: (int \<Rightarrow> bytes) server"
  let ?E = sockets_env and ?e = Little_endian
  let ?t = "server_stop ?e ?E ?s"
  have t: "sv_pc ?t = Visiting [8] 1" "sv_handlers ?t = ?hs" "sv_world ?t 8 = [0, 0]"
    by (simp_all add: server_stop_def send_scalar_def sockets_env_def)
  have inv: "server_inv ?s"
    by (simp add: server_inv_def handlers_fit_def ids_ok_def kinds_def regular_kinds_def session_phase_def)
  have sends: "snd (env_send ?E w 4 bs) 5 = w 5 @ bs" for w bs by (simp add: sockets_env_def)
  have aux: "aux_at 5 101 ?hs 0" by (simp add: aux_at_eq less_Suc_eq)
  have partial: "partial_message ?e [0, 0]" by (simp add: partial_message_def)
  have run: "thread_run ?e ?E (\<lambda>w. w) (\<lambda>w c. False) (\<lambda>n. sv_world ?t) (\<lambda>n. ?t)"
    by (rule thread_run_waiting, rule partial_message_waits [where c = 8 and k = 1 and fds = "[8]" and j = 102])
      (use t partial sockets_env_laws(2) in simp_all)
  from socket_server_destructor [where avail = "\<lambda>w. w" and fd = 5 and s = ?s and ids = "[]" and a = 101 and j = 0,
      OF run refl inv _ _ _ _ _ sockets_env_laws(1) sockets_env_laws(2,3)] aux sends t partial sockets_env_laws(2)
  have "\<forall>n. sv_pc ?t = Visiting [8] 1" by (simp del: One_nat_def)
  with run show "\<exists>S. thread_run ?e ?E (\<lambda>w. w) (\<lambda>w c. False) (\<lambda>n. sv_world (S n)) S \<and> S 0 = ?t \<and>
     (\<forall>n. sv_pc (S n) = Visiting [8] 1)" by (intro exI [of _ "\<lambda>n. ?t"]) simp
qed

text \<open>
  C32. Disconnecting twice. While a session is alive its outbound channel may be told to disconnect any
  number of times, and each time its id is put on the auxiliary connection. The first that is read
  releases the session. Whenever one is read after the session has been released, be it because of
  the other or because its peer hung up first, the thread that serves all the others ends. And a
  session that uses its channel after it has been released uses an object that is gone.
\<close>

theorem second_disconnect_ends_server:
  assumes "server_inv s" and "session_phase i (sv_trace s) = Some Live" and "recv_stream E fd pending"
    and "\<And>w bs. pending (snd (env_send E w (sv_aux_socket s) bs)) = pending w @ bs"
  shows "(\<exists>s1 s2. outbound_disconnect e E i s = Some s1 \<and> outbound_disconnect e E i s1 = Some s2 \<and>
      s2 = s\<lparr>sv_world := sv_world s2\<rparr> \<and>
      pending (sv_world s2) = pending (sv_world s) @ id_message i @ id_message i) \<and>
    (\<forall>t. (server_step e E)\<^sup>*\<^sup>* s t \<longrightarrow> session_phase i (sv_trace t) = Some Gone \<longrightarrow>
      outbound_disconnect e E i t = None \<and> (\<forall>m. outbound_message e E i m t = None) \<and>
      (\<forall>fds k n. sv_pc t = Visiting fds k \<longrightarrow> k < length (sv_handlers t) \<longrightarrow>
        sh_handler (sv_handlers t ! k) = Handle_aux \<longrightarrow> sh_socket (sv_handlers t ! k) = fd \<longrightarrow> fd \<in> set fds \<longrightarrow>
        prefix (id_message i) (pending (sv_world t)) \<longrightarrow>
        sv_pc ((server_turn e E ^^ Suc n) t) = Ended \<and> sv_trace ((server_turn e E ^^ Suc n) t) = sv_trace t))"
proof (intro conjI allI impI)
  let ?s1 = "s\<lparr>sv_world := socket_handler_disconnect e E (sv_aux_socket s) i (sv_world s)\<rparr>"
  let ?s2 = "?s1\<lparr>sv_world := socket_handler_disconnect e E (sv_aux_socket s) i (sv_world ?s1)\<rparr>"
  have "outbound_disconnect e E i ?s1 = Some ?s2"
    using outbound_live(1) [of ?s1 i e E] assms(1,2) by (simp add: server_inv_def)
  with outbound_live(1) [OF assms(1,2), of e E]
  show "\<exists>s1 s2. outbound_disconnect e E i s = Some s1 \<and> outbound_disconnect e E i s1 = Some s2 \<and>
      s2 = s\<lparr>sv_world := sv_world s2\<rparr> \<and>
      pending (sv_world s2) = pending (sv_world s) @ id_message i @ id_message i"
    using socket_handler_disconnect_pending [where pending = pending, OF assms(4)]
    by (intro exI [of _ ?s1] exI [of _ ?s2]) simp
next
  fix t
  assume "(server_step e E)\<^sup>*\<^sup>* s t" and gone: "session_phase i (sv_trace t) = Some Gone"
  then have inv: "server_inv t" using server_steps_inv [OF _ assms(1)] by blast
  show "outbound_disconnect e E i t = None" and "outbound_message e E i m t = None" for m
    using outbound_gone [OF inv gone] by simp_all
  fix fds k n
  assume "sv_pc t = Visiting fds k" "k < length (sv_handlers t)" "sh_handler (sv_handlers t ! k) = Handle_aux"
    "sh_socket (sv_handlers t ! k) = fd" "fd \<in> set fds" "prefix (id_message i) (pending (sv_world t))"
  with id_of_released_ends [where pending = pending and n = n and e = e, OF inv gone _ \<open>sv_pc t = Visiting fds k\<close>] assms(3)
  show "sv_pc ((server_turn e E ^^ Suc n) t) = Ended" "sv_trace ((server_turn e E ^^ Suc n) t) = sv_trace t"
    by simp_all
qed

theorem second_disconnect_ends_server_witness:
  "\<exists>s1 s2. outbound_disconnect Little_endian sockets_env 102
      \<lparr>sv_world = (\<lambda>_. []), sv_aux_socket = 6, sv_next_id = 103,
       sv_handlers = [\<lparr>sh_id = 100, sh_handler = Accept_regular, sh_socket = 3\<rparr>,
         \<lparr>sh_id = 101, sh_handler = Handle_aux, sh_socket = 7\<rparr>,
         \<lparr>sh_id = 102, sh_handler = Handle_session 102, sh_socket = 8\<rparr>],
       sv_buffer = [], sv_pc = Visiting [7] 1, sv_trace = [Created 102]\<rparr> = Some s1 \<and>
     outbound_disconnect Little_endian sockets_env 102 s1 = Some s2 \<and>
     sv_pc ((server_turn Little_endian sockets_env ^^ 5) s2) = Ended"
proof -
  let ?e = Little_endian and ?E = sockets_env
  let ?hs = "[\<lparr>sh_id = 100, sh_handler = Accept_regular, sh_socket = 3\<rparr>,
         \<lparr>sh_id = 101, sh_handler = Handle_aux, sh_socket = 7\<rparr>,
         \<lparr>sh_id = 102, sh_handler = Handle_session 102, sh_socket = 8\<rparr>]"
  let ?s = "\<lparr>sv_world = (\<lambda>_. []) :: int \<Rightarrow> bytes, sv_aux_socket = 6, sv_next_id = 103, sv_handlers = ?hs,
       sv_buffer = [], sv_pc = Visiting [7] 1, sv_trace = [Created 102]\<rparr>"
  have inv: "server_inv ?s"
    by (auto simp: server_inv_def handlers_fit_def ids_ok_def kinds_def regular_kinds_def session_phase_def)
  have live: "session_phase 102 (sv_trace ?s) = Some Live" by (simp add: session_phase_def)
  have send: "snd (env_send ?E w (sv_aux_socket ?s) bs) 7 = w 7 @ bs" for w bs by (simp add: sockets_env_def)
  note twice = second_disconnect_ends_server [where pending = "\<lambda>w. w 7" and fd = 7, OF inv live sockets_env_laws(2) send]
  define w2 :: "int \<Rightarrow> bytes" where "w2 = (\<lambda>_. []) (7 := id_message 102 @ id_message 102)"
  define w1 :: "int \<Rightarrow> bytes" where "w1 = (\<lambda>_. []) (7 := id_message 102)"
  let ?s2 = "?s\<lparr>sv_world := w2\<rparr>"
  let ?t = "\<lambda>pc. ?s\<lparr>sv_world := w1, sv_handlers := take 2 ?hs, sv_pc := pc, sv_trace := [Created 102, Released 102]\<rparr>"
  have send7: "socket_handler_disconnect ?e ?E 6 i w = w(7 := w 7 @ id_message i)" for i w
    by (simp add: socket_handler_disconnect_def send_scalar_def id_message_def reorder_store_value sockets_env_def)
  have calls: "\<exists>s1. outbound_disconnect ?e ?E 102 ?s = Some s1 \<and> outbound_disconnect ?e ?E 102 s1 = Some ?s2"
    by (simp add: outbound_disconnect_def send7 w2_def)
  have message: "id_message 102 = [0, 0, 0, 102]" by (simp add: id_message_def network_bytes_def)
  have recv: "recv_scalar ?e ?E w2 7 Msg_waitall = (4, 102, w1)"
    by (simp add: recv_scalar_def sockets_env_def w1_def w2_def message overwrite_def reorder_eq load_value_def fun_eq_iff)
  have turn1: "server_turn ?e ?E ?s2 = ?t (Visiting [7] 2)"
    using server_turn_aux [of ?s2 "[7]" 1 ?e ?E 4 102 w1] recv
    by (simp add: erase_handler_def socket_handler_dtor_def release_handler_def trace_def socket_handle_reset_def
        sockets_env_def w1_def fun_eq_iff)
  have turn2: "server_turn ?e ?E (?t (Visiting [7] 2)) = ?t Selecting" by (simp add: server_turn_def)
  have turn3: "server_turn ?e ?E (?t Selecting) = ?t (Visiting [7] 0)"
    by (simp add: server_turn_def fits_fd_set_def fd_setsize_def sockets_env_def w1_def message)
  have turn4: "server_turn ?e ?E (?t (Visiting [7] 0)) = ?t (Visiting [7] 1)"
    by (simp add: server_turn_def fits_fd_set_def fd_setsize_def)
  have step: "server_step ?e ?E u v" if "server_turn ?e ?E u = v" "sv_next_id u = 103" for u v :: "(int \<Rightarrow> bytes) server"
    using server_step.turn [of u ?e ?E] that by simp
  have "server_step ?e ?E ?s ?s2" using server_step.outside [of ?e ?E ?s w2] by simp
  then have "(server_step ?e ?E)\<^sup>*\<^sup>* ?s ?s2" by (rule r_into_rtranclp)
  also have "server_step ?e ?E ?s2 (?t (Visiting [7] 2))" by (rule step [OF turn1]) simp
  also have "server_step ?e ?E (?t (Visiting [7] 2)) (?t Selecting)" by (rule step [OF turn2]) simp
  also have "server_step ?e ?E (?t Selecting) (?t (Visiting [7] 0))" by (rule step [OF turn3]) simp
  also have "server_step ?e ?E (?t (Visiting [7] 0)) (?t (Visiting [7] 1))" by (rule step [OF turn4]) simp
  finally have run: "(server_step ?e ?E)\<^sup>*\<^sup>* ?s (?t (Visiting [7] 1))" .
  have gone: "session_phase 102 (sv_trace (?t (Visiting [7] 1))) = Some Gone" by (simp add: session_phase_def)
  have ended: "sv_pc ((server_turn ?e ?E ^^ Suc 0) (?t (Visiting [7] 1))) = Ended"
    by (rule conjunct2 [OF twice, rule_format, OF run gone, THEN conjunct2, THEN conjunct2, rule_format, THEN conjunct1])
      (simp add: w1_def)+
  have five: "(f ^^ 5) x = (f ^^ Suc 0) (f (f (f (f x))))" for f :: "'z \<Rightarrow> 'z" and x by (simp add: numeral_eq_Suc)
  have "sv_pc ((server_turn ?e ?E ^^ 5) ?s2) = Ended"
    unfolding five turn1 turn2 turn3 turn4 by (rule ended)
  with calls show ?thesis by blast
qed

text \<open>
  C33. An exception that a session lets out of \<^verbatim>\<open>message\<close> is caught around the loop of the one
  thread: it ends there, and no other session gets anything any more.
\<close>

theorem session_exception_ends_server:
  assumes "sv_pc s = Visiting fds k" and "k < length (sv_handlers s)"
    and "sh_handler (sv_handlers s ! k) = Handle_session i" and "sh_socket (sv_handlers s ! k) \<in> set fds"
    and "recv_scalar e E (sv_world s) (sh_socket (sv_handlers s ! k)) Msg_waitall = (r, sz, w1)" and "r > 0"
    and "\<And>w m. \<exists>x. env_session_message E w i m = Inl x"
  shows "sv_pc ((server_turn e E ^^ Suc n) s) = Ended \<and>
    sv_trace ((server_turn e E ^^ Suc n) s) = sv_trace (server_turn e E s)"
proof -
  obtain x s1 where "handle_session e E (sh_socket (sv_handlers s ! k)) i s = (Inl x, s1)"
    using handle_session_throws [OF assms(5-7)] by blast
  with server_turn_visit [OF assms(1,2,4), of e E] assms(3)
  have turn: "sv_pc (server_turn e E s) = Ended" by (simp add: run_handler_def)
  then have "(server_turn e E ^^ n) (server_turn e E s) = server_turn e E s" by (rule server_turns_ended)
  then show ?thesis unfolding funpow_Suc_right o_apply by (simp add: turn)
qed

theorem session_exception_ends_server_witness:
  "sv_pc (server_turn Little_endian (stream_env\<lparr>env_session_message := (\<lambda>w i m. Inl Std_bad_alloc)\<rparr>)
      \<lparr>sv_world = [0, 0, 0, 1, 9], sv_aux_socket = 3, sv_next_id = 103,
       sv_handlers = [\<lparr>sh_id = 102, sh_handler = Handle_session 102, sh_socket = 8\<rparr>],
       sv_buffer = [], sv_pc = Visiting [8] 0, sv_trace = [Created 102]\<rparr>) = Ended"
proof -
  let ?E = "stream_env\<lparr>env_session_message := (\<lambda>w i m. Inl Std_bad_alloc)\<rparr>"
  have "recv_scalar Little_endian ?E [0, 0, 0, 1, 9] 8 Msg_waitall = (4, 1, [9])"
    by (simp add: recv_scalar_def stream_env_def overwrite_def reorder_eq load_value_def)
  then show ?thesis
    using session_exception_ends_server [where e = Little_endian and E = ?E and n = 0 and fds = "[8]"
        and k = 0 and i = 102 and s = "\<lparr>sv_world = [0, 0, 0, 1, 9], sv_aux_socket = 3, sv_next_id = 103,
       sv_handlers = [\<lparr>sh_id = 102, sh_handler = Handle_session 102, sh_socket = 8\<rparr>],
       sv_buffer = [], sv_pc = Visiting [8] 0, sv_trace = [Created 102]\<rparr>"]
    by simp
qed

text \<open>
  C11. The server's descriptors. In every run, whatever connects, sends or fails, the descriptors it
  has been given and has not closed are those of the handlers in its list and of its auxiliary
  socket, all different: none is lost and none is closed twice. Its destructor closes them all; a
  constructor that throws has closed what it had opened. (Descriptors are taken to be positive, as
  they are when standard input is open: \<^verbatim>\<open>socket_handle\<close> never closes descriptor zero.)
\<close>

theorem server_owns_its_sockets:
  assumes "books E opened" and "owned_run e E opened s"
  shows "distinct (sv_aux_socket s # map sh_socket (sv_handlers s)) \<and>
    opened (sv_world s) = set (sv_aux_socket s # map sh_socket (sv_handlers s)) \<and>
    opened (sv_world (server_dtor E s)) = {} \<and>
    (\<forall>endpoint_id w x w'. server_create e E endpoint_id w = (Inl x, w') \<longrightarrow> opened w = {} \<longrightarrow> opened w' = {})"
proof -
  have "owns opened s" using owned_run_owns [OF assms(2,1)] .
  moreover have "opened w' = {}" if "server_create e E endpoint_id w = (Inl x, w')" "opened w = {}"
    for endpoint_id w x w' using server_create_books [OF assms(1) that] by simp
  ultimately show ?thesis
    using server_dtor_closes [OF assms(1)] by (auto simp: owns_def sockets_of_def)
qed

theorem server_owns_its_sockets_witness:
  "\<exists>s w. server_create Little_endian descriptor_env ''6100'' [] = (Inr s, w) \<and>
     set (sv_world (server_turn Little_endian descriptor_env (server_turn Little_endian descriptor_env s))) = {3, 4, 5} \<and>
     set (sv_world (server_dtor descriptor_env
       (server_turn Little_endian descriptor_env (server_turn Little_endian descriptor_env s)))) = {}"
proof -
  let ?turn = "server_turn Little_endian descriptor_env"
  define s where "s = \<lparr>sv_world = [4, 3] :: int list, sv_aux_socket = 4, sv_next_id = 101,
    sv_handlers = [\<lparr>sh_id = 100, sh_handler = Accept_preinit, sh_socket = 3\<rparr>],
    sv_buffer = [], sv_pc = Selecting, sv_trace = []\<rparr>"
  have create: "server_create Little_endian descriptor_env ''6100'' [] = (Inr s, [4, 3])"
    by (simp add: server_create_def s_def descriptor_env_def fresh_descriptor_def socket_handle_ctor_def
        listen_on_def setup_socket_def connect_aux_def send_scalar_def Let_def)
  have "sv_aux_socket (?turn (?turn s)) = 4 \<and> map sh_socket (sv_handlers (?turn (?turn s))) = [3, 5]"
    by (simp add: server_turn_def s_def fits_fd_set_def fd_setsize_def descriptor_env_def fresh_descriptor_def
        run_handler_def accept_preinit_def accept_connection_def socket_handle_ctor_def setup_socket_def Let_def)
  moreover have "owned_run Little_endian descriptor_env set (?turn (?turn s))"
    using create by (intro owned_run.turn owned_run.start) simp_all
  note server_owns_its_sockets [OF descriptor_env_books this]
  ultimately show ?thesis using create by auto
qed

text \<open>
  C25. The number of connections is limited by the set that \<^verbatim>\<open>select\<close> is given: a server that holds its
  sockets as all runs have it, and has as many handlers as such a set has places, writes beyond the
  set when it comes to its \<^verbatim>\<open>select\<close>. As long as all descriptors are small enough it does not.
\<close>

theorem connection_limit:
  assumes "owns opened s" and "sv_pc s = Selecting"
  shows "(1024 \<le> length (sv_handlers s) \<longrightarrow> sv_pc (server_turn e E s) = Fd_set_overrun) \<and>
    ((\<forall>h \<in> set (sv_handlers s). sh_socket h < 1024) \<longrightarrow> sv_pc (server_turn e E s) \<noteq> Fd_set_overrun)"
proof -
  have "fits_fd_set (map sh_socket (sv_handlers s))" if "\<forall>h \<in> set (sv_handlers s). sh_socket h < 1024"
    using that assms(1) by (auto simp: fits_fd_set_def fd_setsize_def list_all_iff owns_def sockets_of_def)
  then show ?thesis
    using assms(2) too_many_sockets [OF assms(1)]
    by (auto simp: server_turn_def fd_setsize_def split: prod.splits)
qed

theorem connection_limit_witness:
  "sv_pc (server_turn Little_endian stream_env
     \<lparr>sv_world = [], sv_aux_socket = 2000, sv_next_id = 2000,
      sv_handlers = map (\<lambda>i. \<lparr>sh_id = word_of_nat i, sh_handler = Handle_session (word_of_nat i), sh_socket = int i\<rparr>)
        [1 ..< 1025],
      sv_buffer = [], sv_pc = Selecting, sv_trace = []\<rparr>) = Fd_set_overrun"
proof -
  let ?s = "\<lparr>sv_world = [] :: bytes, sv_aux_socket = 2000, sv_next_id = 2000,
      sv_handlers = map (\<lambda>i. \<lparr>sh_id = word_of_nat i, sh_handler = Handle_session (word_of_nat i), sh_socket = int i\<rparr>)
        [1 ..< 1025],
      sv_buffer = [], sv_pc = Selecting, sv_trace = []\<rparr>"
  have sockets: "map sh_socket (sv_handlers ?s) = map int [1 ..< 1025]" by (simp add: comp_def)
  have "distinct (map int [1 ..< 1025])" by (simp add: distinct_map del: upt_Suc)
  then have "owns (\<lambda>_. set (sockets_of ?s)) ?s"
    unfolding owns_def sockets_of_def sockets by (auto simp del: upt_Suc)
  moreover have "length (sv_handlers ?s) = 1024" by (simp del: upt_Suc)
  ultimately show ?thesis using connection_limit [of _ ?s Little_endian stream_env] by simp
qed

section \<open>The stream endpoint\<close>

text \<open>
  C12. A connection over a pair of streams that is not cancelled: however the writing of the other
  side, the worker's turns and interrupted calls of \<^verbatim>\<open>select\<close> follow each other, when the worker has
  come to its end the session has been told what the splitter makes of all the bytes written, and
  then of the disconnection; an exception of the session or of its creation is the end as well,
  without it. Once the stream has been closed the worker does come to its end, within as many
  turns as there are bytes left, and four.
\<close>

theorem stream_connection_delivers:
  fixes c0 :: 'c and bs :: bytes
  assumes "stream_run e create ch (stream_conn_init c0) bs t"
  defines "outcome \<equiv> (case create c0 of
      Inl x \<Rightarrow> (Failed x, c0)
    | Inr c \<Rightarrow> (case deliver_all ch c (split_frames (header_value e False) [] bs) of
        (None, c') \<Rightarrow> (Finished, ch_disconnect ch c')
      | (Some x, c') \<Rightarrow> (Failed x, c')))"
  defines "t' \<equiv> worker_turns e create ch (length (sn_data t) + 4) t"
  shows "(worker_ended (sn_worker t) \<longrightarrow> (sn_worker t, sn_session t) = outcome) \<and>
    (sn_closed t \<longrightarrow> (sn_worker t', sn_session t') = outcome)"
proof -
  have ending: "ending ch r = (case r of (None, c') \<Rightarrow> (Finished, ch_disconnect ch c')
      | (Some x, c') \<Rightarrow> (Failed x, c'))" for r
    by (cases r; cases "fst r") auto
  have "fate e create ch (stream_conn_init c0) bs = outcome"
    by (simp add: fate_def stream_conn_init_def deliver_stream_def outcome_def ending split: sum.split)
  with stream_run_fate [OF assms(1)]
  have fate: "fate e create ch t [] = outcome" and quiet: "sn_signal_pipe t = 0"
    by (simp_all add: stream_conn_init_def)
  have "fate e create ch t [] = (sn_worker t, sn_session t)" if "worker_ended (sn_worker t)"
    using that by (cases "sn_worker t") (simp_all add: fate_def)
  moreover have "pc_left (sn_worker t) \<le> 4" by (cases "sn_worker t" rule: pc_left.cases) simp_all
  then have "(sn_worker t', sn_session t') = fate e create ch t []" if "sn_closed t"
    unfolding t'_def using that quiet by (intro worker_turns_closed) (simp_all add: turns_left_def)
  ultimately show ?thesis using fate by simp
qed

theorem stream_connection_delivers_witness:
  "\<exists>t. stream_run Little_endian (\<lambda>c. Inr c) recorder (stream_conn_init []) [1, 0, 0, 0, 9] t \<and>
     sn_session (worker_turns Little_endian (\<lambda>c. Inr c) recorder 9 t) = [Message [9], Disconnect]"
proof -
  define t where "t = stream_conn_init ([] :: channel_event list)\<lparr>sn_data := [1, 0, 0, 0, 9], sn_closed := True\<rparr>"
  let ?run = "stream_run Little_endian (\<lambda>c. Inr c) recorder (stream_conn_init [])"
  have "?run ([] @ [1, 0, 0, 0, 9]) (stream_conn_init []\<lparr>sn_data := [] @ [1, 0, 0, 0, 9]\<rparr>)"
    using stream_run.written [OF stream_run.start, of "stream_conn_init []" Little_endian "\<lambda>c. Inr c"
        recorder "[1, 0, 0, 0, 9]"] by (simp add: stream_conn_init_def)
  then have run: "?run [1, 0, 0, 0, 9] t"
    using stream_run.closed [of Little_endian "\<lambda>c. Inr c" recorder "stream_conn_init []" "[1, 0, 0, 0, 9]"]
    by (simp add: t_def)
  have "split_frames (header_value Little_endian False) [] [1, 0, 0, 0, 9] = [[9]]"
    by (simp add: split_frames.simps header_value_def load_value_def overwrite_def resize_def)
  with stream_connection_delivers [OF run] run show ?thesis
    by (intro exI [of _ t]) (simp add: t_def stream_conn_init_def deliver_all_recorder)
qed

text \<open>
  C29. The destructor of such a connection cancels and waits for the worker. A worker that waits
  inside \<^verbatim>\<open>fread\<close> for bytes that are not there is not woken: unless the other side writes or closes
  it stays there, and the destructor with it. Any other worker ends within two turns: it does what
  it is about to do, with the data it has, and its next \<^verbatim>\<open>select\<close> throws, so that the session is
  released without being told of a disconnection.
\<close>

theorem stream_destructor:
  fixes s :: "'c stream_conn"
  defines "s' \<equiv> stream_conn_cancel s"
  shows "if stream_starved s
    then \<forall>t. (quiet_step e create ch)\<^sup>*\<^sup>* s' t \<longrightarrow> \<not> worker_ended (sn_worker t) \<and> sn_session t = sn_session s
    else worker_ended (sn_worker (worker_turns e create ch 2 s')) \<and>
      (sn_worker (worker_turns e create ch 2 s'), sn_session (worker_turns e create ch 2 s')) =
        last_words e create ch s (sn_worker s)"
proof (cases "stream_starved s")
  case True
  then have starved: "stream_starved s'" and same: "sn_session s' = sn_session s"
    by (simp_all add: s'_def stream_conn_cancel_eq stream_starved_def)
  have "\<not> worker_ended (sn_worker t) \<and> sn_session t = sn_session s"
    if "(quiet_step e create ch)\<^sup>*\<^sup>* s' t" for t
  proof -
    have "stream_starved t" and "sn_session t = sn_session s"
      using quiet_steps_starved [OF that starved] same by simp_all
    then obtain p where "sn_worker t = In_fread p" by (auto simp: stream_starved_def)
    with \<open>sn_session t = sn_session s\<close> show ?thesis by simp
  qed
  with True show ?thesis by simp
next
  case False
  then have "\<not> stream_starved s'" by (simp add: s'_def stream_conn_cancel_eq stream_starved_def)
  moreover have "0 < sn_signal_pipe s'" by (simp add: s'_def stream_conn_cancel_eq)
  ultimately have "(sn_worker (worker_turns e create ch 2 s'), sn_session (worker_turns e create ch 2 s')) =
      last_words e create ch s' (sn_worker s')"
    using worker_turns_cancelled [of s' e create ch 0] by (simp add: numeral_2_eq_2)
  moreover have "last_words e create ch s' (sn_worker s') = last_words e create ch s (sn_worker s)"
    by (cases "(e, create, ch, s, sn_worker s)" rule: last_words.cases)
      (simp_all add: s'_def stream_conn_cancel_eq split: sum.split)
  moreover have "worker_ended (fst (last_words e create ch s (sn_worker s)))"
    by (cases "(e, create, ch, s, sn_worker s)" rule: last_words.cases) (simp_all split: sum.split)
  ultimately show ?thesis using False by (metis fst_conv)
qed

theorem stream_destructor_witness:
  "\<not> worker_ended (sn_worker (stream_conn_cancel (stream_conn_cancel
      (stream_conn_init ([] :: channel_event list)\<lparr>sn_data := [1, 0], sn_worker := In_fread Header\<rparr>)))) \<and>
   sn_session (worker_turns Little_endian Inr recorder 2 (stream_conn_cancel
      (stream_conn_init []\<lparr>sn_data := [7], sn_worker := In_fread (Payload 1), sn_buffer := [0]\<rparr>))) = [Message [7]]"
proof
  let ?s = "stream_conn_init ([] :: channel_event list)\<lparr>sn_data := [1, 0], sn_worker := In_fread Header\<rparr>"
  have "stream_starved ?s" by (simp add: stream_starved_def stream_conn_init_def)
  moreover have "(quiet_step Little_endian Inr recorder)\<^sup>*\<^sup>* (stream_conn_cancel ?s)
      (stream_conn_cancel (stream_conn_cancel ?s))"
    by (simp add: quiet_step.cancel r_into_rtranclp)
  ultimately show "\<not> worker_ended (sn_worker (stream_conn_cancel (stream_conn_cancel ?s)))"
    using stream_destructor [of ?s Little_endian Inr recorder] by auto
next
  let ?s = "stream_conn_init ([] :: channel_event list)
    \<lparr>sn_data := [7], sn_worker := In_fread (Payload 1), sn_buffer := [0]\<rparr>"
  have "\<not> stream_starved ?s" by (simp add: stream_starved_def stream_conn_init_def)
  then show "sn_session (worker_turns Little_endian Inr recorder 2 (stream_conn_cancel ?s)) = [Message [7]]"
    using stream_destructor [of ?s Little_endian Inr recorder]
    by (simp add: stream_conn_init_def overwrite_def del: worker_turns.simps)
qed

text \<open>
  C31. A message without bytes is held back. When the header of one has come over a stream and
  nothing else, the worker waits for the stream to become readable before it reads the payload, of
  no bytes: whatever it does, it delivers nothing until something is written or the stream is
  closed. The first byte of what follows releases it.
\<close>

theorem empty_message_is_held_back:
  fixes s :: "'c stream_conn" and e create ch
  assumes "sn_worker s = In_select Header" and "sn_data s = []" and "\<not> sn_closed s" and "sn_signal_pipe s = 0"
  defines "s2 \<equiv> worker_turns e create ch 2 (s\<lparr>sn_data := frame e False []\<rparr>)"
  shows "(\<forall>t. stream_run e create ch s2 [] t \<longrightarrow> \<not> sn_closed t \<longrightarrow> t = s2 \<and> sn_session t = sn_session s) \<and>
    (\<forall>bs c. bs \<noteq> [] \<longrightarrow> ch_message ch (sn_session s) [] = Inr c \<longrightarrow>
      sn_session (worker_turns e create ch 2 (s2\<lparr>sn_data := bs\<rparr>)) = c)"
proof -
  have s2: "s2 = s\<lparr>sn_worker := In_select (Payload 0), sn_buffer := []\<rparr>"
    unfolding s2_def using assms(1-4) by (rule empty_message_awaits_nothing)
  have waits: "awaits_nothing s2" using assms(2-4) by (simp add: awaits_nothing_def s2)
  have "t = s2" if "stream_run e create ch s2 [] t" "\<not> sn_closed t" for t
    using stream_run_awaits_nothing [OF that(1) waits refl that(2)] .
  moreover have "sn_session (worker_turns e create ch 2 (s2\<lparr>sn_data := bs\<rparr>)) = c"
    if "bs \<noteq> []" "ch_message ch (sn_session s) [] = Inr c" for bs c
    using worker_turns_next_byte [OF waits that(1), of e create ch] that(2) by (simp add: s2)
  moreover have "sn_session s2 = sn_session s" by (simp add: s2)
  ultimately show ?thesis by blast
qed

theorem empty_message_is_held_back_witness:
  "sn_session (worker_turns Little_endian Inr recorder 2
     ((worker_turns Little_endian Inr recorder 2
        (stream_conn_init []\<lparr>sn_worker := In_select Header, sn_data := frame Little_endian False []\<rparr>))
      \<lparr>sn_data := [4]\<rparr>)) = [Message []]"
proof -
  let ?s = "stream_conn_init ([] :: channel_event list) \<lparr>sn_worker := In_select Header\<rparr>"
  have "sn_worker ?s = In_select Header" "sn_data ?s = []" "\<not> sn_closed ?s" "sn_signal_pipe ?s = 0"
    by (simp_all add: stream_conn_init_def)
  from empty_message_is_held_back [OF this, of Little_endian Inr recorder]
  have "sn_session (worker_turns Little_endian Inr recorder 2
     ((worker_turns Little_endian Inr recorder 2 (?s\<lparr>sn_data := frame Little_endian False []\<rparr>))
      \<lparr>sn_data := [4]\<rparr>)) = sn_session ?s @ [Message []]"
    by (simp del: worker_turns.simps)
  then show ?thesis by (simp add: stream_conn_init_def del: worker_turns.simps)
qed

section \<open>Spawning a server\<close>

text \<open>
  C15. Spawning on Unix. Whatever descriptors the parent has, free or in use, a child that has been
  started has the read end of the first pipe as its standard input and the write end of the second
  as its standard output; the parent keeps the other two ends and is otherwise as before. A spawn
  that throws leaves the parent's descriptors as they were; the child whose \<^verbatim>\<open>execve\<close> failed is
  left unwaited for.
\<close>

theorem spawn_connects_child:
  assumes "spawn E path args extra s = (r, s')"
  shows "case r of
      Inr sp \<Rightarrow> (\<exists>ct. os_children s' = os_children s @ [(sp_pid sp, Running ct)] \<and>
          fd_at ct 0 = Some (Pipe_read (os_pipes s), False) \<and>
          fd_at ct 1 = Some (Pipe_write (os_pipes s + 1), False)) \<and>
        fd_at (os_parent s) (sp_to sp) = None \<and> fd_at (os_parent s) (sp_from sp) = None \<and>
        fd_at (os_parent s') = (fd_at (os_parent s))
          (sp_to sp := Some (Pipe_write (os_pipes s), False),
           sp_from sp := Some (Pipe_read (os_pipes s + 1), False))
    | Inl x \<Rightarrow> fd_at (os_parent s') = fd_at (os_parent s) \<and>
        (\<exists>cs. os_children s' = os_children s @ cs \<and> spawn_failed E path args extra x cs)"
proof (cases r)
  case (Inl x)
  with assms spawn_Inl_parent [of E path args extra s x s'] spawn_Inl_children [of E path args extra s x s']
  show ?thesis by simp
next
  case (Inr sp)
  show ?thesis
  proof (rule spawn_Inr [OF assms [unfolded Inr]])
    fix r0 w1 ct
    assume free: "\<forall>i \<in> {r0, sp_to sp, sp_from sp, w1}. fd_at (os_parent s) i = None"
      and ch: "os_children s' = os_children s @ [(sp_pid sp, Running ct)]"
      and pa: "fd_at (os_parent s') = (fd_at (os_parent s))
        (sp_to sp := Some (Pipe_write (os_pipes s), False), sp_from sp := Some (Pipe_read (os_pipes s + 1), False))"
      and ct: "\<And>i. fd_at ct i = (if i = 1 then Some (Pipe_write (os_pipes s + 1), False)
           else if i = 0 \<or> i = r0 then Some (Pipe_read (os_pipes s), False)
           else if i = w1 then Some (Pipe_write (os_pipes s + 1), False)
           else drop_cloexec (fd_at (os_parent s) i))"
    show ?thesis
      unfolding Inr sum.case using free ch pa by (intro conjI exI [of _ ct]) (simp_all add: ct)
  qed
qed

theorem spawn_connects_child_witness:
  "\<exists>sp s'. spawn \<lparr>se_pipe = \<lambda>_. True, se_fdopen = \<lambda>_. True, se_fork = Some 7,
       se_execve = \<lambda>_ _ _. None, se_environ = []\<rparr> ''server'' [] []
       \<lparr>os_parent = [None, Some (Other_file 1, False)], os_children = [], os_pipes = 0\<rparr> = (Inr sp, s') \<and>
     fd_at (os_parent s') (sp_to sp) = Some (Pipe_write 0, False) \<and> length (os_children s') = 1"
proof -
  let ?E = "\<lparr>se_pipe = \<lambda>_. True, se_fdopen = \<lambda>_. True, se_fork = Some (7 :: nat),
       se_execve = \<lambda>_ _ _. None, se_environ = []\<rparr>"
  let ?s = "\<lparr>os_parent = [None, Some (Other_file 1, False)], os_children = [], os_pipes = 0\<rparr>"
  obtain sp s' where run: "spawn ?E ''server'' [] [] ?s = (Inr sp, s')"
    by (simp add: spawn_def anonymous_pipe_def fork_and_exec_def Let_def)
  from spawn_connects_child [OF run] have "os_children s' \<noteq> []" "length (os_children s') = 1"
      and to: "fd_at (os_parent s') (sp_to sp) = (if sp_to sp = sp_from sp
        then Some (Pipe_read 1, False) else Some (Pipe_write 0, False))"
    by auto
  moreover have "sp_to sp = 2" "sp_from sp = 3"
    using run by (auto simp: spawn_def anonymous_pipe_def fork_and_exec_def Let_def)
  ultimately show ?thesis using run by (intro exI [of _ sp] exI [of _ s']) simp
qed

text \<open>
  C30. The destructor of a spawned server's client returns: closing the stream to the server ends its
  standard input, with that \<^verbatim>\<open>main\<close>, with the process its standard output, and with that the thread
  that is joined. Whatever is still in the two pipes, the destructor, the server and the thread
  cannot go on for ever, one of them can go on until the thread is joined, the process is gone by
  then, and the channel is not told of a disconnection. All of that needs that no other server has
  been spawned since: such a one has inherited the parent's end of the pipe, the input of the first
  does not end while it runs, and the destructor does not return.
\<close>

theorem spawn_client_destructor:
  assumes "os_ok s" and "fd_at (os_parent s) 0 \<noteq> None" and "fd_at (os_parent s) 1 \<noteq> None"
    and "spawn E path args extra s = (Inr sp, s1)" and "sp_pid sp \<notin> fst ` set (os_children s)"
  shows "\<not> (\<exists>f. \<forall>i. dtor_step (os_pipes s) sp (f i) (f (Suc i))) \<and>
    (\<forall>l. (dtor_step (os_pipes s) sp)\<^sup>*\<^sup>* (fresh_link s1 n m) l \<longrightarrow> \<not> sl_told l \<and>
      (if sl_stage l = Thread_joined then sl_thread_ended l \<and> \<not> server_running (sp_pid sp) (sl_os l)
       else \<exists>l'. dtor_step (os_pipes s) sp l l')) \<and>
    (\<forall>E2 path2 args2 extra2 sp2 s2 l. spawn E2 path2 args2 extra2 s1 = (Inr sp2, s2) \<longrightarrow>
      sp_pid sp2 \<noteq> sp_pid sp \<longrightarrow> (dtor_step (os_pipes s) sp)\<^sup>*\<^sup>* (fresh_link s2 n m) l \<longrightarrow>
      sl_stage l \<noteq> Thread_joined \<and> server_running (sp_pid sp) (sl_os l))"
proof (intro conjI allI impI)
  show "\<not> (\<exists>f. \<forall>i. dtor_step (os_pipes s) sp (f i) (f (Suc i)))" by (rule dtor_steps_end)
next
  obtain ct where inv: "dtor_inv (os_pipes s) sp (os_children s) [] (fresh_link s1 n m) (Running ct)"
    and own: "only_writer (os_pipes s) (sp_to sp) (os_parent (sl_os (fresh_link s1 n m)))"
    using fresh_dtor_inv [OF assms(1,4,5,2,3), of n m] by (auto simp: fresh_link_def)
  fix l
  assume steps: "(dtor_step (os_pipes s) sp)\<^sup>*\<^sup>* (fresh_link s1 n m) l"
  obtain st where l: "dtor_inv (os_pipes s) sp (os_children s) [] l st"
    using dtor_steps_inv [OF steps inv own] by blast
  then show "\<not> sl_told l" by (simp add: dtor_inv_def)
  show "if sl_stage l = Thread_joined then sl_thread_ended l \<and> \<not> server_running (sp_pid sp) (sl_os l)
     else \<exists>l'. dtor_step (os_pipes s) sp l l'"
    using dtor_progress [OF l] dtor_inv_running [OF l] l by (auto simp: dtor_inv_def)
next
  fix E2 path2 args2 extra2 sp2 s2 l
  assume later: "spawn E2 path2 args2 extra2 s1 = (Inr sp2, s2)" "sp_pid sp2 \<noteq> sp_pid sp"
    and steps: "(dtor_step (os_pipes s) sp)\<^sup>*\<^sup>* (fresh_link s2 n m) l"
  obtain ct where inv: "dtor_inv (os_pipes s) sp (os_children s) [] (fresh_link s1 n m) (Running ct)"
    and own: "only_writer (os_pipes s) (sp_to sp) (os_parent s1)"
    and to: "fd_at (os_parent s1) (sp_to sp) = Some (Pipe_write (os_pipes s), False)" "1 < sp_to sp"
    using fresh_dtor_inv [OF assms(1,4,5,2,3), of n m] by blast
  have "os_pipes s + 1 < os_pipes s1" by (rule spawn_Inr [OF assms(4)]) simp
  from later_dtor_inv [OF inv this to own later] obtain ct2 where
    inv2: "dtor_inv (os_pipes s) sp (os_children s) [(sp_pid sp2, Running ct2)] (fresh_link s2 n m) (Running ct)"
      "holds_writer (os_pipes s) ct2"
      "only_writer (os_pipes s) (sp_to sp) (os_parent (sl_os (fresh_link s2 n m)))"
    by (auto simp: fresh_link_def)
  obtain st where l: "dtor_inv (os_pipes s) sp (os_children s) [(sp_pid sp2, Running ct2)] l st"
    using dtor_steps_inv [OF steps inv2(1,3)] by blast
  have "sl_stage l \<noteq> Thread_joined \<and> server_running (sp_pid sp) (sl_os l)"
    by (rule held_never_joined [OF l, of "(sp_pid sp2, Running ct2)"]) (simp_all add: inv2(2))
  then show "sl_stage l \<noteq> Thread_joined" "server_running (sp_pid sp) (sl_os l)" by simp_all
qed

theorem spawn_client_destructor_witness:
  "\<exists>a s1 b s2. spawn \<lparr>se_pipe = \<lambda>_. True, se_fdopen = \<lambda>_. True, se_fork = Some 7,
       se_execve = \<lambda>_ _ _. None, se_environ = []\<rparr> ''first'' [] []
       \<lparr>os_parent = [Some (Other_file 0, False), Some (Other_file 1, False)], os_children = [], os_pipes = 0\<rparr>
       = (Inr a, s1) \<and>
     spawn \<lparr>se_pipe = \<lambda>_. True, se_fdopen = \<lambda>_. True, se_fork = Some 8,
       se_execve = \<lambda>_ _ _. None, se_environ = []\<rparr> ''second'' [] [] s1 = (Inr b, s2) \<and>
     (\<exists>l'. dtor_step 0 a (fresh_link s1 3 2) l') \<and> sl_stage (fresh_link s2 3 2) \<noteq> Thread_joined"
proof -
  let ?E = "\<lambda>pid :: nat. \<lparr>se_pipe = \<lambda>_. True, se_fdopen = \<lambda>_. True, se_fork = Some pid,
       se_execve = \<lambda>_ _ _. None, se_environ = []\<rparr>"
  let ?s = "\<lparr>os_parent = [Some (Other_file 0, False), Some (Other_file 1, False)], os_children = [], os_pipes = 0\<rparr>"
  obtain a s1 where first: "spawn (?E 7) ''first'' [] [] ?s = (Inr a, s1)" "sp_pid a = 7"
    by (simp add: spawn_def anonymous_pipe_def fork_and_exec_def Let_def)
  have "\<exists>b s2. spawn (?E 8) ''second'' [] [] s1 = (Inr b, s2) \<and> sp_pid b = 8"
    by (auto simp: spawn_def anonymous_pipe_def fork_and_exec_def Let_def split: prod.split)
  then obtain b s2 where second: "spawn (?E 8) ''second'' [] [] s1 = (Inr b, s2)" "sp_pid b = 8" by blast
  have ok: "os_ok ?s" by (auto simp: os_ok_def table_ok_def fd_at_def less_Suc_eq_0_disj split: if_splits)
  have fds: "fd_at (os_parent ?s) 0 \<noteq> None" "fd_at (os_parent ?s) 1 \<noteq> None" by (simp_all add: fd_at_def)
  have pid: "sp_pid a \<notin> fst ` set (os_children ?s)" by simp
  note dtor = spawn_client_destructor [OF ok fds first(1) pid, of 3 2, simplified os.simps, THEN conjunct2]
  have "\<exists>l'. dtor_step 0 a (fresh_link s1 3 2) l'"
    using dtor [THEN conjunct1, rule_format, of "fresh_link s1 3 2"] by (simp add: fresh_link_def)
  moreover have "sl_stage (fresh_link s2 3 2) \<noteq> Thread_joined"
    using dtor [THEN conjunct2, rule_format, of "?E 8" "''second''" "[]" "[]" b s2 "fresh_link s2 3 2"]
      first(2) second by simp
  ultimately show ?thesis using first(1) second(1) by blast
qed



text \<open>
  C36. The handles of a spawn on Windows. One that succeeds leaves three more open in the parent: the
  ends of two new pipes, one for writing and one for reading, and the process. The child has the other
  ends as its standard input and output, has inherited them, and of the parent's handles only those
  besides that could be inherited before: neither of the parent's ends. Once the streams have
  been closed and the process waited for, the parent has open what it had before, and the handler
  has been given the exit code. One that throws has closed everything, unless it was a stream that
  could not be made: then a handle of the pipe is left open that nobody owns.
\<close>

theorem win_spawn_handles:
  assumes "wo_ok s" and "win_spawn E path args extra s = (r, s')"
  shows "case r of
      Inr sp \<Rightarrow> (\<exists>c stdin_r stdout_w. wo_children s' = wo_children s @ [c] \<and> wc_process c = ws_process sp \<and>
          wc_std_input c = Some stdin_r \<and> wc_std_output c = Some stdout_w \<and>
          wo_pipes s' = wo_pipes s @ [(stdin_r, ws_to sp), (ws_from sp, stdout_w)] \<and>
          set (wc_handles c) = set (wo_inherit s) \<union> {stdin_r, stdout_w} \<and>
          ws_to sp \<notin> set (wc_handles c) \<and> ws_from sp \<notin> set (wc_handles c) \<and>
          distinct [stdin_r, stdout_w, ws_to sp, ws_from sp, ws_process sp] \<and>
          {stdin_r, stdout_w, ws_to sp, ws_from sp, ws_process sp} \<inter> set (wo_open s) = {}) \<and>
        set (wo_open s') = set (wo_open s) \<union> {ws_to sp, ws_from sp, ws_process sp} \<and>
        set (wo_inherit s') = set (wo_inherit s) \<and>
        fst (win_wait_and_report exit_code sp s') = sint (exit_code (ws_process sp)) \<and>
        set (wo_open (snd (win_wait_and_report exit_code sp (close_handles [ws_to sp, ws_from sp] s')))) =
          set (wo_open s)
    | Inl x \<Rightarrow> (x \<notin> {Std_runtime_error ''crt error'', Std_runtime_error ''crt stream error''} \<longrightarrow>
          set (wo_open s') = set (wo_open s)) \<and>
        (we_create_pipe E 0 \<and> \<not> (we_open_osfhandle E (wo_next s) \<and> we_fdopen E (wo_next s)) \<longrightarrow>
          wo_next s + 1 \<in> set (wo_open s') - set (wo_open s))"
proof (cases r)
  case (Inl x)
  have "wo_next s + 1 \<in> set (wo_open s') - set (wo_open s)"
    if "we_create_pipe E 0" "\<not> (we_open_osfhandle E (wo_next s) \<and> we_fdopen E (wo_next s))"
    using win_spawn_leaks [OF assms(1) that, of path args extra] assms(2) Inl by auto
  with win_spawn_Inl [OF assms(1) assms(2) [unfolded Inl]] show ?thesis by (simp add: Inl)
next
  case (Inr sp)
  note ok = win_spawn_Inr [OF assms(1) assms(2) [unfolded Inr]]
  have new: "h \<notin> set (wo_open s) \<and> h \<notin> set (wo_inherit s)" if "wo_next s \<le> h" for h
    using assms(1) that by (fastforce simp: wo_ok_def not_less [symmetric])
  obtain c where c: "wo_children s' = wo_children s @ [c]" "wc_process c = wo_next s + 4"
      "wc_std_input c = Some (wo_next s)" "wc_std_output c = Some (wo_next s + 3)"
      "set (wc_handles c) = set (wo_inherit s) \<union> {wo_next s, wo_next s + 3}"
    using ok(5) by blast
  have "set (wo_open (snd (win_wait_and_report exit_code sp (close_handles [ws_to sp, ws_from sp] s')))) = set (wo_open s)"
    using ok(1,2) new [of "wo_next s + 1"] new [of "wo_next s + 2"] new [of "wo_next s + 4"]
    by (auto simp: win_wait_and_report_def)
  then show ?thesis
    unfolding Inr sum.case using ok(1-4) c new [of "wo_next s"] new [of "wo_next s + 1"] new [of "wo_next s + 2"]
      new [of "wo_next s + 3"] new [of "wo_next s + 4"]
    by (intro conjI exI [of _ c] exI [of _ "wo_next s"] exI [of _ "wo_next s + 3"])
      (simp_all add: win_wait_and_report_def)
qed

theorem win_spawn_handles_witness:
  "\<exists>sp s'. win_spawn \<lparr>we_create_pipe = \<lambda>_. True, we_open_osfhandle = \<lambda>_. True, we_fdopen = \<lambda>_. True,
       we_create_process = \<lambda>_ _. True, we_multi_byte = \<lambda>s. Some (map widen s), we_environment = [0]\<rparr>
       ''server'' [] [] \<lparr>wo_open = [1, 2], wo_inherit = [2], wo_next = 3, wo_pipes = [], wo_children = []\<rparr> =
       (Inr sp, s') \<and> wo_pipes s' = [(3, ws_to sp), (ws_from sp, 6)] \<and>
     set (wo_open (snd (win_wait_and_report (\<lambda>_. 0) sp (close_handles [ws_to sp, ws_from sp] s')))) = {1, 2}"
proof -
  let ?E = "\<lparr>we_create_pipe = \<lambda>_. True, we_open_osfhandle = \<lambda>_. True, we_fdopen = \<lambda>_. True,
       we_create_process = \<lambda>_ _. True, we_multi_byte = \<lambda>s. Some (map widen s), we_environment = [0]\<rparr>"
  let ?s = "\<lparr>wo_open = [1, 2], wo_inherit = [2], wo_next = 3, wo_pipes = [], wo_children = []\<rparr>"
  obtain sp s' where run: "win_spawn ?E ''server'' [] [] ?s = (Inr sp, s')" and pipes: "wo_pipes s' = [(3, 4), (5, 6)]"
    by (simp add: win_spawn_def and_then_def create_pipe_def from_handle_def command_line_def unicode_def
        start_process_def set_inherit_def close_handles_def Let_def)
  have "wo_ok ?s" by (simp add: wo_ok_def)
  from win_spawn_handles [OF this run, of "\<lambda>_. 0"] run pipes show ?thesis by auto
qed

section \<open>The COM transport\<close>



text \<open>
  C14. What the COM client acquires and gives back. If COM could be initialized, then after the
  constructor everything but COM has been given back, each thing while it was the latest one held,
  whatever failed in between; a constructor that throws, and the destructor, give up COM as well,
  and no instance is created or released without it. The instance is created with the activation
  context active, if there is one. The only exception is a refused connection, and by then the
  channel has been told of a disconnection. If COM could not be initialized it is given up all the
  same: an initialization by somebody else on that thread is undone.
\<close>

theorem com_client_construction:
  assumes "com_client_ctor A e u ch endpoint_id c tr = (r, tr')" and "held [] tr = Some hs"
  shows "(ca_initialize A \<longrightarrow> held [] tr' = Some (case r of Inl _ \<Rightarrow> hs | Inr _ \<Rightarrow> Holds_com # hs) \<and>
      (\<forall>l ich l' tr''. r = Inr l \<longrightarrow> com_client_dtor ich ch l tr' = Inr (l', tr'') \<longrightarrow> held [] tr'' = Some hs)) \<and>
    (\<not> ca_initialize A \<and> hs = [Holds_com] \<longrightarrow>
      held [] (case r of Inl _ \<Rightarrow> tr' | Inr _ \<Rightarrow> com_initialize_dtor tr') = Some []) \<and>
    (\<forall>h cookie. ca_create_act_ctx A = Some h \<longrightarrow> ca_activate A h = Some cookie \<longrightarrow>
      r = com_connect e u ch (ca_create_instance A (tr @ [Co_initialize_ex (ca_initialize A),
        Create_act_ctx (Some h), Activate_act_ctx h (Some cookie)])) endpoint_id c) \<and>
    (\<forall>x s. r = Inl (x, s) \<longrightarrow> x = Thrown (Connection_refused (c_str endpoint_id)) \<and> is_deleted s \<and>
      is_underlying s = ch_disconnect ch c)"
proof (intro conjI impI allI)
  assume "ca_initialize A"
  from com_client_ctor_held [OF assms this]
  show trace: "held [] tr' = Some (case r of Inl _ \<Rightarrow> hs | Inr _ \<Rightarrow> Holds_com # hs)" .
  show "held [] tr'' = Some hs" if "r = Inr l" "com_client_dtor ich ch l tr' = Inr (l', tr'')" for l ich l' tr''
    using com_client_dtor_held [OF that(2)] trace that(1) by simp
next
  assume "\<not> ca_initialize A \<and> hs = [Holds_com]"
  with com_client_ctor_unbalanced [OF assms(1)] assms(2)
  show "held [] (case r of Inl _ \<Rightarrow> tr' | Inr _ \<Rightarrow> com_initialize_dtor tr') = Some []" by blast
next
  fix h cookie
  assume "ca_create_act_ctx A = Some h" and "ca_activate A h = Some cookie"
  from com_client_ctor_active [OF assms(1) this]
  show "r = com_connect e u ch (ca_create_instance A (tr @ [Co_initialize_ex (ca_initialize A),
        Create_act_ctx (Some h), Activate_act_ctx h (Some cookie)])) endpoint_id c" .
next
  fix x s
  assume "r = Inl (x, s)"
  from com_client_ctor_Inl [OF assms(1) [unfolded this]]
  show "x = Thrown (Connection_refused (c_str endpoint_id))" "is_deleted s" "is_underlying s = ch_disconnect ch c"
    by simp_all
qed

theorem com_client_construction_witness:
  "\<exists>l tr'. com_client_ctor \<lparr>ca_initialize = True, ca_create_act_ctx = Some 1, ca_activate = (\<lambda>h. Some 2),
       ca_create_instance = (\<lambda>tr clsid. (S_OK, ()))\<rparr> Little_endian [] recorder ''x'' [] [] = (Inr l, tr') \<and>
     held [] tr' = Some [Holds_com]"
proof -
  let ?A = "\<lparr>ca_initialize = True, ca_create_act_ctx = Some 1, ca_activate = (\<lambda>h. Some 2),
       ca_create_instance = (\<lambda>tr clsid. (S_OK, ()))\<rparr>"
  obtain l tr' where run: "com_client_ctor ?A Little_endian [] recorder ''x'' [] [] = (Inr l, tr')"
    by (simp add: com_client_ctor_def com_connect_def create_activation_context_def session_advise_def on_sink_def
        stream_add_ref_def inbound_stream_ctor_def stream_query_interface_def Let_def)
  from com_client_construction [OF run, of "[]"] have "held [] tr' = Some [Holds_com]" by simp
  with run show ?thesis by blast
qed

end
